(* ===== verification/Kernel_Prelude.thy ===== *)
theory Kernel_Prelude
  imports Main "HOL-Library.Word" "HOL-Library.Char_ord" "HOL-Library.List_Lexorder"
    "HOL-Library.Multiset"
begin

text \<open>
  What the component theories share: the names of the machine types, Rust's
  \<open>Result\<close> as a sum with its question-mark operator, \<open>BTreeMap\<close> as an
  association list in key order, slices with the range check written out,
  little-endian integer fields, and the generic reachability interface of the
  state machines.  Nothing here depends on a particular file of the kernel.
\<close>

named_theorems bt_simps \<open>lookups after the BTreeMap operations\<close>
named_theorems le_simps \<open>little-endian fields of byte strings\<close>
named_theorems slice_simps \<open>slices and overwrites of byte strings\<close>
named_theorems text_simps \<open>printing and scanning of text records\<close>

section \<open>Machine types and results\<close>

type_synonym byte = "8 word"
type_synonym u16 = "16 word"
type_synonym u32 = "32 word"
type_synonym u64 = "64 word"

text \<open>A fallible operation: \<open>Inl\<close> is the error arm, \<open>Inr\<close> the value.\<close>

type_synonym ('e, 'a) result = "'e + 'a"

fun try_bind :: "('e, 'a) result \<Rightarrow> ('a \<Rightarrow> ('e, 'b) result) \<Rightarrow> ('e, 'b) result" where
  "try_bind (Inl e) f = Inl e"
| "try_bind (Inr x) f = f x"

fun ok_or :: "'e \<Rightarrow> 'a option \<Rightarrow> ('e, 'a) result" where
  "ok_or e None = Inl e"
| "ok_or e (Some x) = Inr x"

lemma try_bind_Inr [simp]:
  "try_bind r f = Inr y \<longleftrightarrow> (\<exists>x. r = Inr x \<and> f x = Inr y)"
  by (cases r) auto

lemma try_bind_Inl:
  "try_bind r f = Inl e \<longleftrightarrow> r = Inl e \<or> (\<exists>x. r = Inr x \<and> f x = Inl e)"
  by (cases r) auto

lemma ok_or_Inr [simp]: "ok_or e x = Inr y \<longleftrightarrow> x = Some y"
  by (cases x) auto

lemma ok_or_Inl [simp]: "ok_or e x = Inl e' \<longleftrightarrow> x = None \<and> e' = e"
  by (cases x) auto

section \<open>BTreeMap\<close>

text \<open>
  A \<open>BTreeMap\<close> is its in-order list of entries: insertion keeps the keys
  sorted, removal drops the key, and iteration is the list itself.
\<close>

fun bt_insert :: "'k::linorder \<Rightarrow> 'v \<Rightarrow> ('k \<times> 'v) list \<Rightarrow> ('k \<times> 'v) list" where
  "bt_insert k v [] = [(k, v)]"
| "bt_insert k v ((a, b) # m) =
     (if k < a then (k, v) # (a, b) # m
      else if k = a then (k, v) # m
      else (a, b) # bt_insert k v m)"

definition bt_remove :: "'k \<Rightarrow> ('k \<times> 'v) list \<Rightarrow> ('k \<times> 'v) list" where
  "bt_remove k m = filter (\<lambda>e. fst e \<noteq> k) m"

definition bt_sorted :: "('k::linorder \<times> 'v) list \<Rightarrow> bool" where
  "bt_sorted m \<longleftrightarrow> sorted_wrt (<) (map fst m)"

lemma map_of_bt_insert [simp, bt_simps]:
  "map_of (bt_insert k v m) = (map_of m)(k \<mapsto> v)"
  by (induction k v m rule: bt_insert.induct) (auto simp: fun_eq_iff)

lemma set_fst_bt_insert [simp, bt_simps]:
  "fst ` set (bt_insert k v m) = insert k (fst ` set m)"
  by (induction k v m rule: bt_insert.induct) auto

lemma bt_sorted_insert [simp, intro]:
  "bt_sorted m \<Longrightarrow> bt_sorted (bt_insert k v m)"
proof (induction k v m rule: bt_insert.induct)
  case (2 k v a b m)
  then show ?case
    by (auto simp: bt_sorted_def simp flip: set_map) (force simp: image_iff)+
qed (simp add: bt_sorted_def)

lemma map_of_bt_remove [simp, bt_simps]:
  "map_of (bt_remove k m) = (map_of m)(k := None)"
  by (induction m) (auto simp: bt_remove_def fun_eq_iff)

lemma bt_sorted_remove [simp, intro]: "bt_sorted m \<Longrightarrow> bt_sorted (bt_remove k m)"
  by (auto simp: bt_sorted_def bt_remove_def sorted_wrt_map intro: sorted_wrt_filter)

lemma bt_sorted_distinct: "bt_sorted m \<Longrightarrow> distinct (map fst m)"
  by (simp add: bt_sorted_def strict_sorted_iff)

lemma length_bt_insert:
  "bt_sorted m \<Longrightarrow>
   length (bt_insert k v m) = (if k \<in> fst ` set m then length m else Suc (length m))"
proof (induction k v m rule: bt_insert.induct)
  case (2 k v a b m)
  then show ?case
    by (auto simp: bt_sorted_def)
qed simp

lemma bt_sorted_eqI:
  assumes "bt_sorted m" "bt_sorted n" "map_of m = map_of n"
  shows "m = n"
proof (rule map_sorted_distinct_set_unique [where f = fst])
  show "set m = set n"
    using assms by (simp add: bt_sorted_distinct flip: map_of_inject_set)
  show "inj_on fst (set m \<union> set n)"
    using assms \<open>set m = set n\<close> by (simp add: bt_sorted_distinct flip: distinct_map)
      (metis bt_sorted_distinct distinct_map)
qed (use assms in \<open>auto simp: bt_sorted_def strict_sorted_iff\<close>)

section \<open>Slices\<close>

text \<open>
  \<open>xs.get(a..b)\<close>: the range is checked and the result is optional.  The
  overwrite \<open>xs[off..off + n].copy_from_slice(ys)\<close> is \<open>splice\<close>; the callers
  write out the range check it depends on.
\<close>

definition get_range :: "'a list \<Rightarrow> nat \<Rightarrow> nat \<Rightarrow> 'a list option" where
  "get_range xs a b =
     (if a \<le> b \<and> b \<le> length xs then Some (take (b - a) (drop a xs)) else None)"

definition splice :: "nat \<Rightarrow> 'a list \<Rightarrow> 'a list \<Rightarrow> 'a list" where
  "splice off ys xs = take off xs @ ys @ drop (off + length ys) xs"

lemma get_range_Some:
  "get_range xs a b = Some ys \<longleftrightarrow>
   a \<le> b \<and> b \<le> length xs \<and> ys = take (b - a) (drop a xs)"
  by (auto simp: get_range_def)

lemma length_get_range: "get_range xs a b = Some ys \<Longrightarrow> length ys = b - a"
  by (auto simp: get_range_Some)

lemma length_splice [simp, slice_simps]:
  "off + length ys \<le> length xs \<Longrightarrow> length (splice off ys xs) = length xs"
  by (simp add: splice_def)

lemma nth_splice [slice_simps]:
  assumes "off + length ys \<le> length xs" "i < length xs"
  shows "splice off ys xs ! i =
         (if off \<le> i \<and> i < off + length ys then ys ! (i - off) else xs ! i)"
  using assms by (auto simp: splice_def nth_append)

lemma splice_read_same [simp, slice_simps]:
  "off + length ys \<le> length xs \<Longrightarrow>
   take (length ys) (drop off (splice off ys xs)) = ys"
  by (simp add: splice_def)

lemma splice_read_before [slice_simps]:
  "a + n \<le> off \<Longrightarrow> off + length ys \<le> length xs \<Longrightarrow>
   take n (drop a (splice off ys xs)) = take n (drop a xs)"
  by (rule nth_equalityI) (auto simp: nth_splice)

lemma splice_read_after [slice_simps]:
  "off + length ys \<le> a \<Longrightarrow> off + length ys \<le> length xs \<Longrightarrow>
   take n (drop a (splice off ys xs)) = take n (drop a xs)"
  by (rule nth_equalityI) (auto simp: nth_splice)

text \<open>\<open>Vec::swap_remove\<close>: the last element takes the place of the removed one.\<close>

definition swap_remove :: "nat \<Rightarrow> 'a list \<Rightarrow> 'a list" where
  "swap_remove i xs = (butlast xs)[i := last xs]"

lemma length_swap_remove [simp]: "length (swap_remove i xs) = length xs - 1"
  by (simp add: swap_remove_def)

lemma mset_swap_remove [simp]:
  "i < length xs \<Longrightarrow> mset (swap_remove i xs) = mset xs - {#xs ! i#}"
proof (induction xs rule: rev_induct)
  case (snoc x xs)
  show ?case
  proof (cases "i < length xs")
    case True
    then show ?thesis by (simp add: swap_remove_def nth_append mset_update)
  next
    case False
    with snoc.prems have "i = length xs" by simp
    then show ?thesis by (simp add: swap_remove_def list_update_beyond)
  qed
qed simp

lemma take_swap_remove: "i < length xs \<Longrightarrow> take i (swap_remove i xs) = take i xs"
  by (simp add: swap_remove_def take_butlast)

section \<open>Little-endian integer fields\<close>

fun le_bytes :: "nat \<Rightarrow> nat \<Rightarrow> byte list" where
  "le_bytes 0 v = []"
| "le_bytes (Suc w) v = of_nat (v mod 256) # le_bytes w (v div 256)"

fun le_val :: "byte list \<Rightarrow> nat" where
  "le_val [] = 0"
| "le_val (b # bs) = unat b + 256 * le_val bs"

definition rd_le :: "nat \<Rightarrow> byte list \<Rightarrow> nat \<Rightarrow> nat option" where
  "rd_le w xs off = map_option le_val (get_range xs off (off + w))"

lemma length_le_bytes [simp, le_simps]: "length (le_bytes w v) = w"
  by (induction w v rule: le_bytes.induct) auto

lemma unat_of_nat_byte [simp]: "unat (of_nat n :: byte) = n mod 256"
  by (simp add: unat_of_nat)

lemma unat_byte_less [simp]: "unat (b :: byte) < 256"
  using unsigned_less [of b] by simp

lemma le_val_le_bytes [simp, le_simps]: "le_val (le_bytes w v) = v mod 256 ^ w"
proof (induction w v rule: le_bytes.induct)
  case (2 w v)
  have "v mod (256 * 256 ^ w) = 256 * (v div 256 mod 256 ^ w) + v mod 256"
    by (rule mod_mult2_eq)
  with 2 show ?case by simp
qed simp

lemma le_bytes_le_val [simp, le_simps]: "le_bytes (length bs) (le_val bs) = bs"
proof (induction bs)
  case (Cons b bs)
  have "(unat b + 256 * le_val bs) mod 256 = unat b"
       "(unat b + 256 * le_val bs) div 256 = le_val bs"
    by simp_all
  with Cons show ?case by simp
qed simp

lemma le_val_less: "le_val bs < 256 ^ length bs"
  by (metis le_bytes_le_val le_val_le_bytes mod_less_divisor zero_less_numeral zero_less_power)

lemma le_bytes_mod: "le_bytes w (v mod 256 ^ w) = le_bytes w v"
  by (metis le_bytes_le_val le_val_le_bytes length_le_bytes)

lemma rd_le_Some_iff:
  "(\<exists>v. rd_le w xs off = Some v) \<longleftrightarrow> off + w \<le> length xs"
  by (auto simp: rd_le_def get_range_def)

lemma rd_le_splice_same [simp, le_simps]:
  "off + w \<le> length xs \<Longrightarrow>
   rd_le w (splice off (le_bytes w v) xs) off = Some (v mod 256 ^ w)"
  using splice_read_same [of off "le_bytes w v" xs]
  by (simp add: rd_le_def get_range_def)

lemma rd_le_splice_other [le_simps]:
  "off + length ys \<le> length xs \<Longrightarrow> a + w \<le> off \<or> off + length ys \<le> a \<Longrightarrow>
   rd_le w (splice off ys xs) a = rd_le w xs a"
  by (auto simp: rd_le_def get_range_def splice_read_before splice_read_after)

section \<open>Text as bytes\<close>

text \<open>
  A Rust string is its UTF-8 byte sequence: a \<^typ>\<open>string\<close> of the model holds
  one HOL character per byte.  \<open>as_bytes\<close> and \<open>of_bytes\<close> move between the two
  views of the same bytes.
\<close>

definition as_bytes :: "string \<Rightarrow> byte list" where
  "as_bytes s = map (\<lambda>c. of_nat (of_char c)) s"

definition of_bytes :: "byte list \<Rightarrow> string" where
  "of_bytes bs = map (\<lambda>b. char_of (unat b)) bs"

lemma of_char_less [simp]: "(of_char c :: nat) < 256"
  using of_char_mod_256 [where 'a = nat] by (metis mod_less_divisor zero_less_numeral)

lemma of_bytes_as_bytes [simp, text_simps]: "of_bytes (as_bytes s) = s"
  by (induction s) (simp_all add: of_bytes_def as_bytes_def)

lemma as_bytes_of_bytes [simp, text_simps]: "as_bytes (of_bytes bs) = bs"
  by (induction bs) (simp_all add: of_bytes_def as_bytes_def)

lemma length_as_bytes [simp]: "length (as_bytes s) = length s"
  by (simp add: as_bytes_def)

lemma length_of_bytes [simp]: "length (of_bytes bs) = length bs"
  by (simp add: of_bytes_def)

section \<open>Invariants of state machines\<close>

text \<open>
  The interface of every state machine below: initial states and a step
  relation that keep an invariant.  Each component interprets it on its own
  step relation.
\<close>

locale invariant_system =
  fixes init :: "'s \<Rightarrow> bool"
    and step :: "'s \<Rightarrow> 's \<Rightarrow> bool"
    and inv :: "'s \<Rightarrow> bool"
  assumes init_inv: "init s \<Longrightarrow> inv s"
    and step_inv: "inv s \<Longrightarrow> step s t \<Longrightarrow> inv t"
begin

lemma steps_inv: "step\<^sup>*\<^sup>* s t \<Longrightarrow> inv s \<Longrightarrow> inv t"
  by (induction rule: rtranclp_induct) (auto intro: step_inv)

lemma reachable_inv: "init s \<Longrightarrow> step\<^sup>*\<^sup>* s t \<Longrightarrow> inv t"
  by (blast intro: steps_inv init_inv)

end

end
