(* ===== verification/Sched.thy ===== *)
theory Sched
  imports Kernel_Prelude
begin

text \<open>
  The scheduler (\<open>kernel/src/sched.rs\<close>).  A thread object is named by a natural
  number, its \<open>Arc\<close> identity; the heap of thread objects, the ready queue, the
  per-CPU slots and the graveyard are one record.  Every critical section under
  the \<open>SCHED\<close> lock is one function on that record; the accesses outside the lock
  (the first store of \<open>unblock\<close>, the claim of a stack, the context switch) are
  separate steps, so the interleavings of several CPUs are the runs of
  \<open>sched_step\<close>.  A panic (\<open>expect\<close>) is \<^const>\<open>None\<close>.
\<close>

section \<open>Threads, CPU slots and the scheduler state\<close>

definition MAX_CPUS :: nat where
  "MAX_CPUS = 32"

datatype state = Ready | Running | Blocked | Exited

record thread =
  th_id :: u64
  th_state :: state
  is_idle :: bool
  running :: bool
  wake_pending :: bool
  fsbase :: u64
  gsbase :: u64
  task :: "nat option"

definition adopting :: "u64 \<Rightarrow> bool \<Rightarrow> thread" where
  "adopting i idl =
     \<lparr>th_id = i, th_state = Running, is_idle = idl, running = True,
      wake_pending = False, fsbase = 0, gsbase = 0, task = None\<rparr>"

definition spawned :: "u64 \<Rightarrow> bool \<Rightarrow> thread" where
  "spawned i idl =
     \<lparr>th_id = i, th_state = Ready, is_idle = idl, running = False,
      wake_pending = False, fsbase = 0, gsbase = 0, task = None\<rparr>"

definition spawned_user :: "u64 \<Rightarrow> nat \<Rightarrow> u64 \<Rightarrow> thread" where
  "spawned_user i tk gs =
     \<lparr>th_id = i, th_state = Ready, is_idle = False, running = False,
      wake_pending = False, fsbase = 0, gsbase = gs, task = Some tk\<rparr>"

definition spawned_user_frame :: "u64 \<Rightarrow> nat \<Rightarrow> u64 \<Rightarrow> thread" where
  "spawned_user_frame i tk fs =
     \<lparr>th_id = i, th_state = Ready, is_idle = False, running = False,
      wake_pending = False, fsbase = fs, gsbase = 0, task = Some tk\<rparr>"

record cpu_slot =
  current :: "nat option"
  idle :: "nat option"
  handoff :: "(nat \<times> bool) option"

text \<open>
  \<open>threads\<close> is the heap of thread objects (those below \<open>fresh\<close> are allocated),
  \<open>active_threads\<close> the per-task counter of \<open>process.rs\<close> that the scheduler
  drives, \<open>freed\<close> and \<open>torn_down\<close> record what \<open>reap\<close> dropped.
\<close>

record inner =
  threads :: "nat \<Rightarrow> thread"
  fresh :: nat
  ready :: "nat list"
  cpus :: "nat \<Rightarrow> cpu_slot"
  graveyard :: "nat list"
  next_tid :: u64
  ctx_switches :: nat
  phantoms_dropped :: nat
  active_threads :: "nat \<Rightarrow> nat"
  freed :: "nat list"
  torn_down :: "nat list"

definition idle_tid :: "nat \<Rightarrow> u64" where
  "idle_tid cpu = Bit_Operations.or 0xffff0000 (of_nat cpu)"

definition set_state :: "nat \<Rightarrow> state \<Rightarrow> inner \<Rightarrow> inner" where
  "set_state t st s = s\<lparr>threads := (threads s)(t := (threads s t)\<lparr>th_state := st\<rparr>)\<rparr>"

definition set_running :: "nat \<Rightarrow> bool \<Rightarrow> inner \<Rightarrow> inner" where
  "set_running t b s = s\<lparr>threads := (threads s)(t := (threads s t)\<lparr>running := b\<rparr>)\<rparr>"

definition set_wake_pending :: "nat \<Rightarrow> bool \<Rightarrow> inner \<Rightarrow> inner" where
  "set_wake_pending t b s =
     s\<lparr>threads := (threads s)(t := (threads s t)\<lparr>wake_pending := b\<rparr>)\<rparr>"

definition set_cpu :: "nat \<Rightarrow> cpu_slot \<Rightarrow> inner \<Rightarrow> inner" where
  "set_cpu c sl s = s\<lparr>cpus := (cpus s)(c := sl)\<rparr>"

text \<open>A fresh thread object; the identity is the next unused one.\<close>

definition alloc_thread :: "thread \<Rightarrow> inner \<Rightarrow> nat \<times> inner" where
  "alloc_thread th s =
     (fresh s, s\<lparr>threads := (threads s)(fresh s := th), fresh := Suc (fresh s)\<rparr>)"

section \<open>Start-up and thread creation\<close>

definition empty_slot :: cpu_slot where
  "empty_slot = \<lparr>current = None, idle = None, handoff = None\<rparr>"

definition sched_static :: inner where
  "sched_static =
     \<lparr>threads = (\<lambda>_. adopting 0 False), fresh = 0, ready = [], cpus = (\<lambda>_. empty_slot),
      graveyard = [], next_tid = 1, ctx_switches = 0, phantoms_dropped = 0,
      active_threads = (\<lambda>_. 0), freed = [], torn_down = []\<rparr>"

definition init_bsp :: "inner \<Rightarrow> inner" where
  "init_bsp s =
     (let (boot, s1) = alloc_thread (adopting 0 False) s;
          (idl, s2) = alloc_thread (spawned (idle_tid 0) True) s1
      in set_cpu 0 ((cpus s2 0)\<lparr>current := Some boot, idle := Some idl\<rparr>) s2)"

definition cpu_enter :: "nat \<Rightarrow> inner \<Rightarrow> inner" where
  "cpu_enter cpu s =
     (let (me, s1) = alloc_thread (adopting (idle_tid cpu) True) s
      in set_cpu cpu ((cpus s1 cpu)\<lparr>idle := Some me, current := Some me\<rparr>) s1)"

text \<open>
  The four spawn functions differ in the thread object they build; all take the
  next thread id, count the thread on its task, and push it on the ready queue.
\<close>

definition push_new :: "(u64 \<Rightarrow> thread) \<Rightarrow> inner \<Rightarrow> u64 \<times> inner" where
  "push_new mk s =
     (let i = next_tid s; th = mk i;
          s0 = s\<lparr>next_tid := i + 1\<rparr>;
          s1 = (case task th of None \<Rightarrow> s0
                | Some k \<Rightarrow> s0\<lparr>active_threads :=
                             (active_threads s0)(k := Suc (active_threads s0 k))\<rparr>);
          (t, s2) = alloc_thread th s1
      in (i, s2\<lparr>ready := ready s2 @ [t]\<rparr>))"

definition spawn :: "inner \<Rightarrow> u64 \<times> inner" where
  "spawn s = push_new (\<lambda>i. spawned i False) s"

definition spawn_user :: "nat \<Rightarrow> inner \<Rightarrow> u64 \<times> inner" where
  "spawn_user tk s = push_new (\<lambda>i. spawned_user i tk 0) s"

definition spawn_user_pe :: "nat \<Rightarrow> u64 \<Rightarrow> inner \<Rightarrow> u64 \<times> inner" where
  "spawn_user_pe tk teb s = push_new (\<lambda>i. spawned_user i tk teb) s"

definition spawn_user_frame :: "nat \<Rightarrow> u64 \<Rightarrow> inner \<Rightarrow> u64 \<times> inner" where
  "spawn_user_frame tk fs s = push_new (\<lambda>i. spawned_user_frame i tk fs) s"

section \<open>Blocking and waking\<close>

definition mark_blocking :: "nat \<Rightarrow> inner \<Rightarrow> inner" where
  "mark_blocking t s = set_wake_pending t False s"

text \<open>\<open>unblock\<close> stores \<open>wake_pending\<close> before it takes the lock: two steps.\<close>

definition unblock_store :: "nat \<Rightarrow> inner \<Rightarrow> inner" where
  "unblock_store t s = set_wake_pending t True s"

definition unblock_locked :: "nat \<Rightarrow> inner \<Rightarrow> inner" where
  "unblock_locked t s =
     (if th_state (threads s t) \<noteq> Blocked \<or> running (threads s t) then s
      else let s1 = set_state t Ready s
           in if t \<in> set (ready s1) then s1 else s1\<lparr>ready := ready s1 @ [t]\<rparr>)"

definition unblock :: "nat \<Rightarrow> inner \<Rightarrow> inner" where
  "unblock t s = unblock_locked t (unblock_store t s)"

section \<open>Picking and switching\<close>

definition stale :: "inner \<Rightarrow> nat \<Rightarrow> bool" where
  "stale s t \<longleftrightarrow>
     th_state (threads s t) = Running \<or> th_state (threads s t) = Exited
     \<or> running (threads s t)
     \<or> list_ex (\<lambda>c. current (cpus s c) = Some t) [0..<MAX_CPUS]"

text \<open>The loop of \<open>pick_next\<close>: the thread found, the queue left, the entries dropped.\<close>

fun pick_loop :: "inner \<Rightarrow> nat list \<Rightarrow> nat option \<times> nat list \<times> nat" where
  "pick_loop s [] = (None, [], 0)"
| "pick_loop s (t # q) =
     (if stale s t
      then (case pick_loop s q of (r, q', d) \<Rightarrow> (r, q', Suc d))
      else (Some t, q, 0))"

definition pick_next :: "nat \<Rightarrow> inner \<Rightarrow> (nat \<times> inner) option" where
  "pick_next cpu s =
     (case pick_loop s (ready s) of (r, q, d) \<Rightarrow>
        let s1 = s\<lparr>ready := q, phantoms_dropped := phantoms_dropped s + d\<rparr>
        in case r of Some t \<Rightarrow> Some (t, s1)
           | None \<Rightarrow> map_option (\<lambda>i. (i, s1)) (idle (cpus s1 cpu)))"

text \<open>
  The locked part of \<open>reschedule\<close>.  \<open>Inl\<close> is an early return, \<open>Inr\<close> a
  committed switch: the CPU goes on to claim the stack of its new current thread.
\<close>

definition commit_switch :: "nat \<Rightarrow> nat \<Rightarrow> bool \<Rightarrow> nat \<Rightarrow> inner \<Rightarrow> inner" where
  "commit_switch cpu prev block nxt s =
     set_cpu cpu ((cpus s cpu)\<lparr>handoff := Some (prev, block), current := Some nxt\<rparr>)
       (set_state nxt Running
         (if block then set_state prev Blocked s
          else if \<not> is_idle (threads s prev) then set_state prev Ready s else s))"

definition reschedule :: "nat \<Rightarrow> bool \<Rightarrow> inner \<Rightarrow> (inner + inner) option" where
  "reschedule cpu block s =
     (case current (cpus s cpu) of
        None \<Rightarrow> None
      | Some prev \<Rightarrow>
          if block \<and> wake_pending (threads s prev) then Some (Inl s)
          else (case pick_next cpu s of
                  None \<Rightarrow> None
                | Some (nxt, s1) \<Rightarrow>
                    if prev = nxt then Some (Inl s1)
                    else Some (Inr (commit_switch cpu prev block nxt s1))))"

definition exit_thread :: "nat \<Rightarrow> inner \<Rightarrow> inner option" where
  "exit_thread cpu s =
     (case current (cpus s cpu) of
        None \<Rightarrow> None
      | Some prev \<Rightarrow>
          let s1 = set_state prev Exited (set_cpu cpu ((cpus s cpu)\<lparr>current := None\<rparr>) s)
          in (case pick_next cpu s1 of
                None \<Rightarrow> None
              | Some (nxt, s2) \<Rightarrow>
                  let s3 = set_state nxt Running s2;
                      s4 = set_cpu cpu ((cpus s3 cpu)\<lparr>current := Some nxt,
                                                     handoff := Some (prev, True)\<rparr>) s3
                  in Some (s4\<lparr>graveyard := graveyard s4 @ [prev]\<rparr>)))"

text \<open>\<open>next.running.swap(true)\<close>: the new state and the value it replaced.\<close>

definition claim_swap :: "nat \<Rightarrow> inner \<Rightarrow> bool \<times> inner" where
  "claim_swap t s = (running (threads s t), set_running t True s)"

definition finish_switch :: "nat \<Rightarrow> inner \<Rightarrow> inner" where
  "finish_switch cpu s =
     (case handoff (cpus s cpu) of
        None \<Rightarrow> s
      | Some (prev, was_blocking) \<Rightarrow>
          let s1 = set_cpu cpu ((cpus s cpu)\<lparr>handoff := None\<rparr>) s;
              p = threads s1 prev;
              requeue = (if th_state p = Exited \<or> is_idle p then False
                         else if \<not> was_blocking then True
                         else wake_pending p);
              s2 = (if requeue \<and> prev \<notin> set (ready s1)
                    then (set_state prev Ready s1)\<lparr>ready := ready s1 @ [prev]\<rparr>
                    else s1)
          in set_running prev False s2)"

section \<open>Reaping\<close>

text \<open>
  The strong count of a thread object: the references the scheduler holds plus
  those held elsewhere (wait queues, the timer wheel, local variables), \<open>ext\<close>.
\<close>

definition slot_refs :: "nat \<Rightarrow> cpu_slot \<Rightarrow> nat" where
  "slot_refs t sl =
     (if current sl = Some t then 1 else 0) + (if idle sl = Some t then 1 else 0)
     + (case handoff sl of Some (p, _) \<Rightarrow> if p = t then 1 else 0 | None \<Rightarrow> 0)"

definition strong_count :: "(nat \<Rightarrow> nat) \<Rightarrow> inner \<Rightarrow> nat \<Rightarrow> nat" where
  "strong_count ext s t =
     ext t + count_list (ready s) t + count_list (graveyard s) t
     + sum_list (map (\<lambda>c. slot_refs t (cpus s c)) [0..<MAX_CPUS])"

text \<open>
  Dropping the corpse at position \<open>i\<close>: the thread leaves the graveyard, its task
  counts one thread less, and the last thread of a task gives up the task's
  address space unless somebody else holds it (\<open>space_refs\<close>).
\<close>

definition drop_corpse :: "(nat \<Rightarrow> nat) \<Rightarrow> nat \<Rightarrow> inner \<Rightarrow> inner" where
  "drop_corpse space_refs i s =
     (let t = graveyard s ! i;
          s1 = s\<lparr>graveyard := swap_remove i (graveyard s), freed := t # freed s\<rparr>
      in case task (threads s t) of
           None \<Rightarrow> s1
         | Some k \<Rightarrow>
             let last_one = (active_threads s1 k = 1);
                 s2 = s1\<lparr>active_threads := (active_threads s1)(k := active_threads s1 k - 1)\<rparr>
             in if last_one \<and> space_refs k = 1 then s2\<lparr>torn_down := k # torn_down s2\<rparr> else s2)"

lemma graveyard_drop_corpse [simp]:
  "graveyard (drop_corpse sr i s) = swap_remove i (graveyard s)"
  by (simp add: drop_corpse_def Let_def split: option.split)

definition is_dead :: "(nat \<Rightarrow> nat) \<Rightarrow> inner \<Rightarrow> nat \<Rightarrow> bool" where
  "is_dead ext s t \<longleftrightarrow> \<not> running (threads s t) \<and> strong_count ext s t = 1"

function reap_loop :: "(nat \<Rightarrow> nat) \<Rightarrow> (nat \<Rightarrow> nat) \<Rightarrow> nat \<Rightarrow> inner \<Rightarrow> inner" where
  "reap_loop ext sr i s =
     (if i < length (graveyard s)
      then if is_dead ext s (graveyard s ! i)
           then reap_loop ext sr i (drop_corpse sr i s)
           else reap_loop ext sr (Suc i) s
      else s)"
  by pat_completeness auto
termination
  by (relation "measure (\<lambda>(ext, sr, i, s). length (graveyard s) - i)") auto

declare reap_loop.simps [simp del]

definition reap :: "(nat \<Rightarrow> nat) \<Rightarrow> (nat \<Rightarrow> nat) \<Rightarrow> inner \<Rightarrow> inner" where
  "reap ext space_refs s = reap_loop ext space_refs 0 s"

section \<open>The machine: interleaved CPUs\<close>

text \<open>
  Where a CPU is in the switch protocol.  \<open>Exec\<close>: running its current thread.
  \<open>Spin\<close>: the switch is committed, the lock dropped, the next stack not yet
  claimed.  \<open>Claimed\<close>: claimed, still on the old stack.  \<open>Landed\<close>: on the new
  stack, \<open>finish_switch\<close> not yet run.
\<close>

datatype phase = Offline | Exec | Spin | Claimed | Landed

record machine =
  inn :: inner
  phase :: "nat \<Rightarrow> phase"
  inflight :: "nat list"
  refs :: "nat \<Rightarrow> nat"

definition boot :: machine where
  "boot = \<lparr>inn = init_bsp sched_static, phase = (\<lambda>_. Offline)(0 := Exec),
           inflight = [], refs = (\<lambda>_. 0)\<rparr>"

text \<open>
  \<open>refs\<close> counts the references outside the scheduler; a reference moves from there
  to \<open>inflight\<close> while an \<open>unblock\<close> holds it.  Idle threads never block or exit.
\<close>

inductive sched_step :: "machine \<Rightarrow> machine \<Rightarrow> bool" where
  stay: "phase m c = Exec \<Longrightarrow> current (cpus (inn m) c) = Some t \<Longrightarrow>
    \<not> (blk \<and> is_idle (threads (inn m) t)) \<Longrightarrow>
    reschedule c blk (inn m) = Some (Inl s') \<Longrightarrow>
    sched_step m (m\<lparr>inn := s'\<rparr>)"
| switch: "phase m c = Exec \<Longrightarrow> current (cpus (inn m) c) = Some t \<Longrightarrow>
    \<not> (blk \<and> is_idle (threads (inn m) t)) \<Longrightarrow>
    reschedule c blk (inn m) = Some (Inr s') \<Longrightarrow>
    sched_step m (m\<lparr>inn := s'\<lparr>ctx_switches := Suc (ctx_switches s')\<rparr>,
                     phase := (phase m)(c := Spin)\<rparr>)"
| exit: "phase m c = Exec \<Longrightarrow> current (cpus (inn m) c) = Some t \<Longrightarrow>
    \<not> is_idle (threads (inn m) t) \<Longrightarrow> exit_thread c (inn m) = Some s' \<Longrightarrow>
    sched_step m (m\<lparr>inn := s', phase := (phase m)(c := Spin)\<rparr>)"
| mark: "phase m c = Exec \<Longrightarrow> current (cpus (inn m) c) = Some t \<Longrightarrow>
    sched_step m (m\<lparr>inn := mark_blocking t (inn m)\<rparr>)"
| claim: "phase m c = Spin \<Longrightarrow> current (cpus (inn m) c) = Some t \<Longrightarrow>
    claim_swap t (inn m) = (False, s') \<Longrightarrow>
    sched_step m (m\<lparr>inn := s', phase := (phase m)(c := Claimed)\<rparr>)"
| spin: "phase m c = Spin \<Longrightarrow> current (cpus (inn m) c) = Some t \<Longrightarrow>
    claim_swap t (inn m) = (True, s') \<Longrightarrow> sched_step m (m\<lparr>inn := s'\<rparr>)"
| land: "phase m c = Claimed \<Longrightarrow>
    sched_step m (m\<lparr>phase := (phase m)(c := Landed)\<rparr>)"
| finish: "phase m c = Landed \<Longrightarrow>
    sched_step m (m\<lparr>inn := finish_switch c (inn m), phase := (phase m)(c := Exec)\<rparr>)"
| wake_store: "0 < refs m t \<Longrightarrow>
    sched_step m (m\<lparr>inn := unblock_store t (inn m), inflight := t # inflight m,
                     refs := (refs m)(t := refs m t - 1)\<rparr>)"
| wake_locked: "t \<in> set (inflight m) \<Longrightarrow>
    sched_step m (m\<lparr>inn := unblock_locked t (inn m), inflight := remove1 t (inflight m)\<rparr>)"
| spawn_kernel: "spawn (inn m) = (i, s') \<Longrightarrow> sched_step m (m\<lparr>inn := s'\<rparr>)"
| spawn_posix: "spawn_user k (inn m) = (i, s') \<Longrightarrow> sched_step m (m\<lparr>inn := s'\<rparr>)"
| spawn_pe: "spawn_user_pe k teb (inn m) = (i, s') \<Longrightarrow> sched_step m (m\<lparr>inn := s'\<rparr>)"
| spawn_fork: "spawn_user_frame k fs (inn m) = (i, s') \<Longrightarrow> sched_step m (m\<lparr>inn := s'\<rparr>)"
| enter: "phase m c = Offline \<Longrightarrow> c < MAX_CPUS \<Longrightarrow>
    sched_step m (m\<lparr>inn := cpu_enter c (inn m), phase := (phase m)(c := Exec)\<rparr>)"
| ref_clone: "t < fresh (inn m) \<Longrightarrow> t \<notin> set (freed (inn m)) \<Longrightarrow>
    sched_step m (m\<lparr>refs := (refs m)(t := Suc (refs m t))\<rparr>)"
| ref_drop: "0 < refs m t \<Longrightarrow>
    sched_step m (m\<lparr>refs := (refs m)(t := refs m t - 1)\<rparr>)"
| reap: "sched_step m (m\<lparr>inn := reap (\<lambda>t. refs m t + count_list (inflight m) t) sr (inn m)\<rparr>)"

end
