(* ===== verification/Sched_Inv.thy ===== *)
theory Sched_Inv
  imports Sched
begin

text \<open>
  The invariant of the interleaved scheduler and what it gives.  The invariant
  is a conjunction of named parts: which slots are filled in which phase, who owns a
  thread, when \<open>running\<close> is set, the thread states, the ready queue, that no wake and
  no runnable thread is lost, what is allocated, the dead, and the per-task
  counts.  One lemma per critical section shows it is kept; \<open>sched_step_inv\<close> puts them
  together, and the interpretation of the reachability interface gives it for every
  state the machine can reach from boot.
\<close>

section \<open>The invariant\<close>

abbreviation cur :: "machine \<Rightarrow> nat \<Rightarrow> nat option" where
  "cur m c \<equiv> current (cpus (inn m) c)"

abbreviation hnd :: "machine \<Rightarrow> nat \<Rightarrow> (nat \<times> bool) option" where
  "hnd m c \<equiv> handoff (cpus (inn m) c)"

abbreviation idl :: "machine \<Rightarrow> nat \<Rightarrow> nat option" where
  "idl m c \<equiv> idle (cpus (inn m) c)"

abbreviation thr :: "machine \<Rightarrow> nat \<Rightarrow> thread" where
  "thr m t \<equiv> threads (inn m) t"

definition wf_slots :: "machine \<Rightarrow> bool" where
  "wf_slots m \<longleftrightarrow>
     (\<forall>c. phase m c = Offline \<longrightarrow> cpus (inn m) c = empty_slot) \<and>
     (\<forall>c. phase m c \<noteq> Offline \<longrightarrow> c < MAX_CPUS \<and> cur m c \<noteq> None \<and> idl m c \<noteq> None) \<and>
     (\<forall>c. hnd m c = None \<longleftrightarrow> phase m c = Offline \<or> phase m c = Exec)"

definition wf_own :: "machine \<Rightarrow> bool" where
  "wf_own m \<longleftrightarrow>
     (\<forall>c d t. cur m c = Some t \<longrightarrow> cur m d = Some t \<longrightarrow> c = d) \<and>
     (\<forall>c d t b b'. hnd m c = Some (t, b) \<longrightarrow> hnd m d = Some (t, b') \<longrightarrow> c = d) \<and>
     (\<forall>c d t b. hnd m c = Some (t, b) \<longrightarrow> cur m d \<noteq> Some t) \<and>
     (\<forall>c d t. idl m c = Some t \<longrightarrow> idl m d = Some t \<longrightarrow> c = d) \<and>
     (\<forall>c t. idl m c = Some t \<longrightarrow> is_idle (thr m t)) \<and>
     (\<forall>c t. cur m c = Some t \<longrightarrow> is_idle (thr m t) \<longrightarrow> idl m c = Some t) \<and>
     (\<forall>c t b. hnd m c = Some (t, b) \<longrightarrow> is_idle (thr m t) \<longrightarrow> idl m c = Some t \<and> \<not> b)"

definition on_cpu :: "machine \<Rightarrow> nat \<Rightarrow> nat \<Rightarrow> bool" where
  "on_cpu m c t \<longleftrightarrow>
     (cur m c = Some t \<and> phase m c \<noteq> Spin) \<or> (\<exists>b. hnd m c = Some (t, b))"

definition wf_running :: "machine \<Rightarrow> bool" where
  "wf_running m \<longleftrightarrow> (\<forall>t < fresh (inn m). running (thr m t) \<longleftrightarrow> (\<exists>c. on_cpu m c t))"

definition wf_states :: "machine \<Rightarrow> bool" where
  "wf_states m \<longleftrightarrow>
     (\<forall>c t. cur m c = Some t \<longrightarrow> th_state (thr m t) = Running) \<and>
     (\<forall>c t. hnd m c = Some (t, False) \<longrightarrow> \<not> is_idle (thr m t) \<longrightarrow> th_state (thr m t) = Ready) \<and>
     (\<forall>c t. hnd m c = Some (t, True) \<longrightarrow> th_state (thr m t) \<in> {Blocked, Exited}) \<and>
     (\<forall>t < fresh (inn m). is_idle (thr m t) \<longrightarrow> th_state (thr m t) \<in> {Ready, Running})"

definition wf_ready :: "machine \<Rightarrow> bool" where
  "wf_ready m \<longleftrightarrow> distinct (ready (inn m)) \<and>
     (\<forall>t \<in> set (ready (inn m)). th_state (thr m t) = Ready \<and> \<not> running (thr m t)
        \<and> \<not> is_idle (thr m t) \<and> (\<forall>c. cur m c \<noteq> Some t))"

definition no_lost_wake :: "machine \<Rightarrow> bool" where
  "no_lost_wake m \<longleftrightarrow>
     (\<forall>t < fresh (inn m). th_state (thr m t) = Blocked \<longrightarrow> wake_pending (thr m t) \<longrightarrow>
        t \<in> set (inflight m) \<or> (\<exists>c. hnd m c = Some (t, True)))"

definition no_lost_ready :: "machine \<Rightarrow> bool" where
  "no_lost_ready m \<longleftrightarrow>
     (\<forall>t < fresh (inn m). th_state (thr m t) = Ready \<longrightarrow> \<not> is_idle (thr m t) \<longrightarrow>
        t \<in> set (ready (inn m)) \<or> (\<exists>c. hnd m c = Some (t, False)))"

definition wf_alloc :: "machine \<Rightarrow> bool" where
  "wf_alloc m \<longleftrightarrow>
     (\<forall>c t. cur m c = Some t \<longrightarrow> t < fresh (inn m)) \<and>
     (\<forall>c t. idl m c = Some t \<longrightarrow> t < fresh (inn m)) \<and>
     (\<forall>c t b. hnd m c = Some (t, b) \<longrightarrow> t < fresh (inn m)) \<and>
     (\<forall>t \<in> set (ready (inn m)). t < fresh (inn m)) \<and>
     (\<forall>t \<in> set (inflight m). t < fresh (inn m) \<and> t \<notin> set (freed (inn m))) \<and>
     (\<forall>t. 0 < refs m t \<longrightarrow> t < fresh (inn m) \<and> t \<notin> set (freed (inn m)))"

definition wf_dead :: "machine \<Rightarrow> bool" where
  "wf_dead m \<longleftrightarrow>
     distinct (graveyard (inn m)) \<and> distinct (freed (inn m)) \<and>
     set (graveyard (inn m)) \<inter> set (freed (inn m)) = {} \<and>
     (\<forall>t \<in> set (graveyard (inn m)) \<union> set (freed (inn m)).
        t < fresh (inn m) \<and> th_state (thr m t) = Exited) \<and>
     (\<forall>t \<in> set (freed (inn m)). \<not> running (thr m t))"

definition wf_tasks :: "machine \<Rightarrow> bool" where
  "wf_tasks m \<longleftrightarrow>
     (\<forall>k. active_threads (inn m) k =
        card {t. t < fresh (inn m) \<and> t \<notin> set (freed (inn m)) \<and> task (thr m t) = Some k})"

definition sched_inv :: "machine \<Rightarrow> bool" where
  "sched_inv m \<longleftrightarrow>
     wf_slots m \<and> wf_own m \<and> wf_running m \<and> wf_states m \<and> wf_ready m \<and> no_lost_wake m \<and>
     no_lost_ready m \<and> wf_alloc m \<and> wf_dead m \<and> wf_tasks m \<and> phantoms_dropped (inn m) = 0"

definition switched :: "nat \<Rightarrow> nat \<Rightarrow> bool \<Rightarrow> state \<Rightarrow> nat \<Rightarrow> nat list \<Rightarrow> nat list \<Rightarrow> nat \<Rightarrow> machine \<Rightarrow> machine" where
  "switched c p b st n q g k m =
     m\<lparr>inn := (inn m)\<lparr>threads := (threads (inn m))(p := (thr m p)\<lparr>th_state := st\<rparr>, n := (thr m n)\<lparr>th_state := Running\<rparr>),
        ready := q, cpus := (cpus (inn m))(c := (cpus (inn m) c)\<lparr>handoff := Some (p, b), current := Some n\<rparr>),
        graveyard := g, ctx_switches := k\<rparr>, phase := (phase m)(c := Spin)\<rparr>"

abbreviation ext_refs :: "machine \<Rightarrow> nat \<Rightarrow> nat" where
  "ext_refs m t \<equiv> refs m t + count_list (inflight m) t"

section \<open>Every step keeps it\<close>

lemmas inv_defs = wf_slots_def wf_own_def wf_running_def wf_states_def wf_ready_def
  no_lost_wake_def no_lost_ready_def wf_alloc_def wf_dead_def on_cpu_def

lemmas upd_defs = set_state_def set_running_def set_wake_pending_def set_cpu_def

lemma inv_boot: "sched_inv boot"
proof -
  have "wf_tasks boot"
    by (simp add: wf_tasks_def boot_def init_bsp_def sched_static_def alloc_thread_def
        set_cpu_def Let_def adopting_def spawned_def) 
  moreover have "wf_own boot" "wf_running boot" "wf_slots boot"
    by (auto simp: boot_def init_bsp_def sched_static_def alloc_thread_def
        set_cpu_def Let_def adopting_def spawned_def inv_defs empty_slot_def MAX_CPUS_def less_Suc_eq split: if_splits)
  moreover have "wf_states boot" "wf_ready boot" "no_lost_wake boot" "no_lost_ready boot" "wf_alloc boot" "wf_dead boot" "phantoms_dropped (inn boot) = 0"
    by (auto simp: boot_def init_bsp_def sched_static_def alloc_thread_def
        set_cpu_def Let_def adopting_def spawned_def inv_defs empty_slot_def MAX_CPUS_def less_Suc_eq split: if_splits)
  ultimately show ?thesis by (simp add: sched_inv_def)
qed

text \<open>Under the invariant the head of the ready queue is never stale.\<close>

lemma stale_iff:
  assumes "wf_slots m"
  shows "stale (inn m) t \<longleftrightarrow> th_state (thr m t) = Running \<or> th_state (thr m t) = Exited
     \<or> running (thr m t) \<or> (\<exists>c. cur m c = Some t)"
proof -
  have "cur m c = Some t \<Longrightarrow> c < MAX_CPUS" for c
    using assms by (cases "phase m c = Offline") (auto simp: wf_slots_def empty_slot_def)
  then show ?thesis by (auto simp: stale_def list_ex_iff)
qed

lemma pick_next_inv:
  assumes "wf_slots m" "wf_ready m" "phase m c \<noteq> Offline"
  obtains (queued) t q where "ready (inn m) = t # q"
      "pick_next c (inn m) = Some (t, (inn m)\<lparr>ready := q\<rparr>)"
    | (idle) t where "ready (inn m) = []" "idl m c = Some t" "pick_next c (inn m) = Some (t, inn m)"
proof (cases "ready (inn m)")
  case Nil
  from assms obtain t where "idl m c = Some t" by (auto simp: wf_slots_def)
  with Nil idle show ?thesis by (simp add: pick_next_def)
next
  case (Cons t q)
  then have "\<not> stale (inn m) t" using assms by (auto simp: stale_iff wf_ready_def)
  with Cons queued show ?thesis by (simp add: pick_next_def)
qed


lemma wf_ownD:
  assumes "wf_own m"
  shows cur_inj: "cur m c = Some t \<Longrightarrow> cur m d = Some t \<Longrightarrow> c = d"
    and hnd_inj: "hnd m c = Some (t, b) \<Longrightarrow> hnd m d = Some (t, b') \<Longrightarrow> c = d"
    and hnd_not_cur: "hnd m c = Some (t, b) \<Longrightarrow> cur m d \<noteq> Some t"
    and cur_not_hnd: "cur m d = Some t \<Longrightarrow> hnd m c \<noteq> Some (t, b)"
    and idl_inj: "idl m c = Some t \<Longrightarrow> idl m d = Some t \<Longrightarrow> c = d"
    and idl_idle: "idl m c = Some t \<Longrightarrow> is_idle (thr m t)"
    and cur_idle: "cur m c = Some t \<Longrightarrow> is_idle (thr m t) \<Longrightarrow> idl m c = Some t"
    and hnd_idle: "hnd m c = Some (t, b) \<Longrightarrow> is_idle (thr m t) \<Longrightarrow> idl m c = Some t"
    and hnd_idle_plain: "hnd m c = Some (t, True) \<Longrightarrow> \<not> is_idle (thr m t)"
  using assms unfolding wf_own_def by - metis+

lemma wf_ownI:
  assumes "\<And>c d t. cur m c = Some t \<Longrightarrow> cur m d = Some t \<Longrightarrow> c = d"
    and "\<And>c d t b b'. hnd m c = Some (t, b) \<Longrightarrow> hnd m d = Some (t, b') \<Longrightarrow> c = d"
    and "\<And>c d t b. hnd m c = Some (t, b) \<Longrightarrow> cur m d \<noteq> Some t"
    and "\<And>c d t. idl m c = Some t \<Longrightarrow> idl m d = Some t \<Longrightarrow> c = d"
    and "\<And>c t. idl m c = Some t \<Longrightarrow> is_idle (thr m t)"
    and "\<And>c t. cur m c = Some t \<Longrightarrow> is_idle (thr m t) \<Longrightarrow> idl m c = Some t"
    and "\<And>c t b. hnd m c = Some (t, b) \<Longrightarrow> is_idle (thr m t) \<Longrightarrow> idl m c = Some t \<and> \<not> b"
  shows "wf_own m"
  using assms unfolding wf_own_def by blast

lemma wf_slotsD:
  assumes "wf_slots m"
  shows hnd_None: "hnd m c = None \<longleftrightarrow> phase m c = Offline \<or> phase m c = Exec"
    and offline_slot: "phase m c = Offline \<Longrightarrow> cpus (inn m) c = empty_slot"
    and online_cur: "phase m c \<noteq> Offline \<Longrightarrow> \<exists>t. cur m c = Some t"
    and online_idl: "phase m c \<noteq> Offline \<Longrightarrow> \<exists>t. idl m c = Some t"
    and online_bound: "phase m c \<noteq> Offline \<Longrightarrow> c < MAX_CPUS"
  using assms unfolding wf_slots_def by - auto

lemma wf_allocD:
  assumes "wf_alloc m"
  shows cur_alloc: "cur m c = Some t \<Longrightarrow> t < fresh (inn m)"
    and idl_alloc: "idl m c = Some t \<Longrightarrow> t < fresh (inn m)"
    and hnd_alloc: "hnd m c = Some (t, b) \<Longrightarrow> t < fresh (inn m)"
    and ready_alloc: "t \<in> set (ready (inn m)) \<Longrightarrow> t < fresh (inn m)"
    and inflight_alloc: "t \<in> set (inflight m) \<Longrightarrow> t < fresh (inn m) \<and> t \<notin> set (freed (inn m))"
    and refs_alloc: "0 < refs m t \<Longrightarrow> t < fresh (inn m) \<and> t \<notin> set (freed (inn m))"
  using assms unfolding wf_alloc_def by - blast+

lemma wf_readyD:
  assumes "wf_ready m"
  shows ready_distinct: "distinct (ready (inn m))"
    and ready_state: "t \<in> set (ready (inn m)) \<Longrightarrow> th_state (thr m t) = Ready"
    and ready_parked: "t \<in> set (ready (inn m)) \<Longrightarrow> \<not> running (thr m t)"
    and ready_not_idle: "t \<in> set (ready (inn m)) \<Longrightarrow> \<not> is_idle (thr m t)"
    and ready_not_cur: "t \<in> set (ready (inn m)) \<Longrightarrow> cur m c \<noteq> Some t"
  using assms unfolding wf_ready_def by - blast+

lemma wf_statesD:
  assumes "wf_states m"
  shows cur_state: "cur m c = Some t \<Longrightarrow> th_state (thr m t) = Running"
    and hnd_plain_state: "hnd m c = Some (t, False) \<Longrightarrow> \<not> is_idle (thr m t) \<Longrightarrow> th_state (thr m t) = Ready"
    and hnd_block_state: "hnd m c = Some (t, True) \<Longrightarrow> th_state (thr m t) = Blocked \<or> th_state (thr m t) = Exited"
    and idle_state: "t < fresh (inn m) \<Longrightarrow> is_idle (thr m t) \<Longrightarrow> th_state (thr m t) = Ready \<or> th_state (thr m t) = Running"
  using assms unfolding wf_states_def by - auto

lemma wf_statesI:
  assumes "\<And>c t. cur m c = Some t \<Longrightarrow> th_state (thr m t) = Running"
    and "\<And>c t. hnd m c = Some (t, False) \<Longrightarrow> \<not> is_idle (thr m t) \<Longrightarrow> th_state (thr m t) = Ready"
    and "\<And>c t. hnd m c = Some (t, True) \<Longrightarrow> th_state (thr m t) = Blocked \<or> th_state (thr m t) = Exited"
    and "\<And>t. t < fresh (inn m) \<Longrightarrow> is_idle (thr m t) \<Longrightarrow> th_state (thr m t) = Ready \<or> th_state (thr m t) = Running"
  shows "wf_states m"
  using assms unfolding wf_states_def by auto

lemma wf_tasks_cong:
  assumes "wf_tasks m" "fresh (inn m') = fresh (inn m)" "freed (inn m') = freed (inn m)"
    "active_threads (inn m') = active_threads (inn m)"
    "\<And>t. task (thr m' t) = task (thr m t)"
  shows "wf_tasks m'"
  using assms by (simp add: wf_tasks_def)

lemma no_lost_wakeD:
  "no_lost_wake m \<Longrightarrow> t < fresh (inn m) \<Longrightarrow> th_state (thr m t) = Blocked \<Longrightarrow> wake_pending (thr m t) \<Longrightarrow>
   t \<in> set (inflight m) \<or> (\<exists>c. hnd m c = Some (t, True))"
  by (simp add: no_lost_wake_def)

lemma no_lost_readyD:
  "no_lost_ready m \<Longrightarrow> t < fresh (inn m) \<Longrightarrow> th_state (thr m t) = Ready \<Longrightarrow> \<not> is_idle (thr m t) \<Longrightarrow>
   t \<in> set (ready (inn m)) \<or> (\<exists>c. hnd m c = Some (t, False))"
  by (simp add: no_lost_ready_def)

lemma switched_inv:
  assumes inv: "sched_inv m" and ph: "phase m c = Exec" and p: "cur m c = Some p"
    and n: "n < fresh (inn m)" "n \<noteq> p" "\<not> running (thr m n)" "th_state (thr m n) \<in> {Ready, Running}"
      "\<forall>d. cur m d \<noteq> Some n"
    and nq: "(ready (inn m) = n # q \<and> \<not> is_idle (thr m n)) \<or>
             (ready (inn m) = q \<and> idl m c = Some n)"
    and st: "(is_idle (thr m p) \<and> \<not> b \<and> st = Running) \<or>
             (\<not> is_idle (thr m p) \<and> (if b then st = Blocked \<or> st = Exited else st = Ready))"
    and g: "g = graveyard (inn m) @ (if st = Exited then [p] else [])"
  shows "sched_inv (switched c p b st n q g k m)"
proof -
  let ?m = "switched c p b st n q g k m"
  have sl: "wf_slots m" and ow: "wf_own m" and ru: "wf_running m" and stt: "wf_states m"
    and re: "wf_ready m" and nw: "no_lost_wake m" and nr: "no_lost_ready m" and al: "wf_alloc m"
    and de: "wf_dead m" and ta: "wf_tasks m" and pd: "phantoms_dropped (inn m) = 0"
    using inv by (auto simp: sched_inv_def)
  have pf: "p < fresh (inn m)" using p al by (auto simp: wf_alloc_def)
  have pr: "running (thr m p)" using p pf ph ru by (auto simp: wf_running_def on_cpu_def)
  have ps: "th_state (thr m p) = Running" using p stt by (auto simp: wf_states_def)
  have nh: "\<forall>d b. hnd m d \<noteq> Some (n, b)" using n ru by (auto simp: wf_running_def on_cpu_def)
  have ph': "\<forall>d b. hnd m d \<noteq> Some (p, b)" using p ow by (simp add: cur_not_hnd)
  have ng: "n \<notin> set (graveyard (inn m))" "n \<notin> set (freed (inn m))" using n de by (auto simp: wf_dead_def)
  have pg: "p \<notin> set (graveyard (inn m))" "p \<notin> set (freed (inn m))" using ps de by (auto simp: wf_dead_def)
  have qs: "set q \<subseteq> set (ready (inn m))" "n \<notin> set q" "p \<notin> set q" "distinct q"
    using nq re ps idl_idle [OF ow, of c n] by (auto simp: wf_ready_def)
  have pc: "\<forall>d. cur m d = Some p \<longrightarrow> d = c" using cur_inj [OF ow p] by blast
  have hn: "hnd m c = None" using sl ph by (auto simp: wf_slots_def)
  have hk: "hnd m d = Some x \<Longrightarrow> hnd ?m d = Some x" for d x
    using hn by (auto simp: switched_def)
  have infl: "inflight ?m = inflight m" and rdy: "ready (inn ?m) = q"
    by (simp_all add: switched_def)
  have hc: "hnd ?m c = Some (p, b)" by (simp add: switched_def)
  have "wf_slots ?m" using sl ph by (auto simp: wf_slots_def switched_def)
  moreover have "wf_own ?m"
  proof (rule wf_ownI)
    show "cur ?m d = Some t \<Longrightarrow> cur ?m e = Some t \<Longrightarrow> d = e" for d e t
      using cur_inj [OF ow] n by (auto simp: switched_def split: if_splits)
    show "hnd ?m d = Some (t, x) \<Longrightarrow> hnd ?m e = Some (t, y) \<Longrightarrow> d = e" for d e t x y
      using hnd_inj [OF ow] ph' by (auto simp: switched_def split: if_splits)
    show "hnd ?m d = Some (t, x) \<Longrightarrow> cur ?m e \<noteq> Some t" for d e t x
      using hnd_not_cur [OF ow] n nh cur_inj [OF ow p] by (auto simp: switched_def split: if_splits)
    show "idl ?m d = Some t \<Longrightarrow> idl ?m e = Some t \<Longrightarrow> d = e" for d e t
      using idl_inj [OF ow] by (auto simp: switched_def split: if_splits)
    show "idl ?m d = Some t \<Longrightarrow> is_idle (thr ?m t)" for d t
      using idl_idle [OF ow] by (auto simp: switched_def split: if_splits)
    show "cur ?m d = Some t \<Longrightarrow> is_idle (thr ?m t) \<Longrightarrow> idl ?m d = Some t" for d t
      using cur_idle [OF ow] nq by (auto simp: switched_def split: if_splits)
    show "hnd ?m d = Some (t, x) \<Longrightarrow> is_idle (thr ?m t) \<Longrightarrow> idl ?m d = Some t \<and> \<not> x" for d t x
      using hnd_idle [OF ow] hnd_idle_plain [OF ow] cur_idle [OF ow p] st
      by (auto simp: switched_def split: if_splits)
  qed
  moreover have "wf_running ?m"
  proof -
    have "on_cpu ?m d t \<longleftrightarrow> on_cpu m d t" for d t
      using p ph n nh hn by (auto simp: on_cpu_def switched_def)
    then show ?thesis using ru by (simp add: wf_running_def switched_def)
  qed
  moreover have "wf_states ?m"
  proof (rule wf_statesI)
    show "cur ?m d = Some t \<Longrightarrow> th_state (thr ?m t) = Running" for d t
      using cur_state [OF stt, of d t] pc by (auto simp: switched_def split: if_splits)
    show "hnd ?m d = Some (t, False) \<Longrightarrow> \<not> is_idle (thr ?m t) \<Longrightarrow> th_state (thr ?m t) = Ready" for d t
      using hnd_plain_state [OF stt, of d t] st nh ph' n by (auto simp: switched_def split: if_splits)
    show "hnd ?m d = Some (t, True) \<Longrightarrow> th_state (thr ?m t) = Blocked \<or> th_state (thr ?m t) = Exited" for d t
      using hnd_block_state [OF stt, of d t] st nh ph' n by (auto simp: switched_def split: if_splits)
    show "t < fresh (inn ?m) \<Longrightarrow> is_idle (thr ?m t) \<Longrightarrow> th_state (thr ?m t) = Ready \<or> th_state (thr ?m t) = Running" for t
      using idle_state [OF stt, of t] st by (auto simp: switched_def split: if_splits)
  qed
  moreover have "wf_ready ?m"
    using re qs by (auto simp: wf_ready_def switched_def)
  moreover have "no_lost_wake ?m"
    unfolding no_lost_wake_def
  proof (intro allI impI)
    fix t assume t: "t < fresh (inn ?m)" "th_state (thr ?m t) = Blocked" "wake_pending (thr ?m t)"
    show "t \<in> set (inflight ?m) \<or> (\<exists>d. hnd ?m d = Some (t, True))"
    proof (cases "t = p")
      case True
      then have b using t st n by (auto simp: switched_def split: if_splits)
      with True hc show ?thesis by auto
    next
      case False
      then have "t \<in> set (inflight m) \<or> (\<exists>c. hnd m c = Some (t, True))"
        using t by (intro no_lost_wakeD [OF nw]) (auto simp: switched_def split: if_splits)
      with hk show ?thesis by (auto simp: infl)
    qed
  qed
  moreover have "no_lost_ready ?m"
    unfolding no_lost_ready_def
  proof (intro allI impI)
    fix t assume t: "t < fresh (inn ?m)" "th_state (thr ?m t) = Ready" "\<not> is_idle (thr ?m t)"
    show "t \<in> set (ready (inn ?m)) \<or> (\<exists>d. hnd ?m d = Some (t, False))"
    proof (cases "t = p")
      case True
      then have "\<not> b" using t st n by (auto simp: switched_def split: if_splits)
      with True hc show ?thesis by auto
    next
      case False
      then have "t \<in> set (ready (inn m)) \<or> (\<exists>c. hnd m c = Some (t, False))"
        using t by (intro no_lost_readyD [OF nr]) (auto simp: switched_def split: if_splits)
      moreover have "t \<noteq> n" using t by (auto simp: switched_def)
      ultimately show ?thesis using hk nq by (auto simp: rdy)
    qed
  qed
  moreover have "wf_alloc ?m"
    using al pf n qs by (auto simp: wf_alloc_def switched_def)
  moreover have "wf_dead ?m"
    using de g pf pg ng ps n pr  by (auto simp: wf_dead_def switched_def)
  moreover have "wf_tasks ?m"
    by (rule wf_tasks_cong [OF ta]) (simp_all add: switched_def)
  ultimately show ?thesis using pd by (simp add: sched_inv_def switched_def)
qed

lemma pick_next_head:
  "ready s = t # q \<Longrightarrow> \<not> stale s t \<Longrightarrow> pick_next c s = Some (t, s\<lparr>ready := q\<rparr>)"
  by (simp add: pick_next_def)

lemma pick_next_idle:
  "ready s = [] \<Longrightarrow> idle (cpus s c) = Some t \<Longrightarrow> pick_next c s = Some (t, s\<lparr>ready := []\<rparr>)"
  by (simp add: pick_next_def)

lemma sched_invD:
  assumes "sched_inv m"
  shows "wf_slots m" "wf_own m" "wf_running m" "wf_states m" "wf_ready m" "no_lost_wake m"
    "no_lost_ready m" "wf_alloc m" "wf_dead m" "wf_tasks m" "phantoms_dropped (inn m) = 0"
  using assms by (auto simp: sched_inv_def)

text \<open>The next thread of a CPU that runs \<open>p\<close>: what the queue or the idle slot offers.\<close>

lemma idle_parked:
  assumes inv: "sched_inv m" and ph: "phase m c = Exec" and p: "cur m c = Some p"
    and i: "idl m c = Some n" "n \<noteq> p"
  shows "\<not> running (thr m n)" "cur m d \<noteq> Some n"
proof -
  note ow = sched_invD(2) [OF inv]
  have idle: "is_idle (thr m n)" using idl_idle [OF ow i(1)] .
  have hn: "hnd m c = None" using sched_invD(1) [OF inv] ph by (simp add: wf_slots_def)
  have *: "cur m d \<noteq> Some n" for d
  proof
    assume "cur m d = Some n"
    moreover from this have "d = c" using cur_idle [OF ow _ idle] idl_inj [OF ow _ i(1)] by blast
    ultimately show False using p i by simp
  qed
  then show "cur m d \<noteq> Some n" .
  have "hnd m d \<noteq> Some (n, b)" for d b
  proof
    assume h: "hnd m d = Some (n, b)"
    then have "d = c" using hnd_idle [OF ow h idle] idl_inj [OF ow _ i(1)] by blast
    with h hn show False by simp
  qed
  with * show "\<not> running (thr m n)"
    using sched_invD(3,8) [OF inv] i(1) by (auto simp: wf_running_def wf_alloc_def on_cpu_def)
qed

lemma next_thread:
  assumes inv: "sched_inv m" and ph: "phase m c = Exec" and p: "cur m c = Some p"
    and s: "ready s = ready (inn m)" "idle (cpus s c) = idl m c"
      "\<And>t. t \<in> set (ready (inn m)) \<Longrightarrow> \<not> stale s t"
  obtains n q where "pick_next c s = Some (n, s\<lparr>ready := q\<rparr>)" "n < fresh (inn m)"
    "n \<noteq> p \<Longrightarrow> \<not> running (thr m n) \<and> (\<forall>d. cur m d \<noteq> Some n)"
    "th_state (thr m n) \<in> {Ready, Running}"
    "(ready (inn m) = n # q \<and> \<not> is_idle (thr m n)) \<or> (ready (inn m) = q \<and> idl m c = Some n)"
    "n = p \<Longrightarrow> q = ready (inn m) \<and> is_idle (thr m p)"
proof (cases "ready (inn m)")
  case Nil
  from sched_invD(1) [OF inv] ph obtain i where i: "idl m c = Some i"
    unfolding wf_slots_def by (metis not_None_eq phase.distinct(1))
  have "i < fresh (inn m)" "is_idle (thr m i)"
    using i sched_invD(8) [OF inv] idl_idle [OF sched_invD(2) [OF inv]] by (auto simp: wf_alloc_def)
  moreover from this have "th_state (thr m i) \<in> {Ready, Running}"
    using idle_state [OF sched_invD(4) [OF inv]] by simp
  ultimately show thesis
    using that [of i "[]"] i Nil s pick_next_idle [of s c i] idle_parked [OF inv ph p i] by auto
next
  case (Cons t q)
  then have "\<not> stale s t" using s by simp
  moreover have "th_state (thr m t) = Ready \<and> \<not> running (thr m t) \<and> \<not> is_idle (thr m t) \<and> (\<forall>d. cur m d \<noteq> Some t)"
    "t < fresh (inn m)"
    using Cons sched_invD(5,8) [OF inv] by (auto simp: wf_ready_def wf_alloc_def)
  ultimately show thesis
    using that [of t q] Cons s pick_next_head [of s t q c] p by auto
qed

lemma not_stale:
  assumes "sched_inv m" "t \<in> set (ready (inn m))"
  shows "\<not> stale (inn m) t"
  using assms sched_invD(1,5) [OF assms(1)] by (auto simp: stale_iff wf_ready_def)

lemma reschedule_cases:
  assumes inv: "sched_inv m" and ph: "phase m c = Exec" and p: "cur m c = Some p"
    and blk: "\<not> (blk \<and> is_idle (thr m p))"
  obtains (stay) "reschedule c blk (inn m) = Some (Inl (inn m))"
  | (switch) n q st s' where "reschedule c blk (inn m) = Some (Inr s')"
      "m\<lparr>inn := s'\<lparr>ctx_switches := Suc (ctx_switches s')\<rparr>, phase := (phase m)(c := Spin)\<rparr> =
       switched c p blk st n q (graveyard (inn m)) (Suc (ctx_switches (inn m))) m"
      "sched_inv (switched c p blk st n q (graveyard (inn m)) (Suc (ctx_switches (inn m))) m)"
proof (cases "blk \<and> wake_pending (thr m p)")
  case True
  then show thesis using stay p by (simp add: reschedule_def)
next
  case False
  obtain n q where n: "pick_next c (inn m) = Some (n, (inn m)\<lparr>ready := q\<rparr>)" "n < fresh (inn m)"
    "n \<noteq> p \<Longrightarrow> \<not> running (thr m n) \<and> (\<forall>d. cur m d \<noteq> Some n)"
    "th_state (thr m n) \<in> {Ready, Running}"
    "(ready (inn m) = n # q \<and> \<not> is_idle (thr m n)) \<or> (ready (inn m) = q \<and> idl m c = Some n)"
    "n = p \<Longrightarrow> q = ready (inn m) \<and> is_idle (thr m p)"
    using next_thread [OF inv ph p, of "inn m"] not_stale [OF inv] by blast
  show thesis
  proof (cases "n = p")
    case True
    with n have "reschedule c blk (inn m) = Some (Inl (inn m))"
      using p False by (auto simp: reschedule_def)
    then show thesis by (rule stay)
  next
    case np: False
    define st where "st = (if blk then Blocked else if is_idle (thr m p) then Running else Ready)"
    have ps: "th_state (thr m p) = Running" using cur_state [OF sched_invD(4) [OF inv] p] .
    have "reschedule c blk (inn m) = Some (Inr (commit_switch c p blk n ((inn m)\<lparr>ready := q\<rparr>)))"
      using p False n(1) np by (auto simp: reschedule_def)
    moreover have "m\<lparr>inn := (commit_switch c p blk n ((inn m)\<lparr>ready := q\<rparr>))\<lparr>ctx_switches := Suc (ctx_switches (commit_switch c p blk n ((inn m)\<lparr>ready := q\<rparr>)))\<rparr>, phase := (phase m)(c := Spin)\<rparr> =
       switched c p blk st n q (graveyard (inn m)) (Suc (ctx_switches (inn m))) m"
      using ps np by (simp add: switched_def commit_switch_def upd_defs st_def fun_eq_iff)
    moreover have "sched_inv (switched c p blk st n q (graveyard (inn m)) (Suc (ctx_switches (inn m))) m)"
      using inv ph p n np blk by (intro switched_inv) (auto simp: st_def)
    ultimately show thesis by (rule switch)
  qed
qed

lemma exit_cases:
  assumes inv: "sched_inv m" and ph: "phase m c = Exec" and p: "cur m c = Some p"
    and np: "\<not> is_idle (thr m p)"
  obtains n q s' where "exit_thread c (inn m) = Some s'"
      "m\<lparr>inn := s', phase := (phase m)(c := Spin)\<rparr> =
       switched c p True Exited n q (graveyard (inn m) @ [p]) (ctx_switches (inn m)) m"
      "sched_inv (switched c p True Exited n q (graveyard (inn m) @ [p]) (ctx_switches (inn m)) m)"
proof -
  let ?s = "set_state p Exited (set_cpu c ((cpus (inn m) c)\<lparr>current := None\<rparr>) (inn m))"
  have "\<not> stale ?s t" if "t \<in> set (ready (inn m))" for t
  proof -
    have "t \<noteq> p" using that p sched_invD(5) [OF inv] by (auto simp: wf_ready_def)
    with not_stale [OF inv that] show ?thesis by (auto simp: stale_def upd_defs list_ex_iff split: if_splits)
  qed
  then obtain n q where n: "pick_next c ?s = Some (n, ?s\<lparr>ready := q\<rparr>)" "n < fresh (inn m)"
    "n \<noteq> p \<Longrightarrow> \<not> running (thr m n) \<and> (\<forall>d. cur m d \<noteq> Some n)"
    "th_state (thr m n) \<in> {Ready, Running}"
    "(ready (inn m) = n # q \<and> \<not> is_idle (thr m n)) \<or> (ready (inn m) = q \<and> idl m c = Some n)"
    "n = p \<Longrightarrow> q = ready (inn m) \<and> is_idle (thr m p)"
    using next_thread [OF inv ph p, of ?s] by (auto simp: upd_defs)
  have "n \<noteq> p" using n np by blast
  let ?s' = "?s\<lparr>ready := q, threads := (threads ?s)(n := (thr m n)\<lparr>th_state := Running\<rparr>),
      cpus := (cpus (inn m))(c := (cpus (inn m) c)\<lparr>current := Some n, handoff := Some (p, True)\<rparr>),
      graveyard := graveyard (inn m) @ [p]\<rparr>"
  show thesis
  proof (rule that)
    show "exit_thread c (inn m) = Some ?s'"
      using p n(1) \<open>n \<noteq> p\<close> by (simp add: exit_thread_def upd_defs)
    show "m\<lparr>inn := ?s', phase := (phase m)(c := Spin)\<rparr> =
       switched c p True Exited n q (graveyard (inn m) @ [p]) (ctx_switches (inn m)) m"
      by (auto simp: switched_def upd_defs intro!: machine.equality inner.equality cpu_slot.equality)
    show "sched_inv (switched c p True Exited n q (graveyard (inn m) @ [p]) (ctx_switches (inn m)) m)"
      using inv ph p n np \<open>n \<noteq> p\<close> by (intro switched_inv) auto
  qed
qed

lemma set_wake_pending_simps [simp]:
  "th_state (threads (set_wake_pending t w s) x) = th_state (threads s x)"
  "is_idle (threads (set_wake_pending t w s) x) = is_idle (threads s x)"
  "running (threads (set_wake_pending t w s) x) = running (threads s x)"
  "task (threads (set_wake_pending t w s) x) = task (threads s x)"
  "wake_pending (threads (set_wake_pending t w s) x) = (if x = t then w else wake_pending (threads s x))"
  "fresh (set_wake_pending t w s) = fresh s" "ready (set_wake_pending t w s) = ready s"
  "cpus (set_wake_pending t w s) = cpus s" "graveyard (set_wake_pending t w s) = graveyard s"
  "freed (set_wake_pending t w s) = freed s" "active_threads (set_wake_pending t w s) = active_threads s"
  "phantoms_dropped (set_wake_pending t w s) = phantoms_dropped s"
  by (auto simp: set_wake_pending_def)

lemma set_running_simps [simp]:
  "th_state (threads (set_running t w s) x) = th_state (threads s x)"
  "is_idle (threads (set_running t w s) x) = is_idle (threads s x)"
  "wake_pending (threads (set_running t w s) x) = wake_pending (threads s x)"
  "task (threads (set_running t w s) x) = task (threads s x)"
  "running (threads (set_running t w s) x) = (if x = t then w else running (threads s x))"
  "fresh (set_running t w s) = fresh s" "ready (set_running t w s) = ready s"
  "cpus (set_running t w s) = cpus s" "graveyard (set_running t w s) = graveyard s"
  "freed (set_running t w s) = freed s" "active_threads (set_running t w s) = active_threads s"
  "phantoms_dropped (set_running t w s) = phantoms_dropped s"
  by (auto simp: set_running_def)

lemma set_state_simps [simp]:
  "running (threads (set_state t st s) x) = running (threads s x)"
  "is_idle (threads (set_state t st s) x) = is_idle (threads s x)"
  "wake_pending (threads (set_state t st s) x) = wake_pending (threads s x)"
  "task (threads (set_state t st s) x) = task (threads s x)"
  "th_state (threads (set_state t st s) x) = (if x = t then st else th_state (threads s x))"
  "fresh (set_state t st s) = fresh s" "ready (set_state t st s) = ready s"
  "cpus (set_state t st s) = cpus s" "graveyard (set_state t st s) = graveyard s"
  "freed (set_state t st s) = freed s" "active_threads (set_state t st s) = active_threads s"
  "phantoms_dropped (set_state t st s) = phantoms_dropped s"
  by (auto simp: set_state_def)

lemma set_cpu_simps [simp]:
  "threads (set_cpu c sl s) = threads s" "cpus (set_cpu c sl s) = (cpus s)(c := sl)"
  "fresh (set_cpu c sl s) = fresh s" "ready (set_cpu c sl s) = ready s"
  "graveyard (set_cpu c sl s) = graveyard s"
  "freed (set_cpu c sl s) = freed s" "active_threads (set_cpu c sl s) = active_threads s"
  "phantoms_dropped (set_cpu c sl s) = phantoms_dropped s"
  by (auto simp: set_cpu_def)

lemma wake_inv:
  assumes inv: "sched_inv m" and m': "m' = m\<lparr>inn := set_wake_pending t w (inn m), inflight := f, refs := r\<rparr>"
    and w: "w \<Longrightarrow> t \<in> set f" and f: "set (inflight m) \<subseteq> set f"
    and live: "\<forall>x. x \<in> set f \<or> 0 < r x \<longrightarrow> x < fresh (inn m) \<and> x \<notin> set (freed (inn m))"
  shows "sched_inv m'"
proof -
  note I = sched_invD [OF inv]
  have "wf_slots m' = wf_slots m" unfolding wf_slots_def m' by simp
  moreover have "wf_own m' = wf_own m" unfolding wf_own_def m' by simp
  moreover have "wf_running m' = wf_running m" unfolding wf_running_def on_cpu_def m' by simp
  moreover have "wf_states m' = wf_states m" unfolding wf_states_def m' by simp
  moreover have "wf_ready m' = wf_ready m" unfolding wf_ready_def m' by simp
  moreover have "no_lost_wake m'" using I(6) w f unfolding no_lost_wake_def m' by auto
  moreover have "no_lost_ready m' = no_lost_ready m" unfolding no_lost_ready_def m' by simp
  moreover have "wf_alloc m'" using I(8) live unfolding wf_alloc_def m' by simp
  moreover have "wf_dead m' = wf_dead m" unfolding wf_dead_def m' by simp
  moreover have "wf_tasks m'" by (rule wf_tasks_cong [OF I(10)]) (simp_all add: m')
  ultimately show ?thesis using I by (simp add: sched_inv_def m')
qed

text \<open>A reference count changes and nothing else.\<close>

lemma refs_inv:
  assumes inv: "sched_inv m"
    and live: "\<forall>x. 0 < r x \<longrightarrow> x < fresh (inn m) \<and> x \<notin> set (freed (inn m))"
  shows "sched_inv (m\<lparr>refs := r\<rparr>)"
proof -
  note I = sched_invD [OF inv]
  let ?m = "m\<lparr>refs := r\<rparr>"
  have "wf_slots ?m = wf_slots m" unfolding wf_slots_def by simp
  moreover have "wf_own ?m = wf_own m" unfolding wf_own_def by simp
  moreover have "wf_running ?m = wf_running m" unfolding wf_running_def on_cpu_def by simp
  moreover have "wf_states ?m = wf_states m" unfolding wf_states_def by simp
  moreover have "wf_ready ?m = wf_ready m" unfolding wf_ready_def by simp
  moreover have "no_lost_wake ?m = no_lost_wake m" unfolding no_lost_wake_def by simp
  moreover have "no_lost_ready ?m = no_lost_ready m" unfolding no_lost_ready_def by simp
  moreover have "wf_alloc ?m" using I(8) live unfolding wf_alloc_def by simp
  moreover have "wf_dead ?m = wf_dead m" unfolding wf_dead_def by simp
  moreover have "wf_tasks ?m" by (rule wf_tasks_cong [OF I(10)]) simp_all
  ultimately show ?thesis using I by (simp add: sched_inv_def)
qed

text \<open>The claim finds the stack free: no CPU is on the thread it is about to run.\<close>

lemma claim_free:
  assumes inv: "sched_inv m" and ph: "phase m c = Spin" and t: "cur m c = Some t"
  shows "\<not> running (thr m t)"
proof
  assume r: "running (thr m t)"
  note ow = sched_invD(2) [OF inv]
  have "t < fresh (inn m)" using t sched_invD(8) [OF inv] by (auto simp: wf_alloc_def)
  with r obtain d where "on_cpu m d t" using sched_invD(3) [OF inv] by (auto simp: wf_running_def)
  then show False
    using cur_inj [OF ow t, of d] cur_not_hnd [OF ow t, of d] ph by (auto simp: on_cpu_def)
qed

lemma claim_inv:
  assumes inv: "sched_inv m" and ph: "phase m c = Spin" and t: "cur m c = Some t"
  shows "sched_inv (m\<lparr>inn := set_running t True (inn m), phase := (phase m)(c := Claimed)\<rparr>)"
    (is "sched_inv ?m")
proof -
  note I = sched_invD [OF inv]
  have tr: "t \<notin> set (ready (inn m))" using t I(5) by (auto simp: wf_ready_def)
  have "wf_slots ?m" using I(1) ph unfolding wf_slots_def by auto
  moreover have "wf_own ?m = wf_own m" unfolding wf_own_def by simp
  moreover have "wf_running ?m"
  proof -
    have "on_cpu ?m d x \<longleftrightarrow> on_cpu m d x \<or> (d = c \<and> x = t)" for d x
      using t ph by (auto simp: on_cpu_def)
    with I(3) show ?thesis unfolding wf_running_def by auto
  qed
  moreover have "wf_states ?m = wf_states m" unfolding wf_states_def by simp
  moreover have "wf_ready ?m" using I(5) tr unfolding wf_ready_def by auto
  moreover have "no_lost_wake ?m = no_lost_wake m" unfolding no_lost_wake_def by simp
  moreover have "no_lost_ready ?m = no_lost_ready m" unfolding no_lost_ready_def by simp
  moreover have "wf_alloc ?m = wf_alloc m" unfolding wf_alloc_def by simp
  moreover have "wf_dead ?m" using I(9) cur_state [OF I(4) t] unfolding wf_dead_def by auto
  moreover have "wf_tasks ?m" by (rule wf_tasks_cong [OF I(10)]) simp_all
  ultimately show ?thesis using I by (simp add: sched_inv_def)
qed

lemma land_inv:
  assumes inv: "sched_inv m" and ph: "phase m c = Claimed"
  shows "sched_inv (m\<lparr>phase := (phase m)(c := Landed)\<rparr>)"
    (is "sched_inv ?m")
proof -
  note I = sched_invD [OF inv]
  have "wf_slots ?m" using I(1) ph unfolding wf_slots_def by auto
  moreover have "wf_own ?m = wf_own m" unfolding wf_own_def by simp
  moreover have "wf_running ?m = wf_running m"
  proof -
    have "on_cpu ?m d x = on_cpu m d x" for d x using ph by (auto simp: on_cpu_def)
    then show ?thesis unfolding wf_running_def by simp
  qed
  moreover have "wf_states ?m = wf_states m" unfolding wf_states_def by simp
  moreover have "wf_ready ?m = wf_ready m" unfolding wf_ready_def by simp
  moreover have "no_lost_wake ?m = no_lost_wake m" unfolding no_lost_wake_def by simp
  moreover have "no_lost_ready ?m = no_lost_ready m" unfolding no_lost_ready_def by simp
  moreover have "wf_alloc ?m = wf_alloc m" unfolding wf_alloc_def by simp
  moreover have "wf_dead ?m = wf_dead m" unfolding wf_dead_def by simp
  moreover have "wf_tasks ?m" by (rule wf_tasks_cong [OF I(10)]) simp_all
  ultimately show ?thesis using I by (simp add: sched_inv_def)
qed

lemma finish_inv:
  assumes inv: "sched_inv m" and ph: "phase m c = Landed"
  shows "sched_inv (m\<lparr>inn := finish_switch c (inn m), phase := (phase m)(c := Exec)\<rparr>)"
    (is "sched_inv ?m")
proof -
  note I = sched_invD [OF inv]
  obtain p b where h: "hnd m c = Some (p, b)"
    using hnd_None [OF I(1), of c] ph by (cases "hnd m c") auto
  define rq where "rq \<longleftrightarrow> th_state (thr m p) \<noteq> Exited \<and> \<not> is_idle (thr m p) \<and> (b \<longrightarrow> wake_pending (thr m p))"
  have pf: "p < fresh (inn m)" using hnd_alloc [OF I(8) h] .
  have pr: "running (thr m p)" using h pf I(3) by (auto simp: wf_running_def on_cpu_def)
  have pq: "p \<notin> set (ready (inn m))" using pr I(5) by (auto simp: wf_ready_def)
  have pc: "cur m d \<noteq> Some p" for d using hnd_not_cur [OF I(2) h] .
  have hp: "hnd m d = Some (p, b') \<Longrightarrow> d = c" for d b' using hnd_inj [OF I(2) _ h] .
  have bs: "b \<Longrightarrow> \<not> is_idle (thr m p) \<and> (th_state (thr m p) = Blocked \<or> th_state (thr m p) = Exited)"
    using h hnd_block_state [OF I(4), of c p] hnd_idle_plain [OF I(2), of c p] by simp
  have ns: "\<not> b \<Longrightarrow> \<not> is_idle (thr m p) \<Longrightarrow> th_state (thr m p) = Ready"
    using h hnd_plain_state [OF I(4)] by simp
  let ?s = "set_cpu c ((cpus (inn m) c)\<lparr>handoff := None\<rparr>) (inn m)"
  have fs: "finish_switch c (inn m) =
      set_running p False (if rq then (set_state p Ready ?s)\<lparr>ready := ready (inn m) @ [p]\<rparr> else ?s)"
    using h pq by (auto simp: finish_switch_def rq_def Let_def)
  have S: "cur ?m d = cur m d" "idl ?m d = idl m d" "hnd ?m d = (if d = c then None else hnd m d)"
    "th_state (thr ?m x) = (if x = p \<and> rq then Ready else th_state (thr m x))"
    "is_idle (thr ?m x) = is_idle (thr m x)" "task (thr ?m x) = task (thr m x)"
    "wake_pending (thr ?m x) = wake_pending (thr m x)"
    "running (thr ?m x) = (x \<noteq> p \<and> running (thr m x))"
    "ready (inn ?m) = ready (inn m) @ (if rq then [p] else [])"
    "fresh (inn ?m) = fresh (inn m)" "freed (inn ?m) = freed (inn m)"
    "graveyard (inn ?m) = graveyard (inn m)" "active_threads (inn ?m) = active_threads (inn m)"
    "phantoms_dropped (inn ?m) = phantoms_dropped (inn m)" "inflight ?m = inflight m" "refs ?m = refs m"
    "phase ?m d = (if d = c then Exec else phase m d)" for d x
    by (auto simp: fs)
  have "wf_slots ?m"
    using I(1) ph unfolding wf_slots_def S by (auto simp: fs)
  moreover have "wf_own ?m"
  proof (rule wf_ownI, unfold S)
    show "cur m d = Some t \<Longrightarrow> cur m e = Some t \<Longrightarrow> d = e" for d e t
      by (rule cur_inj [OF I(2)])
    show "(if d = c then None else hnd m d) = Some (t, x) \<Longrightarrow>
        (if e = c then None else hnd m e) = Some (t, y) \<Longrightarrow> d = e" for d e t x y
      using hnd_inj [OF I(2), of d t x e y] by (simp split: if_splits)
    show "(if d = c then None else hnd m d) = Some (t, x) \<Longrightarrow> cur m e \<noteq> Some t" for d e t x
      using hnd_not_cur [OF I(2), of d t x e] by (simp split: if_splits)
    show "idl m d = Some t \<Longrightarrow> idl m e = Some t \<Longrightarrow> d = e" for d e t
      by (rule idl_inj [OF I(2)])
    show "idl m d = Some t \<Longrightarrow> is_idle (thr m t)" for d t
      by (rule idl_idle [OF I(2)])
    show "cur m d = Some t \<Longrightarrow> is_idle (thr m t) \<Longrightarrow> idl m d = Some t" for d t
      by (rule cur_idle [OF I(2)])
    show "(if d = c then None else hnd m d) = Some (t, x) \<Longrightarrow> is_idle (thr m t) \<Longrightarrow>
        idl m d = Some t \<and> \<not> x" for d t x
      using hnd_idle [OF I(2), of d t x] hnd_idle_plain [OF I(2), of d t]
      by (cases x) (simp_all split: if_splits)
  qed
  moreover have "wf_running ?m"
  proof -
    have "on_cpu ?m d x \<longleftrightarrow> on_cpu m d x \<and> x \<noteq> p" for d x
    proof (cases "d = c")
      case True
      then show ?thesis using ph h pc [of c] unfolding on_cpu_def S by auto
    next
      case False
      then have "hnd m d \<noteq> Some (p, b')" for b' using hp by blast
      with False show ?thesis using pc [of d] unfolding on_cpu_def S by auto
    qed
    with I(3) show ?thesis unfolding wf_running_def S by auto
  qed
  moreover have "wf_states ?m"
  proof (rule wf_statesI, unfold S)
    show "cur m d = Some t \<Longrightarrow> (if t = p \<and> rq then Ready else th_state (thr m t)) = Running" for d t
      using cur_state [OF I(4), of d t] pc by auto
    show "(if d = c then None else hnd m d) = Some (t, False) \<Longrightarrow> \<not> is_idle (thr m t) \<Longrightarrow>
        (if t = p \<and> rq then Ready else th_state (thr m t)) = Ready" for d t
      using hnd_plain_state [OF I(4), of d t] by (auto split: if_splits)
    show "(if d = c then None else hnd m d) = Some (t, True) \<Longrightarrow>
        (if t = p \<and> rq then Ready else th_state (thr m t)) = Blocked \<or>
        (if t = p \<and> rq then Ready else th_state (thr m t)) = Exited" for d t
      using hnd_block_state [OF I(4), of d t] hp [of d] by (auto split: if_splits)
    show "t < fresh (inn m) \<Longrightarrow> is_idle (thr m t) \<Longrightarrow>
        (if t = p \<and> rq then Ready else th_state (thr m t)) = Ready \<or>
        (if t = p \<and> rq then Ready else th_state (thr m t)) = Running" for t
      using idle_state [OF I(4), of t] by auto
  qed
  moreover have "wf_ready ?m"
    using I(5) pq pc unfolding wf_ready_def S by (auto simp: rq_def)
  moreover have "no_lost_wake ?m"
    unfolding no_lost_wake_def S
  proof (intro allI impI)
    fix t assume t: "t < fresh (inn m)" "(if t = p \<and> rq then Ready else th_state (thr m t)) = Blocked"
      "wake_pending (thr m t)"
    then have "t \<noteq> p" using bs ns idle_state [OF I(4) pf] by (auto simp: rq_def split: if_splits)
    then have "t \<in> set (inflight m) \<or> (\<exists>d. hnd m d = Some (t, True))"
      using t no_lost_wakeD [OF I(6)] by auto
    with \<open>t \<noteq> p\<close> h show "t \<in> set (inflight m) \<or> (\<exists>d. (if d = c then None else hnd m d) = Some (t, True))"
      by (metis option.inject prod.inject)
  qed
  moreover have "no_lost_ready ?m"
    unfolding no_lost_ready_def S
  proof (intro allI impI)
    fix t assume t: "t < fresh (inn m)" "(if t = p \<and> rq then Ready else th_state (thr m t)) = Ready"
      "\<not> is_idle (thr m t)"
    show "t \<in> set (ready (inn m) @ (if rq then [p] else [])) \<or>
        (\<exists>d. (if d = c then None else hnd m d) = Some (t, False))"
    proof (cases "t = p")
      case True
      with t bs have rq by (auto simp: rq_def split: if_splits)
      with True show ?thesis by simp
    next
      case False
      then have "t \<in> set (ready (inn m)) \<or> (\<exists>d. hnd m d = Some (t, False))"
        using t no_lost_readyD [OF I(7)] by auto
      with False h show ?thesis by (metis Un_iff option.inject prod.inject set_append)
    qed
  qed
  moreover have "wf_alloc ?m"
    using I(8) pf unfolding wf_alloc_def S by auto
  moreover have "wf_dead ?m"
    using I(9) unfolding wf_dead_def S by (auto simp: rq_def)
  moreover have "wf_tasks ?m" by (rule wf_tasks_cong [OF I(10)]) (simp_all only: S)
  ultimately show ?thesis using I(11) unfolding sched_inv_def S by simp
qed

lemma unblock_inv:
  assumes inv: "sched_inv m" and t: "t \<in> set (inflight m)"
  shows "sched_inv (m\<lparr>inn := unblock_locked t (inn m), inflight := remove1 t (inflight m)\<rparr>)"
    (is "sched_inv ?m")
proof -
  note I = sched_invD [OF inv]
  define w where "w \<longleftrightarrow> th_state (thr m t) = Blocked \<and> \<not> running (thr m t)"
  have tf: "t < fresh (inn m)" using t I(8) by (auto simp: wf_alloc_def)
  have ti: "th_state (thr m t) = Blocked \<Longrightarrow> \<not> is_idle (thr m t)" using idle_state [OF I(4) tf] by auto
  have tc: "th_state (thr m t) = Blocked \<Longrightarrow> cur m d \<noteq> Some t" for d using cur_state [OF I(4)] by fastforce
  have th: "w \<Longrightarrow> hnd m d \<noteq> Some (t, b)" for d b using tf I(3) by (auto simp: w_def wf_running_def on_cpu_def)
  have tq: "w \<Longrightarrow> t \<notin> set (ready (inn m))" using I(5) by (auto simp: w_def wf_ready_def)
  have us: "unblock_locked t (inn m) =
      (if w then (set_state t Ready (inn m))\<lparr>ready := ready (inn m) @ [t]\<rparr> else inn m)"
    using tq by (auto simp: unblock_locked_def w_def Let_def)
  have S: "cpus (inn ?m) = cpus (inn m)"
    "th_state (thr ?m x) = (if x = t \<and> w then Ready else th_state (thr m x))"
    "is_idle (thr ?m x) = is_idle (thr m x)" "task (thr ?m x) = task (thr m x)"
    "wake_pending (thr ?m x) = wake_pending (thr m x)"
    "running (thr ?m x) = running (thr m x)"
    "ready (inn ?m) = ready (inn m) @ (if w then [t] else [])"
    "fresh (inn ?m) = fresh (inn m)" "freed (inn ?m) = freed (inn m)"
    "graveyard (inn ?m) = graveyard (inn m)" "active_threads (inn ?m) = active_threads (inn m)"
    "phantoms_dropped (inn ?m) = phantoms_dropped (inn m)" "inflight ?m = remove1 t (inflight m)"
    "refs ?m = refs m" "phase ?m = phase m" for x
    by (auto simp: us)
  have "wf_slots ?m = wf_slots m" unfolding wf_slots_def S by simp
  moreover have "wf_own ?m = wf_own m" unfolding wf_own_def S by simp
  moreover have "wf_running ?m = wf_running m" unfolding wf_running_def on_cpu_def S by simp
  moreover have "wf_states ?m"
  proof (rule wf_statesI, unfold S)
    show "cur m d = Some x \<Longrightarrow> (if x = t \<and> w then Ready else th_state (thr m x)) = Running" for d x
      using cur_state [OF I(4), of d x] by (auto simp: w_def)
    show "hnd m d = Some (x, False) \<Longrightarrow> \<not> is_idle (thr m x) \<Longrightarrow>
        (if x = t \<and> w then Ready else th_state (thr m x)) = Ready" for d x
      using hnd_plain_state [OF I(4), of d x] by (auto simp: w_def)
    show "hnd m d = Some (x, True) \<Longrightarrow> (if x = t \<and> w then Ready else th_state (thr m x)) = Blocked \<or>
        (if x = t \<and> w then Ready else th_state (thr m x)) = Exited" for d x
      using hnd_block_state [OF I(4), of d x] th [of d True] by auto
    show "x < fresh (inn m) \<Longrightarrow> is_idle (thr m x) \<Longrightarrow>
        (if x = t \<and> w then Ready else th_state (thr m x)) = Ready \<or>
        (if x = t \<and> w then Ready else th_state (thr m x)) = Running" for x
      using idle_state [OF I(4), of x] by auto
  qed
  moreover have "wf_ready ?m"
  proof (cases w)
    case True
    then have "th_state (thr m t) = Blocked" "\<not> running (thr m t)" by (simp_all add: w_def)
    with True show ?thesis
      using I(5) tq ti tc unfolding wf_ready_def S by simp
  next
    case False
    then show ?thesis using I(5) unfolding wf_ready_def S by simp
  qed
  moreover have "no_lost_wake ?m"
    unfolding no_lost_wake_def S
  proof (intro allI impI)
    fix x assume x: "x < fresh (inn m)" "(if x = t \<and> w then Ready else th_state (thr m x)) = Blocked"
      "wake_pending (thr m x)"
    show "x \<in> set (remove1 t (inflight m)) \<or> (\<exists>d. hnd m d = Some (x, True))"
    proof (cases "x = t")
      case True
      with x have st: "th_state (thr m t) = Blocked" "running (thr m t)" by (auto simp: w_def split: if_splits)
      then obtain d b where d: "hnd m d = Some (t, b)"
        using I(3) tf tc by (auto simp: wf_running_def on_cpu_def)
      have b using d st ti hnd_plain_state [OF I(4), of d t] by (cases b) auto
      with d True show ?thesis by auto
    next
      case False
      with x show ?thesis using no_lost_wakeD [OF I(6), of x] by auto
    qed
  qed
  moreover have "no_lost_ready ?m"
    using I(7) unfolding no_lost_ready_def S by auto
  moreover have "wf_alloc ?m"
    using I(8) tf unfolding wf_alloc_def S by (auto dest: notin_set_remove1)
  moreover have "wf_dead ?m"
    using I(9) unfolding wf_dead_def S by (auto simp: w_def)
  moreover have "wf_tasks ?m" by (rule wf_tasks_cong [OF I(10)]) (simp_all only: S)
  ultimately show ?thesis using I unfolding sched_inv_def S by simp
qed

lemma push_new_inv:
  assumes inv: "sched_inv m" and s': "push_new mk (inn m) = (i, s')"
    and mk: "th_state (mk i) = Ready" "\<not> is_idle (mk i)" "\<not> running (mk i)" "\<not> wake_pending (mk i)"
  shows "sched_inv (m\<lparr>inn := s'\<rparr>)" (is "sched_inv ?m")
proof -
  note I = sched_invD [OF inv]
  let ?f = "fresh (inn m)"
  have i: "i = next_tid (inn m)" using s' by (simp add: push_new_def Let_def alloc_thread_def split: option.splits)
  have S: "thr ?m = (threads (inn m))(?f := mk i)" "fresh (inn ?m) = Suc ?f"
    "cpus (inn ?m) = cpus (inn m)" "ready (inn ?m) = ready (inn m) @ [?f]"
    "graveyard (inn ?m) = graveyard (inn m)" "freed (inn ?m) = freed (inn m)"
    "phantoms_dropped (inn ?m) = phantoms_dropped (inn m)" "inflight ?m = inflight m"
    "refs ?m = refs m" "phase ?m = phase m"
    "active_threads (inn ?m) k = active_threads (inn m) k + (if task (mk i) = Some k then 1 else 0)" for k
    using s' by (auto simp: push_new_def Let_def alloc_thread_def i split: option.splits)
  have nf: "cur m c \<noteq> Some ?f" "idl m c \<noteq> Some ?f" "hnd m c \<noteq> Some (?f, b)" for c b
    using cur_alloc [OF I(8), of c ?f] idl_alloc [OF I(8), of c ?f] hnd_alloc [OF I(8), of c ?f b] by auto
  have nq: "?f \<notin> set (ready (inn m))" "?f \<notin> set (graveyard (inn m))" "?f \<notin> set (freed (inn m))"
    using ready_alloc [OF I(8), of ?f] I(9) by (auto simp: wf_dead_def)
  have "wf_slots ?m = wf_slots m" unfolding wf_slots_def S ..
  moreover have "wf_own ?m"
  proof (rule wf_ownI, unfold S)
    show "cur m d = Some t \<Longrightarrow> cur m e = Some t \<Longrightarrow> d = e" for d e t by (rule cur_inj [OF I(2)])
    show "hnd m d = Some (t, x) \<Longrightarrow> hnd m e = Some (t, y) \<Longrightarrow> d = e" for d e t x y by (rule hnd_inj [OF I(2)])
    show "hnd m d = Some (t, x) \<Longrightarrow> cur m e \<noteq> Some t" for d e t x by (rule hnd_not_cur [OF I(2)])
    show "idl m d = Some t \<Longrightarrow> idl m e = Some t \<Longrightarrow> d = e" for d e t by (rule idl_inj [OF I(2)])
    show "idl m d = Some t \<Longrightarrow> is_idle (((thr m)(?f := mk i)) t)" for d t
      using idl_idle [OF I(2), of d t] nf by (cases "t = ?f") auto
    show "cur m d = Some t \<Longrightarrow> is_idle (((thr m)(?f := mk i)) t) \<Longrightarrow> idl m d = Some t" for d t
      using cur_idle [OF I(2), of d t] nf by (cases "t = ?f") auto
    show "hnd m d = Some (t, x) \<Longrightarrow> is_idle (((thr m)(?f := mk i)) t) \<Longrightarrow> idl m d = Some t \<and> \<not> x" for d t x
      using hnd_idle [OF I(2), of d t x] hnd_idle_plain [OF I(2), of d t] nf
      by (cases "t = ?f"; cases x) auto
  qed
  moreover have "wf_running ?m"
  proof -
    have "on_cpu ?m d x = on_cpu m d x" for d x unfolding on_cpu_def S ..
    then show ?thesis using I(3) mk nf unfolding wf_running_def S
      by (auto simp: less_Suc_eq on_cpu_def)
  qed
  moreover have "wf_states ?m"
  proof (rule wf_statesI, unfold S)
    show "cur m d = Some t \<Longrightarrow> th_state (((thr m)(?f := mk i)) t) = Running" for d t
      using cur_state [OF I(4), of d t] nf by (cases "t = ?f") auto
    show "hnd m d = Some (t, False) \<Longrightarrow> \<not> is_idle (((thr m)(?f := mk i)) t) \<Longrightarrow>
        th_state (((thr m)(?f := mk i)) t) = Ready" for d t
      using hnd_plain_state [OF I(4), of d t] nf by (cases "t = ?f") auto
    show "hnd m d = Some (t, True) \<Longrightarrow> th_state (((thr m)(?f := mk i)) t) = Blocked \<or>
        th_state (((thr m)(?f := mk i)) t) = Exited" for d t
      using hnd_block_state [OF I(4), of d t] nf by (cases "t = ?f") auto
    show "t < Suc ?f \<Longrightarrow> is_idle (((thr m)(?f := mk i)) t) \<Longrightarrow>
        th_state (((thr m)(?f := mk i)) t) = Ready \<or> th_state (((thr m)(?f := mk i)) t) = Running" for t
      using idle_state [OF I(4), of t] mk by (cases "t = ?f") auto
  qed
  moreover have "wf_ready ?m"
    using I(5) mk nf nq unfolding wf_ready_def S by auto
  moreover have "no_lost_wake ?m"
    using I(6) mk unfolding no_lost_wake_def S by (auto simp: less_Suc_eq)
  moreover have "no_lost_ready ?m"
    using I(7) unfolding no_lost_ready_def S by (auto simp: less_Suc_eq)
  moreover have "wf_alloc ?m"
    using I(8) unfolding wf_alloc_def S by (auto simp: less_Suc_eq)
  moreover have "wf_dead ?m"
    using I(9) nq unfolding wf_dead_def S by (auto simp: less_Suc_eq)
  moreover have "wf_tasks ?m"
  proof -
    have "{t. t < Suc ?f \<and> t \<notin> set (freed (inn m)) \<and> task (((thr m)(?f := mk i)) t) = Some k} =
        {t. t < ?f \<and> t \<notin> set (freed (inn m)) \<and> task (thr m t) = Some k} \<union>
        (if task (mk i) = Some k then {?f} else {})" for k
      using nq by (auto simp: less_Suc_eq split: if_splits)
    then show ?thesis using I(10) unfolding wf_tasks_def S by (simp add: card_Un_disjoint)
  qed
  ultimately show ?thesis using I unfolding sched_inv_def S by simp
qed

lemma enter_inv:
  assumes inv: "sched_inv m" and ph: "phase m c = Offline" and c: "c < MAX_CPUS"
  shows "sched_inv (m\<lparr>inn := cpu_enter c (inn m), phase := (phase m)(c := Exec)\<rparr>)" (is "sched_inv ?m")
proof -
  note I = sched_invD [OF inv]
  let ?f = "fresh (inn m)" and ?me = "adopting (idle_tid c) True"
  have e: "cpus (inn m) c = empty_slot" using offline_slot [OF I(1) ph] .
  have S: "thr ?m = (threads (inn m))(?f := ?me)" "fresh (inn ?m) = Suc ?f"
    "cur ?m d = (if d = c then Some ?f else cur m d)" "idl ?m d = (if d = c then Some ?f else idl m d)"
    "hnd ?m d = hnd m d" "ready (inn ?m) = ready (inn m)"
    "graveyard (inn ?m) = graveyard (inn m)" "freed (inn ?m) = freed (inn m)"
    "phantoms_dropped (inn ?m) = phantoms_dropped (inn m)" "inflight ?m = inflight m"
    "refs ?m = refs m" "phase ?m d = (if d = c then Exec else phase m d)"
    "active_threads (inn ?m) = active_threads (inn m)" for d
    using e by (auto simp: cpu_enter_def alloc_thread_def Let_def empty_slot_def)
  have nf: "cur m d \<noteq> Some ?f" "idl m d \<noteq> Some ?f" "hnd m d \<noteq> Some (?f, b)" for d b
    using cur_alloc [OF I(8), of d ?f] idl_alloc [OF I(8), of d ?f] hnd_alloc [OF I(8), of d ?f b] by auto
  have nq: "?f \<notin> set (ready (inn m))" "?f \<notin> set (graveyard (inn m))" "?f \<notin> set (freed (inn m))"
    using ready_alloc [OF I(8), of ?f] I(9) by (auto simp: wf_dead_def)
  have me: "th_state ?me = Running" "is_idle ?me" "running ?me" "task ?me = None" "\<not> wake_pending ?me"
    by (simp_all add: adopting_def)
  have ec: "cur m c = None" "idl m c = None" "hnd m c = None" using e by (simp_all add: empty_slot_def)
  have "wf_slots ?m"
    using I(1) ph c unfolding wf_slots_def S by (auto simp: cpu_enter_def alloc_thread_def Let_def)
  moreover have "wf_own ?m"
  proof (rule wf_ownI, unfold S)
    show "(if d = c then Some ?f else cur m d) = Some t \<Longrightarrow> (if e = c then Some ?f else cur m e) = Some t \<Longrightarrow> d = e" for d e t
      using cur_inj [OF I(2), of d t e] nf by (auto split: if_splits)
    show "hnd m d = Some (t, x) \<Longrightarrow> hnd m e = Some (t, y) \<Longrightarrow> d = e" for d e t x y by (rule hnd_inj [OF I(2)])
    show "hnd m d = Some (t, x) \<Longrightarrow> (if e = c then Some ?f else cur m e) \<noteq> Some t" for d e t x
      using hnd_not_cur [OF I(2), of d t x e] nf by auto
    show "(if d = c then Some ?f else idl m d) = Some t \<Longrightarrow> (if e = c then Some ?f else idl m e) = Some t \<Longrightarrow> d = e" for d e t
      using idl_inj [OF I(2), of d t e] nf by (auto split: if_splits)
    show "(if d = c then Some ?f else idl m d) = Some t \<Longrightarrow> is_idle (((thr m)(?f := ?me)) t)" for d t
      using idl_idle [OF I(2), of d t] nf me by (auto split: if_splits)
    show "(if d = c then Some ?f else cur m d) = Some t \<Longrightarrow> is_idle (((thr m)(?f := ?me)) t) \<Longrightarrow>
        (if d = c then Some ?f else idl m d) = Some t" for d t
      using cur_idle [OF I(2), of d t] nf by (auto split: if_splits)
    show "hnd m d = Some (t, x) \<Longrightarrow> is_idle (((thr m)(?f := ?me)) t) \<Longrightarrow>
        (if d = c then Some ?f else idl m d) = Some t \<and> \<not> x" for d t x
      using hnd_idle [OF I(2), of d t x] hnd_idle_plain [OF I(2), of d t] nf ec
      by (cases x) (auto split: if_splits)
  qed
  moreover have "wf_running ?m"
  proof -
    have "on_cpu ?m d x \<longleftrightarrow> on_cpu m d x \<or> (d = c \<and> x = ?f)" for d x
      using ec unfolding on_cpu_def S by auto
    moreover have "\<not> on_cpu m d ?f" for d using nf by (auto simp: on_cpu_def)
    ultimately show ?thesis using I(3) me unfolding wf_running_def S by (auto simp: less_Suc_eq)
  qed
  moreover have "wf_states ?m"
  proof (rule wf_statesI, unfold S)
    show "(if d = c then Some ?f else cur m d) = Some t \<Longrightarrow> th_state (((thr m)(?f := ?me)) t) = Running" for d t
      using cur_state [OF I(4), of d t] nf me by (auto split: if_splits)
    show "hnd m d = Some (t, False) \<Longrightarrow> \<not> is_idle (((thr m)(?f := ?me)) t) \<Longrightarrow>
        th_state (((thr m)(?f := ?me)) t) = Ready" for d t
      using hnd_plain_state [OF I(4), of d t] nf by (cases "t = ?f") auto
    show "hnd m d = Some (t, True) \<Longrightarrow> th_state (((thr m)(?f := ?me)) t) = Blocked \<or>
        th_state (((thr m)(?f := ?me)) t) = Exited" for d t
      using hnd_block_state [OF I(4), of d t] nf by (cases "t = ?f") auto
    show "t < Suc ?f \<Longrightarrow> is_idle (((thr m)(?f := ?me)) t) \<Longrightarrow>
        th_state (((thr m)(?f := ?me)) t) = Ready \<or> th_state (((thr m)(?f := ?me)) t) = Running" for t
      using idle_state [OF I(4), of t] me by (cases "t = ?f") auto
  qed
  moreover have "wf_ready ?m"
    using I(5) nq unfolding wf_ready_def S by auto
  moreover have "no_lost_wake ?m"
    using I(6) me unfolding no_lost_wake_def S by (auto simp: less_Suc_eq)
  moreover have "no_lost_ready ?m"
    using I(7) me unfolding no_lost_ready_def S by (auto simp: less_Suc_eq)
  moreover have "wf_alloc ?m"
    using I(8) unfolding wf_alloc_def S by (auto simp: less_Suc_eq)
  moreover have "wf_dead ?m"
    using I(9) nq unfolding wf_dead_def S by (auto simp: less_Suc_eq)
  moreover have "wf_tasks ?m"
  proof -
    have "{t. t < Suc ?f \<and> t \<notin> set (freed (inn m)) \<and> task (((thr m)(?f := ?me)) t) = Some k} =
        {t. t < ?f \<and> t \<notin> set (freed (inn m)) \<and> task (thr m t) = Some k}" for k
      using nq me by (auto simp: less_Suc_eq split: if_splits)
    then show ?thesis using I(10) unfolding wf_tasks_def S by simp
  qed
  ultimately show ?thesis using I unfolding sched_inv_def S by simp
qed

lemma drop_corpse_simps [simp]:
  "threads (drop_corpse sr i s) = threads s" "fresh (drop_corpse sr i s) = fresh s"
  "ready (drop_corpse sr i s) = ready s" "cpus (drop_corpse sr i s) = cpus s"
  "freed (drop_corpse sr i s) = graveyard s ! i # freed s"
  "phantoms_dropped (drop_corpse sr i s) = phantoms_dropped s"
  "active_threads (drop_corpse sr i s) k =
     (if task (threads s (graveyard s ! i)) = Some k then active_threads s k - 1 else active_threads s k)"
  by (auto simp: drop_corpse_def Let_def split: option.split)

lemma drop_corpse_inv:
  assumes inv: "sched_inv m" and i: "i < length (graveyard (inn m))"
    and dead: "is_dead (ext_refs m) (inn m) (graveyard (inn m) ! i)"
  shows "sched_inv (m\<lparr>inn := drop_corpse sr i (inn m)\<rparr>)" (is "sched_inv ?m")
proof -
  note I = sched_invD [OF inv]
  let ?t = "graveyard (inn m) ! i"
  have tg: "?t \<in> set (graveyard (inn m))" using i by simp
  have "count_list (graveyard (inn m)) ?t \<noteq> 0" using tg by (simp add: count_list_0_iff)
  then have ext: "refs m ?t = 0" "count_list (inflight m) ?t = 0" and nr: "\<not> running (thr m ?t)"
    using dead by (auto simp: is_dead_def strong_count_def)
  have ti: "?t \<notin> set (inflight m)" using ext by (simp add: count_list_0_iff)
  have tf: "?t < fresh (inn m)" "?t \<notin> set (freed (inn m))" "th_state (thr m ?t) = Exited"
    using tg I(9) by (auto simp: wf_dead_def)
  have gs: "distinct (swap_remove i (graveyard (inn m)))"
    "set (swap_remove i (graveyard (inn m))) = set (graveyard (inn m)) - {?t}"
  proof -
    have d: "distinct (graveyard (inn m))" using I(9) by (simp add: wf_dead_def)
    then have e: "mset (swap_remove i (graveyard (inn m))) = mset_set (set (graveyard (inn m)) - {?t})"
      using i by (simp add: mset_set_Diff flip: mset_set_set)
    have "set (swap_remove i (graveyard (inn m))) = set_mset (mset (swap_remove i (graveyard (inn m))))" by simp
    then show s: "set (swap_remove i (graveyard (inn m))) = set (graveyard (inn m)) - {?t}" by (simp add: e)
    show "distinct (swap_remove i (graveyard (inn m)))"
      using d i tg by (intro card_distinct) (simp add: s distinct_card)
  qed
  have "wf_slots ?m = wf_slots m" unfolding wf_slots_def by simp
  moreover have "wf_own ?m = wf_own m" unfolding wf_own_def by simp
  moreover have "wf_running ?m = wf_running m" unfolding wf_running_def on_cpu_def by simp
  moreover have "wf_states ?m = wf_states m" unfolding wf_states_def by simp
  moreover have "wf_ready ?m = wf_ready m" unfolding wf_ready_def by simp
  moreover have "no_lost_wake ?m = no_lost_wake m" unfolding no_lost_wake_def by simp
  moreover have "no_lost_ready ?m = no_lost_ready m" unfolding no_lost_ready_def by simp
  moreover have "wf_alloc ?m" using I(8) ti ext unfolding wf_alloc_def by auto
  moreover have "wf_dead ?m" using I(9) gs tf nr unfolding wf_dead_def by auto
  moreover have "wf_tasks ?m"
    unfolding wf_tasks_def
  proof
    fix k
    let ?A = "{t. t < fresh (inn m) \<and> t \<notin> set (freed (inn m)) \<and> task (thr m t) = Some k}"
    have "{t. t < fresh (inn ?m) \<and> t \<notin> set (freed (inn ?m)) \<and> task (thr ?m t) = Some k} = ?A - {?t}"
      by auto
    then show "active_threads (inn ?m) k =
        card {t. t < fresh (inn ?m) \<and> t \<notin> set (freed (inn ?m)) \<and> task (thr ?m t) = Some k}"
      using I(10) tf unfolding wf_tasks_def by (simp add: card_Diff_singleton_if)
  qed
  ultimately show ?thesis using I by (simp add: sched_inv_def)
qed

lemma reap_loop_inv:
  "sched_inv (m\<lparr>inn := s\<rparr>) \<Longrightarrow> sched_inv (m\<lparr>inn := reap_loop (ext_refs m) sr i s\<rparr>)"
proof (induction "ext_refs m" sr i s rule: reap_loop.induct)
  case (1 sr i s)
  show ?case
    using 1 drop_corpse_inv [of "m\<lparr>inn := s\<rparr>" i sr] by (subst reap_loop.simps) simp
qed

lemma reap_inv: "sched_inv m \<Longrightarrow> sched_inv (m\<lparr>inn := reap (ext_refs m) sr (inn m)\<rparr>)"
  using reap_loop_inv [where m = m and s = "inn m"] by (simp add: reap_def)

theorem sched_step_inv: "sched_step m m' \<Longrightarrow> sched_inv m \<Longrightarrow> sched_inv m'"
proof (induction rule: sched_step.induct)
  case (stay m c t blk s')
  from reschedule_cases [OF stay(5) stay(1-3)] stay(4,5) show ?case 
    by (metis Inl_inject option.inject sum.distinct(1) machine.surjective machine.update_convs(1))
next
  case (switch m c t blk s')
  from reschedule_cases [OF switch(5) switch(1-3)] switch(4) show ?case
    by (metis Inr_inject option.inject sum.distinct(1))
next
  case (exit m c t s')
  then show ?case by (metis exit_cases option.inject)
next
  case (mark m c t)
  have "\<forall>x. x \<in> set (inflight m) \<or> 0 < refs m x \<longrightarrow> x < fresh (inn m) \<and> x \<notin> set (freed (inn m))"
    using inflight_alloc [OF sched_invD(8) [OF mark(3)]] refs_alloc [OF sched_invD(8) [OF mark(3)]] by blast
  then show ?case
    using wake_inv [OF mark(3) refl, where t = t and w = False and f = "inflight m" and r = "refs m"]
    by (simp add: mark_blocking_def)
next
  case (claim m c t s')
  then show ?case using claim_inv [of m c t] by (auto simp: claim_swap_def)
next
  case (spin m c t s')
  then show ?case using claim_free by (simp add: claim_swap_def)
next
  case (wake_store m t)
  have "\<forall>x. x \<in> set (t # inflight m) \<or> 0 < ((refs m)(t := refs m t - 1)) x \<longrightarrow>
      x < fresh (inn m) \<and> x \<notin> set (freed (inn m))"
    using inflight_alloc [OF sched_invD(8) [OF wake_store(2)]]
      refs_alloc [OF sched_invD(8) [OF wake_store(2)]] wake_store(1) by (auto split: if_splits)
  then show ?case
    using wake_inv [OF wake_store(2) refl, where t = t and w = True and f = "t # inflight m"
        and r = "(refs m)(t := refs m t - 1)"]
    by (simp add: unblock_store_def subset_insertI)
next
  case (ref_clone t m)
  then show ?case using refs_alloc [OF sched_invD(8)] by (intro refs_inv) auto
next
  case (ref_drop m t)
  then show ?case
    using refs_alloc [OF sched_invD(8) [OF ref_drop(2)]] by (intro refs_inv) (auto split: if_splits)
qed (auto intro: land_inv finish_inv unblock_inv enter_inv reap_inv
      push_new_inv [where mk = "\<lambda>i. spawned i False"] push_new_inv [where mk = "\<lambda>i. spawned_user i k gs" for k gs]
      push_new_inv [where mk = "\<lambda>i. spawned_user_frame i k gs" for k gs]
      simp: spawn_def spawn_user_def spawn_user_pe_def spawn_user_frame_def spawned_def
        spawned_user_def spawned_user_frame_def)

interpretation sched: invariant_system "\<lambda>m. m = boot" sched_step sched_inv
  by unfold_locales (auto intro: inv_boot sched_step_inv)

end
