(* ===== verification/Sched_Props.thy ===== *)
theory Sched_Props
  imports Sched_Inv
begin

text \<open>
  What the scheduler promises in every state the interleaved machine can reach from
  boot, with a run for each: stack exclusivity, no lost wake, no lost or stale ready entry,
  no spinning on a claim, and the safety of reaping threads and address spaces.
\<close>

section \<open>What holds in every reachable state\<close>

definition stack_of :: "machine \<Rightarrow> nat \<Rightarrow> nat option" where
  "stack_of m c =
     (case phase m c of Offline \<Rightarrow> None
      | Spin \<Rightarrow> map_option fst (hnd m c) | Claimed \<Rightarrow> map_option fst (hnd m c)
      | Exec \<Rightarrow> cur m c | Landed \<Rightarrow> cur m c)"

lemma reachable_sched_inv: "sched_step\<^sup>*\<^sup>* boot m \<Longrightarrow> sched_inv m"
  by (rule sched.reachable_inv [OF refl])

lemma stack_of_on_cpu: "stack_of m c = Some t \<Longrightarrow> on_cpu m c t"
  by (auto simp: stack_of_def on_cpu_def split: phase.splits option.splits)

lemma on_cpu_inj:
  assumes "wf_own m" "on_cpu m c t" "on_cpu m d t"
  shows "c = d"
  using assms cur_inj hnd_inj hnd_not_cur unfolding on_cpu_def by metis

lemma finish_requeues:
  assumes "hnd m c = Some (t, b)" "\<not> is_idle (thr m t)" "th_state (thr m t) \<noteq> Exited"
    "b \<longrightarrow> wake_pending (thr m t)" "t \<notin> set (ready (inn m))"
  shows "t \<in> set (ready (finish_switch c (inn m)))"
    "th_state (threads (finish_switch c (inn m)) t) = Ready"
    "\<not> running (threads (finish_switch c (inn m)) t)"
  using assms by (auto simp: finish_switch_def Let_def)

lemma hnd_not_ready:
  assumes inv: "sched_inv m" and h: "hnd m c = Some (t, b)"
  shows "t \<notin> set (ready (inn m))"
proof -
  have "running (thr m t)"
    using sched_invD(3) [OF inv] hnd_alloc [OF sched_invD(8) [OF inv] h] h
    by (auto simp: wf_running_def on_cpu_def)
  then show ?thesis using ready_parked [OF sched_invD(5) [OF inv]] by blast
qed

lemma hnd_phase:
  "sched_inv m \<Longrightarrow> hnd m c = Some x \<Longrightarrow> phase m c \<in> {Spin, Claimed, Landed}"
  using hnd_None [OF sched_invD(1), of m c] by (cases "phase m c") auto

text \<open>C1. No kernel stack is shared: in every reachable state of the interleaved machine,
  a thread whose kernel stack one CPU is on is on no other CPU, through yields,
  preemption, blocking, exits, wakes and CPU start-up.\<close>

theorem kernel_stack_exclusive:
  assumes "sched_step\<^sup>*\<^sup>* boot m" and "stack_of m c = Some t" and "d \<noteq> c"
  shows "stack_of m d \<noteq> Some t"
  using on_cpu_inj [OF sched_invD(2) [OF reachable_sched_inv [OF assms(1)]]]
    stack_of_on_cpu [OF assms(2)] stack_of_on_cpu [of m d t] assms(3) by blast

lemma two_cpu_run:
  "sched_step\<^sup>*\<^sup>* boot (boot\<lparr>inn := cpu_enter 1 (inn boot), phase := (phase boot)(1 := Exec)\<rparr>)"
  by (rule r_into_rtranclp, rule sched_step.enter) (simp_all add: boot_def MAX_CPUS_def)

theorem kernel_stack_exclusive_witness:
  "stack_of (boot\<lparr>inn := cpu_enter 1 (inn boot), phase := (phase boot)(1 := Exec)\<rparr>) 0 = Some 0 \<and>
   stack_of (boot\<lparr>inn := cpu_enter 1 (inn boot), phase := (phase boot)(1 := Exec)\<rparr>) 1 \<noteq> Some 0"
  (is "?A \<and> ?B")
proof
  show a: ?A
    by (simp add: stack_of_def boot_def cpu_enter_def alloc_thread_def init_bsp_def sched_static_def
        set_cpu_def Let_def)
  show ?B using kernel_stack_exclusive [OF two_cpu_run a, of 1] by simp
qed

text \<open>C2. A wake is never lost: a thread that is blocked with a wake pending, once the waker
  has left \<open>unblock\<close>, is still held by a CPU that is switching away from it, and the
  \<open>finish_switch\<close> of that CPU puts it on the ready queue as runnable.\<close>

theorem wakeup_never_lost:
  assumes reach: "sched_step\<^sup>*\<^sup>* boot m" and t: "t < fresh (inn m)"
    "th_state (threads (inn m) t) = Blocked" "wake_pending (threads (inn m) t)" "t \<notin> set (inflight m)"
  shows "\<exists>c. handoff (cpus (inn m) c) = Some (t, True) \<and> phase m c \<in> {Spin, Claimed, Landed} \<and>
           t \<in> set (ready (finish_switch c (inn m))) \<and>
           th_state (threads (finish_switch c (inn m)) t) = Ready"
proof -
  note inv = reachable_sched_inv [OF reach]
  from no_lost_wakeD [OF sched_invD(6) [OF inv]] t obtain c where c: "hnd m c = Some (t, True)" by blast
  moreover have "\<not> is_idle (thr m t)" using hnd_idle_plain [OF sched_invD(2) [OF inv] c] .
  ultimately show ?thesis
    using finish_requeues [OF c] hnd_not_ready [OF inv c] hnd_phase [OF inv c] t by auto
qed

text \<open>
  The race the flag is for: thread 0 blocks while a waker, which sees it still
  \<open>running\<close>, leaves without queueing it.
\<close>

definition race1 :: machine where
  "race1 = boot\<lparr>inn := snd (spawn (inn boot)), refs := (refs boot)(0 := 1)\<rparr>"

definition race2 :: machine where
  "race2 = (let s = commit_switch 0 0 True (Suc (Suc 0)) ((inn race1)\<lparr>ready := []\<rparr>)
            in race1\<lparr>inn := s\<lparr>ctx_switches := Suc (ctx_switches s)\<rparr>,
                     phase := (phase race1)(0 := Spin)\<rparr>)"

definition race3 :: machine where
  "race3 = race2\<lparr>refs := (refs race2)(0 := 0), inn := unblock_store 0 (inn race2), inflight := []\<rparr>"

lemmas run_defs = boot_def alloc_thread_def init_bsp_def sched_static_def set_cpu_def Let_def
  adopting_def spawned_def spawn_def push_new_def empty_slot_def

lemma race1_run: "sched_step\<^sup>*\<^sup>* boot race1"
proof -
  have "sched_step boot (boot\<lparr>inn := snd (spawn (inn boot))\<rparr>)"
    by (rule sched_step.spawn_kernel [of _ "fst (spawn (inn boot))"]) simp
  moreover have "sched_step (boot\<lparr>inn := snd (spawn (inn boot))\<rparr>) race1"
    using sched_step.ref_clone [of 0 "boot\<lparr>inn := snd (spawn (inn boot))\<rparr>"]
    by (simp add: race1_def run_defs)
  ultimately show ?thesis by (meson r_into_rtranclp rtranclp.rtrancl_into_rtrancl)
qed

lemma race1_pick: "reschedule 0 True (inn race1) = Some (Inr (commit_switch 0 0 True (Suc (Suc 0)) ((inn race1)\<lparr>ready := []\<rparr>)))"
  by (simp add: reschedule_def race1_def run_defs pick_next_def stale_def MAX_CPUS_def list_ex_iff)

lemma race2_run: "sched_step race1 race2"
  unfolding race2_def Let_def
  by (rule sched_step.switch [OF _ _ _ race1_pick, of 0]) (simp_all add: race1_def run_defs)

lemma race3_run: "sched_step\<^sup>*\<^sup>* race2 race3"
proof -
  let ?m = "race2\<lparr>inn := unblock_store 0 (inn race2), inflight := [0], refs := (refs race2)(0 := 0)\<rparr>"
  have r: "refs race2 0 = 1" "inflight race2 = []" by (simp_all add: race2_def race1_def boot_def Let_def)
  have "sched_step race2 ?m" using sched_step.wake_store [of race2 0] r by simp
  moreover have "running (threads (inn ?m) 0)"
    by (simp add: unblock_store_def race2_def race1_def run_defs commit_switch_def)
  then have "sched_step ?m race3"
    using sched_step.wake_locked [of 0 ?m] r by (simp add: unblock_locked_def race3_def)
  ultimately show ?thesis by (meson r_into_rtranclp rtranclp.rtrancl_into_rtrancl)
qed

lemma race_run: "sched_step\<^sup>*\<^sup>* boot race3"
  using race1_run race2_run race3_run by (meson r_into_rtranclp rtranclp_trans)

theorem wakeup_never_lost_witness:
  "th_state (threads (inn race3) 0) = Blocked \<and> wake_pending (threads (inn race3) 0) \<and>
   (\<exists>c. handoff (cpus (inn race3) c) = Some (0, True) \<and> phase race3 c \<in> {Spin, Claimed, Landed} \<and>
      0 \<in> set (ready (finish_switch c (inn race3))) \<and>
      th_state (threads (finish_switch c (inn race3)) 0) = Ready)"
proof (intro conjI)
  show b: "th_state (threads (inn race3) 0) = Blocked" and w: "wake_pending (threads (inn race3) 0)"
    by (simp_all add: race3_def race2_def race1_def run_defs commit_switch_def unblock_store_def)
  show "\<exists>c. handoff (cpus (inn race3) c) = Some (0, True) \<and> phase race3 c \<in> {Spin, Claimed, Landed} \<and>
      0 \<in> set (ready (finish_switch c (inn race3))) \<and>
      th_state (threads (finish_switch c (inn race3)) 0) = Ready"
    by (rule wakeup_never_lost [OF race_run _ b w])
      (simp_all add: race3_def race2_def race1_def run_defs commit_switch_def unblock_store_def)
qed

lemma count_list_distinct: "distinct xs \<Longrightarrow> x \<in> set xs \<Longrightarrow> count_list xs x = Suc 0"
  by (induction xs) (auto simp: count_notin)

text \<open>C3. The scheduler always finds a thread and never meets a stale entry: on a CPU that
  executes a thread, \<open>pick_next\<close> returns the head of the ready queue, or the CPU's idle
  thread when the queue is empty, it drops nothing, and neither \<open>reschedule\<close> nor
  \<open>exit\<close> can hit one of its panics.\<close>

theorem pick_next_fifo_no_phantoms:
  assumes reach: "sched_step\<^sup>*\<^sup>* boot m" and ph: "phase m c = Exec"
    and p: "current (cpus (inn m) c) = Some p"
  shows "(\<exists>n s'. pick_next c (inn m) = Some (n, s') \<and> phantoms_dropped s' = 0 \<and>
           (case ready (inn m) of [] \<Rightarrow> idle (cpus (inn m) c) = Some n \<and> ready s' = []
                                | t # q \<Rightarrow> n = t \<and> ready s' = q)) \<and>
         reschedule c blk (inn m) \<noteq> None \<and>
         (exit_thread c (inn m) \<noteq> None \<or> is_idle (threads (inn m) p))"
    (is "?pick \<and> ?resched \<and> ?exit")
proof (intro conjI)
  note inv = reachable_sched_inv [OF reach]
  note I = sched_invD [OF inv]
  have on: "phase m c \<noteq> Offline" using ph by simp
  show pick: ?pick
    by (rule pick_next_inv [OF I(1,5) on]) (auto simp: I(11))
  then show ?resched using p by (auto simp: reschedule_def)
  show ?exit using exit_cases [OF inv ph p] by (metis option.distinct(1))
qed

theorem pick_next_fifo_no_phantoms_witness:
  "ready (inn race1) = [Suc (Suc 0)] \<and>
   (\<exists>n s'. pick_next 0 (inn race1) = Some (n, s') \<and> phantoms_dropped s' = 0 \<and>
      n = Suc (Suc 0) \<and> ready s' = []) \<and> reschedule 0 True (inn race1) \<noteq> None"
proof -
  have ph: "phase race1 0 = Exec" and c: "current (cpus (inn race1) 0) = Some 0"
    and r: "ready (inn race1) = [Suc (Suc 0)]"
    by (simp_all add: race1_def run_defs)
  show ?thesis using pick_next_fifo_no_phantoms [OF race1_run ph c, of True] r by simp
qed

text \<open>C4. A runnable thread is never dropped: a thread that is \<open>Ready\<close> (and not an idle
  thread) is on the ready queue exactly once, or a CPU that is switching away from it holds
  it and its \<open>finish_switch\<close> queues it.\<close>

theorem runnable_never_dropped:
  assumes reach: "sched_step\<^sup>*\<^sup>* boot m" and t: "t < fresh (inn m)"
    "th_state (threads (inn m) t) = Ready" "\<not> is_idle (threads (inn m) t)"
  shows "count_list (ready (inn m)) t = 1 \<or>
    (\<exists>c. handoff (cpus (inn m) c) = Some (t, False) \<and> phase m c \<in> {Spin, Claimed, Landed} \<and>
       t \<in> set (ready (finish_switch c (inn m))))"
proof -
  note inv = reachable_sched_inv [OF reach]
  from no_lost_readyD [OF sched_invD(7) [OF inv] t] show ?thesis
  proof
    assume "t \<in> set (ready (inn m))"
    moreover have "distinct (ready (inn m))" using ready_distinct [OF sched_invD(5) [OF inv]] .
    ultimately show ?thesis
      by (simp add: count_list_distinct)
  next
    assume "\<exists>c. hnd m c = Some (t, False)"
    then obtain c where c: "hnd m c = Some (t, False)" ..
    with t show ?thesis
      using finish_requeues(1) [OF c] hnd_not_ready [OF inv c] hnd_phase [OF inv c] by auto
  qed
qed

theorem runnable_never_dropped_witness:
  "th_state (threads (inn race1) (Suc (Suc 0))) = Ready \<and>
   (count_list (ready (inn race1)) (Suc (Suc 0)) = 1 \<or>
    (\<exists>c. handoff (cpus (inn race1) c) = Some (Suc (Suc 0), False) \<and> phase race1 c \<in> {Spin, Claimed, Landed} \<and>
       Suc (Suc 0) \<in> set (ready (finish_switch c (inn race1)))))"
proof
  show r: "th_state (threads (inn race1) (Suc (Suc 0))) = Ready" by (simp add: race1_def run_defs)
  show "count_list (ready (inn race1)) (Suc (Suc 0)) = 1 \<or>
    (\<exists>c. handoff (cpus (inn race1) c) = Some (Suc (Suc 0), False) \<and> phase race1 c \<in> {Spin, Claimed, Landed} \<and>
       Suc (Suc 0) \<in> set (ready (finish_switch c (inn race1))))"
    by (rule runnable_never_dropped [OF race1_run _ r]) (simp_all add: race1_def run_defs)
qed

text \<open>The claim loop ends at its first iteration: when a CPU has committed a switch and
  swaps \<open>running\<close> of the thread it goes to, the old value is always false, so the
  \<open>while next.running.swap(true)\<close> loops of \<open>reschedule\<close> and \<open>exit\<close> never spin.\<close>

theorem claim_loop_never_spins:
  assumes "sched_step\<^sup>*\<^sup>* boot m" and "phase m c = Spin" and "current (cpus (inn m) c) = Some t"
  shows "fst (claim_swap t (inn m)) = False \<and> running (threads (snd (claim_swap t (inn m))) t)"
  using claim_free [OF reachable_sched_inv [OF assms(1)] assms(2,3)] by (simp add: claim_swap_def)

theorem claim_loop_never_spins_witness:
  "phase race3 0 = Spin \<and> current (cpus (inn race3) 0) = Some (Suc (Suc 0)) \<and>
   fst (claim_swap (Suc (Suc 0)) (inn race3)) = False \<and>
   running (threads (snd (claim_swap (Suc (Suc 0)) (inn race3))) (Suc (Suc 0)))"
proof (intro conjI)
  show p: "phase race3 0 = Spin" and c: "current (cpus (inn race3) 0) = Some (Suc (Suc 0))"
    by (simp_all add: race3_def race2_def race1_def run_defs commit_switch_def unblock_store_def)
  show "fst (claim_swap (Suc (Suc 0)) (inn race3)) = False"
    "running (threads (snd (claim_swap (Suc (Suc 0)) (inn race3))) (Suc (Suc 0)))"
    using claim_loop_never_spins [OF race_run p c] by auto
qed

lemma freed_unreferenced:
  assumes inv: "sched_inv m" and f: "t \<in> set (freed (inn m))"
  shows "\<not> on_cpu m c t" "cur m c \<noteq> Some t" "t \<notin> set (ready (inn m))" "ext_refs m t = 0"
proof -
  note I = sched_invD [OF inv]
  have t: "t < fresh (inn m)" "th_state (thr m t) = Exited" "\<not> running (thr m t)"
    using I(9) f by (auto simp: wf_dead_def)
  show "\<not> on_cpu m c t" using t I(3) by (auto simp: wf_running_def)
  show "cur m c \<noteq> Some t" using cur_state [OF I(4), of c t] t by auto
  show "t \<notin> set (ready (inn m))" using ready_state [OF I(5)] t by fastforce
  show "ext_refs m t = 0"
    using refs_alloc [OF I(8), of t] inflight_alloc [OF I(8), of t] f
    by (auto simp: count_list_0_iff)
qed

text \<open>C5. A freed thread is unreachable: once \<open>reap\<close> has dropped a corpse, no CPU is on its
  stack or about to run it, the ready queue does not hold it, and no waker has a reference,
  in every later state as well.\<close>

theorem reaped_thread_unreachable:
  assumes "sched_step\<^sup>*\<^sup>* boot m" and "t \<in> set (freed (inn m))"
  shows "stack_of m c \<noteq> Some t \<and> current (cpus (inn m) c) \<noteq> Some t \<and>
         t \<notin> set (ready (inn m)) \<and> refs m t = 0 \<and> t \<notin> set (inflight m)"
  using freed_unreferenced [OF reachable_sched_inv [OF assms(1)] assms(2)]
    stack_of_on_cpu [of m c t] by (auto simp: count_list_0_iff)

text \<open>Thread 0 exits, thread 2 takes over the CPU, and the corpse is reaped.\<close>

definition gone1 :: machine where
  "gone1 = race1\<lparr>inn := the (exit_thread 0 (inn race1)), phase := (phase race1)(0 := Spin)\<rparr>"

definition gone2 :: machine where
  "gone2 = gone1\<lparr>inn := set_running (Suc (Suc 0)) True (inn gone1), phase := (phase gone1)(0 := Claimed)\<rparr>"

definition gone3 :: machine where
  "gone3 = gone2\<lparr>phase := (phase gone2)(0 := Landed)\<rparr>"

definition gone4 :: machine where
  "gone4 = gone3\<lparr>inn := finish_switch 0 (inn gone3), phase := (phase gone3)(0 := Exec)\<rparr>"

definition gone5 :: machine where
  "gone5 = gone4\<lparr>refs := (refs gone4)(0 := 0)\<rparr>"

definition gone6 :: machine where
  "gone6 = gone5\<lparr>inn := reap (ext_refs gone5) (\<lambda>_. 1) (inn gone5)\<rparr>"

lemmas gone_defs = gone1_def gone2_def gone3_def gone4_def gone5_def race1_def run_defs
  exit_thread_def pick_next_def stale_def set_state_def set_running_def finish_switch_def

lemma gone_run: "sched_step\<^sup>*\<^sup>* boot gone6"
proof -
  have "sched_step race1 gone1"
    unfolding gone1_def
    by (rule sched_step.exit [of _ _ 0]) (simp_all add: gone_defs MAX_CPUS_def list_ex_iff)
  moreover have "sched_step gone1 gone2"
    unfolding gone2_def
    by (rule sched_step.claim [of _ _ "Suc (Suc 0)"]) (simp_all add: claim_swap_def gone_defs MAX_CPUS_def list_ex_iff)
  moreover have "sched_step gone2 gone3"
    unfolding gone3_def by (rule sched_step.land) (simp add: gone2_def)
  moreover have "sched_step gone3 gone4"
    unfolding gone4_def by (rule sched_step.finish) (simp add: gone3_def)
  moreover have "sched_step gone4 gone5"
    using sched_step.ref_drop [of gone4 0]
    by (simp add: gone5_def gone4_def gone3_def gone2_def gone1_def race1_def boot_def)
  moreover have "sched_step gone5 gone6"
    unfolding gone6_def by (rule sched_step.reap)
  ultimately show ?thesis using race1_run by (meson rtranclp.rtrancl_into_rtrancl)
qed

lemma gone1_inn:
  "ready (inn gone1) = []" "graveyard (inn gone1) = [0]" "freed (inn gone1) = []"
  "task (threads (inn gone1) 0) = None" "th_state (threads (inn gone1) 0) = Exited"
  "cpus (inn gone1) = (\<lambda>_. empty_slot)(0 :=
     \<lparr>current = Some (Suc (Suc 0)), idle = Some (Suc 0), handoff = Some (0, True)\<rparr>)"
  by (simp_all add: gone_defs MAX_CPUS_def list_ex_iff)

lemma gone4_inn:
  "ready (inn gone4) = []" "graveyard (inn gone4) = [0]" "freed (inn gone4) = []"
  "task (threads (inn gone4) 0) = None" "\<not> running (threads (inn gone4) 0)"
  "cpus (inn gone4) = (\<lambda>_. empty_slot)(0 :=
     \<lparr>current = Some (Suc (Suc 0)), idle = Some (Suc 0), handoff = None\<rparr>)"
  by (simp_all add: gone4_def gone3_def gone2_def finish_switch_def gone1_inn Let_def fun_eq_iff)

lemma gone_freed: "freed (inn gone6) = [0]"
proof -
  have r: "ext_refs gone5 0 = 0"
    by (simp add: gone5_def gone4_def gone3_def gone2_def gone1_def race1_def boot_def)
  have "is_dead (ext_refs gone5) (inn gone4) 0"
    using r by (simp add: is_dead_def gone4_inn strong_count_def slot_refs_def empty_slot_def MAX_CPUS_def)
  then have "reap_loop (ext_refs gone5) (\<lambda>_. 1) 0 (inn gone4) = drop_corpse (\<lambda>_. 1) 0 (inn gone4)"
    by (subst reap_loop.simps, subst reap_loop.simps) (simp add: gone4_inn swap_remove_def)
  then show ?thesis by (simp add: gone6_def reap_def gone5_def gone4_inn)
qed

theorem reaped_thread_unreachable_witness:
  "0 \<in> set (freed (inn gone6)) \<and> stack_of gone6 0 \<noteq> Some 0 \<and> current (cpus (inn gone6) 0) \<noteq> Some 0 \<and>
   0 \<notin> set (ready (inn gone6)) \<and> refs gone6 0 = 0 \<and> 0 \<notin> set (inflight gone6)"
  using reaped_thread_unreachable [OF gone_run, of 0 0] by (simp add: gone_freed)

lemma reap_loop_frame [simp]:
  "threads (reap_loop ext sr i s) = threads s" "fresh (reap_loop ext sr i s) = fresh s"
  "cpus (reap_loop ext sr i s) = cpus s" "ready (reap_loop ext sr i s) = ready s"
  by (induction ext sr i s rule: reap_loop.induct; subst reap_loop.simps; simp)+

lemma reap_loop_freed_mono: "set (freed s) \<subseteq> set (freed (reap_loop ext sr i s))"
  by (induction ext sr i s rule: reap_loop.induct) (subst reap_loop.simps; auto)

lemma drop_corpse_torn:
  "k \<in> set (torn_down (drop_corpse sr i s)) \<Longrightarrow> k \<notin> set (torn_down s) \<Longrightarrow>
   active_threads (drop_corpse sr i s) k = 0"
  by (auto simp: drop_corpse_def Let_def split: option.splits if_splits)

lemma reap_loop_torn:
  assumes "sched_inv (m\<lparr>inn := s\<rparr>)" "k \<in> set (torn_down (reap_loop (ext_refs m) sr i s))"
    "k \<notin> set (torn_down s)" "t < fresh s" "task (threads s t) = Some k"
  shows "t \<in> set (freed (reap_loop (ext_refs m) sr i s))"
  using assms
proof (induction "ext_refs m" sr i s rule: reap_loop.induct)
  case (1 sr i s)
  show ?case
  proof (cases "i < length (graveyard s) \<and> is_dead (ext_refs m) s (graveyard s ! i)")
    case True
    let ?s = "drop_corpse sr i s"
    have eq: "reap_loop (ext_refs m) sr i s = reap_loop (ext_refs m) sr i ?s"
      using True by (subst reap_loop.simps) simp
    have inv: "sched_inv (m\<lparr>inn := ?s\<rparr>)"
      using drop_corpse_inv [of "m\<lparr>inn := s\<rparr>" i sr] 1(3) True by simp
    show ?thesis
    proof (cases "k \<in> set (torn_down ?s)")
      case torn: True
      then have "card {t. t < fresh ?s \<and> t \<notin> set (freed ?s) \<and> task (threads ?s t) = Some k} = 0"
        using drop_corpse_torn [OF torn 1(5)] sched_invD(10) [OF inv] by (simp add: wf_tasks_def)
      then have "t \<in> set (freed ?s)" using 1(6,7) by auto
      then show ?thesis using reap_loop_freed_mono [of ?s] unfolding eq by blast
    next
      case False
      then show ?thesis using 1(1) True inv 1(4,6,7) unfolding eq by simp
    qed
  next
    case False
    then show ?thesis
      using 1(2-7) by (cases "i < length (graveyard s)") (simp_all add: reap_loop.simps [of _ _ i])
  qed
qed

text \<open>C6. An address space is torn down only after its last thread is gone: when \<open>reap\<close>
  reclaims the space of a task, every thread ever created for that task has been freed and
  no CPU is on the kernel stack of any of them.\<close>

theorem teardown_after_last_thread:
  assumes reach: "sched_step\<^sup>*\<^sup>* boot m"
    and s': "s' = reap (\<lambda>t. refs m t + count_list (inflight m) t) sr (inn m)"
    and k: "k \<in> set (torn_down s')" "k \<notin> set (torn_down (inn m))"
    and t: "t < fresh (inn m)" "task (threads (inn m) t) = Some k"
  shows "t \<in> set (freed s') \<and> stack_of m c \<noteq> Some t"
proof -
  note inv = reachable_sched_inv [OF reach]
  have "t \<in> set (freed s')"
    using reap_loop_torn [where m = m and s = "inn m"] inv k t unfolding s' reap_def by simp
  moreover have "sched_inv (m\<lparr>inn := s'\<rparr>)" using reap_inv [OF inv] by (simp add: s')
  ultimately have "\<not> on_cpu (m\<lparr>inn := s'\<rparr>) c t" by (intro freed_unreferenced) simp_all
  then have "\<not> on_cpu m c t" by (simp add: on_cpu_def s' reap_def)
  with \<open>t \<in> set (freed s')\<close> stack_of_on_cpu show ?thesis by blast
qed

text \<open>Thread 2 of task 7 gets the CPU from thread 0, exits, and is reaped.\<close>

abbreviation two :: nat where
  "two \<equiv> Suc (Suc 0)"

definition last1 :: machine where
  "last1 = boot\<lparr>inn := snd (spawn_user 7 (inn boot))\<rparr>"

definition last2 :: machine where
  "last2 = (let s = commit_switch 0 0 False two ((inn last1)\<lparr>ready := []\<rparr>)
            in last1\<lparr>inn := s\<lparr>ctx_switches := Suc (ctx_switches s)\<rparr>, phase := (phase last1)(0 := Spin)\<rparr>)"

definition landed :: "nat \<Rightarrow> machine \<Rightarrow> machine" where
  "landed t m = m\<lparr>inn := finish_switch 0 (set_running t True (inn m)), phase := (phase m)(0 := Exec)\<rparr>"

definition last3 :: machine where
  "last3 = landed two last2"

definition last4 :: machine where
  "last4 = last3\<lparr>inn := the (exit_thread 0 (inn last3)), phase := (phase last3)(0 := Spin)\<rparr>"

definition last5 :: machine where
  "last5 = landed 0 last4"

lemma landed_run:
  assumes "phase m 0 = Spin" "current (cpus (inn m) 0) = Some t" "\<not> running (threads (inn m) t)"
  shows "sched_step\<^sup>*\<^sup>* m (landed t m)"
proof -
  let ?a = "m\<lparr>inn := set_running t True (inn m), phase := (phase m)(0 := Claimed)\<rparr>"
  have "sched_step m ?a"
    by (rule sched_step.claim [OF assms(1,2)]) (simp add: claim_swap_def assms(3))
  moreover have "sched_step ?a (?a\<lparr>phase := (phase ?a)(0 := Landed)\<rparr>)"
    by (rule sched_step.land) simp
  moreover have "sched_step (?a\<lparr>phase := (phase ?a)(0 := Landed)\<rparr>) (landed t m)"
    using sched_step.finish [of "?a\<lparr>phase := (phase ?a)(0 := Landed)\<rparr>" 0] by (simp add: landed_def)
  ultimately show ?thesis by (meson r_into_rtranclp rtranclp.rtrancl_into_rtrancl)
qed

lemma last1_inn:
  "fresh (inn last1) = 3" "ready (inn last1) = [two]" "graveyard (inn last1) = []" "freed (inn last1) = []" "torn_down (inn last1) = []"
  "active_threads (inn last1) 7 = 1" "phase last1 = (\<lambda>_. Offline)(0 := Exec)" "refs last1 = (\<lambda>_. 0)" "inflight last1 = []"
  "threads (inn last1) two = spawned_user 1 7 0" "threads (inn last1) 0 = adopting 0 False"
  "cpus (inn last1) = (\<lambda>_. empty_slot)(0 := \<lparr>current = Some 0, idle = Some (Suc 0), handoff = None\<rparr>)"
  by (simp_all add: last1_def run_defs spawn_user_def spawned_user_def)

lemma last2_inn:
  "fresh (inn last2) = 3" "ready (inn last2) = []" "graveyard (inn last2) = []" "freed (inn last2) = []" "torn_down (inn last2) = []"
  "active_threads (inn last2) 7 = 1" "phase last2 = (\<lambda>_. Offline)(0 := Spin)" "refs last2 = (\<lambda>_. 0)" "inflight last2 = []"
  "threads (inn last2) two = (spawned_user 1 7 0)\<lparr>th_state := Running\<rparr>"
  "threads (inn last2) 0 = (adopting 0 False)\<lparr>th_state := Ready\<rparr>"
  "cpus (inn last2) = (\<lambda>_. empty_slot)(0 := \<lparr>current = Some two, idle = Some (Suc 0), handoff = Some (0, False)\<rparr>)"
  by (simp_all add: last2_def Let_def commit_switch_def set_state_def set_cpu_def last1_inn adopting_def)

lemma last3_inn:
  "fresh (inn last3) = 3" "ready (inn last3) = [0]" "graveyard (inn last3) = []" "freed (inn last3) = []" "torn_down (inn last3) = []"
  "active_threads (inn last3) 7 = 1" "phase last3 = (\<lambda>_. Offline)(0 := Exec)" "refs last3 = (\<lambda>_. 0)" "inflight last3 = []"
  "threads (inn last3) two = (spawned_user 1 7 0)\<lparr>th_state := Running, running := True\<rparr>"
  "threads (inn last3) 0 = (adopting 0 False)\<lparr>th_state := Ready, running := False\<rparr>"
  "cpus (inn last3) = (\<lambda>_. empty_slot)(0 := \<lparr>current = Some two, idle = Some (Suc 0), handoff = None\<rparr>)"
  by (simp_all add: last3_def landed_def finish_switch_def set_running_def set_state_def set_cpu_def
      last2_inn adopting_def Let_def)

lemma last4_inn:
  "fresh (inn last4) = 3" "ready (inn last4) = []" "graveyard (inn last4) = [two]" "freed (inn last4) = []" "torn_down (inn last4) = []"
  "active_threads (inn last4) 7 = 1" "phase last4 = (\<lambda>_. Offline)(0 := Spin)" "refs last4 = (\<lambda>_. 0)" "inflight last4 = []"
  "threads (inn last4) two = (spawned_user 1 7 0)\<lparr>th_state := Exited, running := True\<rparr>"
  "threads (inn last4) 0 = (adopting 0 False)\<lparr>th_state := Running, running := False\<rparr>"
  "cpus (inn last4) = (\<lambda>_. empty_slot)(0 := \<lparr>current = Some 0, idle = Some (Suc 0), handoff = Some (two, True)\<rparr>)"
  by (simp_all add: last4_def exit_thread_def pick_next_def stale_def set_state_def set_cpu_def
      last3_inn adopting_def empty_slot_def Let_def MAX_CPUS_def list_ex_iff)

lemma last5_inn:
  "fresh (inn last5) = 3" "ready (inn last5) = []" "graveyard (inn last5) = [two]" "freed (inn last5) = []" "torn_down (inn last5) = []"
  "active_threads (inn last5) 7 = 1" "refs last5 = (\<lambda>_. 0)" "inflight last5 = []"
  "threads (inn last5) two = (spawned_user 1 7 0)\<lparr>th_state := Exited, running := False\<rparr>"
  "cpus (inn last5) = (\<lambda>_. empty_slot)(0 := \<lparr>current = Some 0, idle = Some (Suc 0), handoff = None\<rparr>)"
  by (simp_all add: last5_def landed_def finish_switch_def set_running_def set_state_def set_cpu_def
      last4_inn adopting_def Let_def)

lemma last_run: "sched_step\<^sup>*\<^sup>* boot last5"
proof -
  have "sched_step boot last1"
    unfolding last1_def by (rule sched_step.spawn_posix [of 7 _ "fst (spawn_user 7 (inn boot))"]) simp
  moreover have "reschedule 0 False (inn last1) = Some (Inr (commit_switch 0 0 False two ((inn last1)\<lparr>ready := []\<rparr>)))"
    by (simp add: reschedule_def pick_next_def stale_def last1_inn spawned_user_def MAX_CPUS_def
        list_ex_iff empty_slot_def)
  then have "sched_step last1 last2"
    unfolding last2_def Let_def by (intro sched_step.switch) (simp_all add: last1_inn)
  moreover have "sched_step\<^sup>*\<^sup>* last2 last3"
    unfolding last3_def by (rule landed_run) (simp_all add: last2_inn spawned_user_def)
  moreover have "sched_step last3 last4"
    unfolding last4_def
    by (rule sched_step.exit [of _ _ two])
      (simp_all add: exit_thread_def pick_next_def stale_def set_state_def set_cpu_def last3_inn
        adopting_def spawned_user_def empty_slot_def Let_def MAX_CPUS_def list_ex_iff)
  moreover have "sched_step\<^sup>*\<^sup>* last4 last5"
    unfolding last5_def by (rule landed_run) (simp_all add: last4_inn adopting_def)
  ultimately show ?thesis by (meson r_into_rtranclp rtranclp_trans)
qed

theorem teardown_after_last_thread_witness:
  "\<exists>s'. s' = reap (\<lambda>t. refs last5 t + count_list (inflight last5) t) (\<lambda>_. 1) (inn last5) \<and>
     7 \<in> set (torn_down s') \<and> two \<in> set (freed s') \<and> stack_of last5 0 \<noteq> Some two"
proof -
  let ?s = "reap (\<lambda>t. refs last5 t + count_list (inflight last5) t) (\<lambda>_. 1) (inn last5)"
  have torn: "7 \<in> set (torn_down ?s)"
    by (simp add: reap_def reap_loop.simps is_dead_def strong_count_def slot_refs_def empty_slot_def
        MAX_CPUS_def drop_corpse_def swap_remove_def last5_inn spawned_user_def)
  have "two \<in> set (freed ?s) \<and> stack_of last5 0 \<noteq> Some two"
    by (rule teardown_after_last_thread [OF last_run refl torn])
      (simp_all add: last5_inn spawned_user_def)
  with torn show ?thesis by blast
qed

end
