(* ===== verification/Timer.thy ===== *)
theory Timer
  imports Sched
begin

text \<open>
  The timer wheel (\<open>kernel/src/timer.rs\<close>): a tick counter and a list of deadlines
  with the threads to unblock.  A tick takes out every expired entry with
  \<open>swap_remove\<close> and wakes its thread.
\<close>

definition TICK_HZ :: nat where
  "TICK_HZ = 100"

definition NS_PER_TICK :: nat where
  "NS_PER_TICK = 1000000000 div TICK_HZ"

record timer =
  ticks :: u64
  wheel :: "(u64 \<times> nat) list"

definition U64_MAX :: nat where
  "U64_MAX = 2 ^ 64 - 1"

text \<open>
  \<open>rel\<close> is the signed 100 ns interval; its magnitude, the product with 100 and the sum
  with the clock saturate at the width of the counter.
\<close>

definition deadline_from_relative_100ns :: "64 word \<Rightarrow> timer \<Rightarrow> u64" where
  "deadline_from_relative_100ns rel tm =
     (let ns = min (nat \<bar>sint rel\<bar> * 100) U64_MAX;
          k = max ((ns + NS_PER_TICK - 1) div NS_PER_TICK) 1
      in of_nat (min (unat (ticks tm) + k) U64_MAX))"

function tick_loop :: "u64 \<Rightarrow> nat \<Rightarrow> (u64 \<times> nat) list \<Rightarrow> inner \<Rightarrow> (u64 \<times> nat) list \<times> inner" where
  "tick_loop now i w s =
     (if i < length w
      then if fst (w ! i) \<le> now
           then tick_loop now i (swap_remove i w) (unblock (snd (w ! i)) s)
           else tick_loop now (Suc i) w s
      else (w, s))"
  by pat_completeness auto
termination
  by (relation "measure (\<lambda>(now, i, w, s). length w - i)") auto

declare tick_loop.simps [simp del]

definition tick :: "bool \<Rightarrow> nat \<Rightarrow> timer \<Rightarrow> inner \<Rightarrow> timer \<times> inner" where
  "tick started cpu tm s =
     (if \<not> started \<or> cpu \<noteq> 0 then (tm, s)
      else let now = ticks tm + 1;
               (w, s') = tick_loop now 0 (wheel tm) s
           in (\<lparr>ticks = now, wheel = w\<rparr>, s'))"

definition arm :: "u64 \<Rightarrow> nat \<Rightarrow> timer \<Rightarrow> timer" where
  "arm deadline t tm = tm\<lparr>wheel := wheel tm @ [(deadline, t)]\<rparr>"

text \<open>The position of the first entry a predicate accepts, as \<open>Iterator::position\<close>.\<close>

fun position :: "('a \<Rightarrow> bool) \<Rightarrow> 'a list \<Rightarrow> nat option" where
  "position P [] = None"
| "position P (x # xs) = (if P x then Some 0 else map_option Suc (position P xs))"

definition disarm :: "nat \<Rightarrow> timer \<Rightarrow> timer" where
  "disarm t tm =
     (case position (\<lambda>e. snd e = t) (wheel tm) of
        Some p \<Rightarrow> tm\<lparr>wheel := swap_remove p (wheel tm)\<rparr>
      | None \<Rightarrow> tm)"

text \<open>
  \<open>sleep_until\<close> up to the block: nothing when the deadline has passed, otherwise the thread
  is armed on the wheel and goes to sleep (\<open>Some\<close>).  On waking it runs \<open>disarm\<close>.
\<close>

definition sleep_until_enter :: "u64 \<Rightarrow> nat \<Rightarrow> timer \<Rightarrow> inner \<Rightarrow> (timer \<times> inner) option" where
  "sleep_until_enter deadline me tm s =
     (if deadline \<le> ticks tm then None
      else Some (arm deadline me tm, mark_blocking me s))"

section \<open>What a wake does to the others\<close>

definition parked :: "inner \<Rightarrow> nat \<Rightarrow> bool" where
  "parked s t \<longleftrightarrow> th_state (threads s t) = Blocked \<and> \<not> running (threads s t)"

definition queued :: "inner \<Rightarrow> nat \<Rightarrow> bool" where
  "queued s t \<longleftrightarrow> th_state (threads s t) = Ready \<and> t \<in> set (ready s)"

text \<open>How far a sequence of wakes may move a thread: forward, never back to sleep.\<close>

definition woken_to :: "inner \<Rightarrow> inner \<Rightarrow> bool" where
  "woken_to s s' \<longleftrightarrow>
     (\<forall>t. (wake_pending (threads s t) \<longrightarrow> wake_pending (threads s' t)) \<and>
          (parked s t \<longrightarrow> parked s' t \<or> queued s' t) \<and>
          (queued s t \<longrightarrow> queued s' t) \<and>
          (\<not> parked s t \<longrightarrow> \<not> parked s' t))"

lemma woken_to_refl [simp]: "woken_to s s"
  by (simp add: woken_to_def)

lemma woken_to_trans: "woken_to s s' \<Longrightarrow> woken_to s' s'' \<Longrightarrow> woken_to s s''"
  by (auto simp: woken_to_def)

lemmas unblock_defs = unblock_def unblock_locked_def unblock_store_def set_wake_pending_def
  set_state_def Let_def parked_def queued_def

lemma woken_to_unblock: "woken_to s (unblock t s)"
  by (auto simp: woken_to_def unblock_defs)

lemma unblock_wakes:
  "wake_pending (threads (unblock t s) t)" "\<not> parked (unblock t s) t"
  "parked s t \<Longrightarrow> queued (unblock t s) t"
  by (auto simp: unblock_defs)

lemma tick_loop_woken_to: "woken_to s (snd (tick_loop now i w s))"
proof (induction now i w s rule: tick_loop.induct)
  case (1 now i w s)
  then show ?case
    by (subst tick_loop.simps) (auto intro: woken_to_trans [OF woken_to_unblock])
qed

lemma mset_drop_swap_remove:
  assumes "i < length w"
  shows "mset (drop i (swap_remove i w)) = mset (drop i w) - {#w ! i#}"
proof -
  have "mset (take i w) + mset (drop i (swap_remove i w)) = mset (swap_remove i w)"
    using take_swap_remove [OF assms] by (metis append_take_drop_id mset_append)
  also have "\<dots> = mset (take i w @ drop i w) - {#w ! i#}" using assms by simp
  also have "\<dots> = mset (take i w) + (mset (drop i w) - {#w ! i#})"
    using assms by (simp add: Cons_nth_drop_Suc [symmetric] del: append_take_drop_id)
  finally show ?thesis by simp
qed

lemma tick_loop_wheel:
  "mset (fst (tick_loop now i w s)) =
   mset (take i w) + filter_mset (\<lambda>e. now < fst e) (mset (drop i w))"
proof (induction now i w s rule: tick_loop.induct)
  case (1 now i w s)
  show ?case
  proof (cases "i < length w")
    case True
    have d: "drop i w = w ! i # drop (Suc i) w" using True by (simp add: Cons_nth_drop_Suc)
    show ?thesis
      using True 1 mset_drop_swap_remove [OF True]
      by (subst tick_loop.simps) (auto simp: take_swap_remove d take_Suc_conv_app_nth)
  qed (simp add: tick_loop.simps)
qed

lemma tick_loop_wakes:
  assumes "(d, t) \<in> set (drop i w)" "d \<le> now"
  shows "wake_pending (threads (snd (tick_loop now i w s)) t) \<and>
         \<not> parked (snd (tick_loop now i w s)) t \<and>
         (parked s t \<longrightarrow> queued (snd (tick_loop now i w s)) t)"
  using assms
proof (induction now i w s rule: tick_loop.induct)
  case (1 now i w s)
  have i: "i < length w" using 1(3) by (cases "i < length w") auto
  have dr: "drop i w = w ! i # drop (Suc i) w" using i by (simp add: Cons_nth_drop_Suc)
  show ?case
  proof (cases "fst (w ! i) \<le> now")
    case True
    let ?s = "unblock (snd (w ! i)) s" and ?w = "swap_remove i w"
    have eq: "tick_loop now i w s = tick_loop now i ?w ?s"
      using i True by (subst tick_loop.simps) simp
    show ?thesis
    proof (cases "(d, t) \<in> set (drop i ?w)")
      case rest: True
      then show ?thesis
        using 1(1) [OF i True rest 1(4)] woken_to_unblock [of s "snd (w ! i)"] tick_loop_woken_to [of ?s now i ?w]
        unfolding eq woken_to_def by blast
    next
      case False
      have "(d, t) = w ! i"
      proof (rule ccontr)
        assume "(d, t) \<noteq> w ! i"
        then have "(d, t) \<in># mset (drop i w) - {#w ! i#}" using 1(3) by (simp add: in_diff_count)
        then show False using False mset_drop_swap_remove [OF i] by (metis in_multiset_in_set)
      qed
      then have "t = snd (w ! i)" by (metis snd_conv)
      then show ?thesis
        using unblock_wakes [where t = t and s = s] tick_loop_woken_to [of ?s now i ?w] unfolding eq woken_to_def by blast
    qed
  next
    case False
    then have "(d, t) \<in> set (drop (Suc i) w)" using 1(3,4) dr by (metis fst_conv set_ConsD)
    then show ?thesis using 1(2) [OF i False _ 1(4)] i False by (simp add: tick_loop.simps [of now i])
  qed
qed

text \<open>A tick wakes exactly the expired sleepers: the entries left on the wheel are
  those whose deadline is still ahead of the new clock, each kept as often as it was armed;
  and a thread with an expired entry has its wake recorded and is not left asleep (a parked
  one is on the ready queue as runnable).\<close>

theorem tick_wakes_exactly_expired:
  assumes "tick True 0 tm s = (tm', s')"
  shows "ticks tm' = ticks tm + 1 \<and>
         mset (wheel tm') = filter_mset (\<lambda>e. ticks tm' < fst e) (mset (wheel tm)) \<and>
         (\<forall>d t. (d, t) \<in> set (wheel tm) \<and> d \<le> ticks tm' \<longrightarrow>
            wake_pending (threads s' t) \<and> \<not> parked s' t \<and> (parked s t \<longrightarrow> queued s' t))"
  using assms tick_loop_wheel [of "ticks tm + 1" 0 "wheel tm" s]
    tick_loop_wakes [where i = 0 and w = "wheel tm" and now = "ticks tm + 1" and s = s]
  by (auto simp: tick_def Let_def split: prod.splits)


text \<open>A sleeper whose time has come and one whose time has not.\<close>

definition asleep :: inner where
  "asleep = sched_static\<lparr>threads := (\<lambda>_. (spawned 0 False)\<lparr>th_state := Blocked\<rparr>)\<rparr>"

theorem tick_wakes_exactly_expired_witness:
  "\<exists>tm' s'. tick True 0 \<lparr>ticks = 9, wheel = [(10, 5), (20, 6)]\<rparr> asleep = (tm', s') \<and>
     wheel tm' = [(20, 6)] \<and> queued s' 5 \<and> parked asleep 5"
proof -
  let ?tm = "\<lparr>ticks = 9, wheel = [(10, 5), (20, 6)]\<rparr> :: timer"
  obtain tm' s' where e: "tick True 0 ?tm asleep = (tm', s')" by fastforce
  note T = tick_wakes_exactly_expired [OF e]
  have tk: "ticks tm' = 10" using T by simp
  have "mset (wheel tm') = mset [(20, 6)]" using T tk by simp
  then have "wheel tm' = [(20, 6)]" by simp
  moreover have p: "parked asleep 5" by (simp add: parked_def asleep_def sched_static_def spawned_def)
  moreover have "queued s' 5" using T tk p by auto
  ultimately show ?thesis using e by blast
qed

section \<open>Deadlines\<close>

text \<open>
  A relative timeout is never cut short: the deadline is at least one tick ahead and the
  ticks to it cover the requested time, unless the arithmetic saturates.
\<close>

lemma deadline_covers:
  assumes "nat \<bar>sint rel\<bar> * 100 \<le> U64_MAX"
    and "unat (ticks tm) + nat \<bar>sint rel\<bar> * 100 < U64_MAX"
  shows "unat (ticks tm) < unat (deadline_from_relative_100ns rel tm)"
    and "nat \<bar>sint rel\<bar> * 100 \<le>
         (unat (deadline_from_relative_100ns rel tm) - unat (ticks tm)) * NS_PER_TICK"
proof -
  let ?ns = "nat \<bar>sint rel\<bar> * 100"
  define k where "k = max ((?ns + NS_PER_TICK - 1) div NS_PER_TICK) 1"
  have ns: "NS_PER_TICK = 10000000" by (simp add: NS_PER_TICK_def TICK_HZ_def)
  have k: "k \<le> ?ns + 1" "1 \<le> k" "?ns \<le> k * NS_PER_TICK"
    by (auto simp: k_def ns max_def)
  have "unat (ticks tm) + k \<le> U64_MAX" using k assms by simp
  moreover have "deadline_from_relative_100ns rel tm = of_nat (min (unat (ticks tm) + k) U64_MAX)"
    using assms(1) by (simp only: deadline_from_relative_100ns_def Let_def k_def min_absorb1)
  ultimately have d: "unat (deadline_from_relative_100ns rel tm) = unat (ticks tm) + k"
    by (simp only: min_absorb1 unat_of_nat U64_MAX_def) simp
  show "unat (ticks tm) < unat (deadline_from_relative_100ns rel tm)" using d k by simp
  show "?ns \<le> (unat (deadline_from_relative_100ns rel tm) - unat (ticks tm)) * NS_PER_TICK"
    using d k by simp
qed

end
