(* ===== verification/Wait.thy ===== *)
theory Wait
  imports Timer
begin

text \<open>
  Wait queues and the dispatcher objects (\<open>kernel/src/wait.rs\<close>), the sum of them that
  a handle can name (\<open>Waitable\<close> of \<open>kernel/src/process.rs\<close>), and the multi-object wait of
  \<open>kernel/src/nt.rs\<close>.  A function here is one critical section under the queue lock; a
  blocking operation is the part up to the block (\<open>None\<close> when it does not block) and the
  part after the wake.
\<close>

section \<open>Wait queues\<close>

type_synonym wait_queue = "nat list"

definition wq_wait :: "nat \<Rightarrow> wait_queue \<Rightarrow> inner \<Rightarrow> wait_queue \<times> inner" where
  "wq_wait me q s = (q @ [me], mark_blocking me s)"

definition wait_if :: "bool \<Rightarrow> nat \<Rightarrow> wait_queue \<Rightarrow> inner \<Rightarrow> (wait_queue \<times> inner) option" where
  "wait_if should_block me q s =
     (if \<not> should_block then None else Some (q @ [me], mark_blocking me s))"

definition wq_remove :: "nat \<Rightarrow> wait_queue \<Rightarrow> wait_queue" where
  "wq_remove t q = filter (\<lambda>x. x \<noteq> t) q"

definition wait_if_until_enter ::
  "u64 \<Rightarrow> bool \<Rightarrow> nat \<Rightarrow> wait_queue \<Rightarrow> timer \<Rightarrow> inner \<Rightarrow> (wait_queue \<times> timer \<times> inner) option" where
  "wait_if_until_enter deadline should_block me q tm s =
     (if \<not> should_block then None
      else Some (q @ [me], arm deadline me tm, mark_blocking me s))"

text \<open>After the wake: both entries are scrubbed, and the result says whether the deadline passed.\<close>

definition wait_if_until_leave ::
  "u64 \<Rightarrow> nat \<Rightarrow> wait_queue \<Rightarrow> timer \<Rightarrow> bool \<times> wait_queue \<times> timer" where
  "wait_if_until_leave deadline me q tm =
     (deadline \<le> ticks tm, wq_remove me q, disarm me tm)"

fun wake_one :: "wait_queue \<Rightarrow> inner \<Rightarrow> bool \<times> wait_queue \<times> inner" where
  "wake_one [] s = (False, [], s)"
| "wake_one (t # q) s = (True, q, unblock t s)"

text \<open>\<open>wake_one_or\<close>: the closure runs, on the object's own state, when nobody waits.\<close>

fun wake_one_or :: "('o \<Rightarrow> 'o) \<Rightarrow> 'o \<Rightarrow> wait_queue \<Rightarrow> inner \<Rightarrow> bool \<times> 'o \<times> wait_queue \<times> inner" where
  "wake_one_or f ob [] s = (False, f ob, [], s)"
| "wake_one_or f ob (t # q) s = (True, ob, q, unblock t s)"

definition wake_all :: "wait_queue \<Rightarrow> inner \<Rightarrow> nat \<times> wait_queue \<times> inner" where
  "wake_all q s = (length q, [], fold unblock q s)"

fun wake_up_to :: "nat \<Rightarrow> wait_queue \<Rightarrow> inner \<Rightarrow> wait_queue \<times> inner" where
  "wake_up_to 0 q s = (q, s)"
| "wake_up_to (Suc n) q s =
     (case wake_one q s of (woke, q', s') \<Rightarrow> if woke then wake_up_to n q' s' else (q', s'))"

text \<open>
  \<open>wait_any_until\<close> locks the queues in ascending address order, each once.  \<open>Q\<close> maps a
  queue's address to the queue.
\<close>

fun dedup :: "'a list \<Rightarrow> 'a list" where
  "dedup [] = []"
| "dedup [x] = [x]"
| "dedup (x # y # xs) = (if x = y then dedup (y # xs) else x # dedup (y # xs))"

definition lock_order :: "nat list \<Rightarrow> nat list" where
  "lock_order queues = dedup (sort queues)"

definition wait_any_enter ::
  "nat list \<Rightarrow> u64 option \<Rightarrow> bool \<Rightarrow> nat \<Rightarrow> (nat \<Rightarrow> wait_queue) \<Rightarrow> timer \<Rightarrow> inner
   \<Rightarrow> ((nat \<Rightarrow> wait_queue) \<times> timer \<times> inner) option" where
  "wait_any_enter queues deadline should_block me Q tm s =
     (if \<not> should_block then None
      else Some (fold (\<lambda>a Q. Q(a := Q a @ [me])) (lock_order queues) Q,
                 case deadline of Some d \<Rightarrow> arm d me tm | None \<Rightarrow> tm,
                 mark_blocking me s))"

definition wait_any_leave ::
  "nat list \<Rightarrow> u64 option \<Rightarrow> nat \<Rightarrow> (nat \<Rightarrow> wait_queue) \<Rightarrow> timer
   \<Rightarrow> bool \<times> (nat \<Rightarrow> wait_queue) \<times> timer" where
  "wait_any_leave queues deadline me Q tm =
     (case deadline of Some d \<Rightarrow> d \<le> ticks tm | None \<Rightarrow> False,
      fold (\<lambda>a Q. Q(a := wq_remove me (Q a))) queues Q,
      if deadline \<noteq> None then disarm me tm else tm)"

section \<open>Events\<close>

datatype event_mode = Manual | Auto

record event =
  signaled :: bool
  mode :: event_mode
  ev_queue :: wait_queue

definition event_with_mode :: "event_mode \<Rightarrow> event" where
  "event_with_mode m = \<lparr>signaled = False, mode = m, ev_queue = []\<rparr>"

definition event_signal :: "event \<Rightarrow> inner \<Rightarrow> event \<times> inner" where
  "event_signal e s =
     (case mode e of
        Manual \<Rightarrow> (case wake_all (ev_queue e) s of
                     (n, q, s') \<Rightarrow> (e\<lparr>signaled := True, ev_queue := q\<rparr>, s'))
      | Auto \<Rightarrow> (case wake_one_or (\<lambda>e. e\<lparr>signaled := True\<rparr>) e (ev_queue e) s of
                   (woke, e', q, s') \<Rightarrow> (e'\<lparr>ev_queue := q\<rparr>, s')))"

definition event_reset :: "event \<Rightarrow> event" where
  "event_reset e = e\<lparr>signaled := False\<rparr>"

definition event_try_take :: "event \<Rightarrow> bool \<times> event" where
  "event_try_take e =
     (case mode e of Manual \<Rightarrow> (signaled e, e)
      | Auto \<Rightarrow> (signaled e, e\<lparr>signaled := False\<rparr>))"

text \<open>
  \<open>wait\<close>: one pass up to the block.  The automatic event consumes a latched signal in
  the check itself; \<open>None\<close> means the call returns without blocking.
\<close>

definition event_wait_enter :: "nat \<Rightarrow> event \<Rightarrow> inner \<Rightarrow> event \<times> (wait_queue \<times> inner) option" where
  "event_wait_enter me e s =
     (case mode e of
        Manual \<Rightarrow> (e, wait_if (\<not> signaled e) me (ev_queue e) s)
      | Auto \<Rightarrow> (e\<lparr>signaled := False\<rparr>, wait_if (\<not> signaled e) me (ev_queue e) s))"

text \<open>The timed wait of an automatic event reports the signal unless the wait timed out.\<close>

definition event_wait_until_result :: "u64 \<Rightarrow> nat \<Rightarrow> event \<Rightarrow> timer \<Rightarrow> bool \<times> event \<times> timer" where
  "event_wait_until_result deadline me e tm =
     (case wait_if_until_leave deadline me (ev_queue e) tm of
        (timed_out, q, tm') \<Rightarrow> (\<not> timed_out, e\<lparr>ev_queue := q\<rparr>, tm'))"

section \<open>Semaphores\<close>

record semaphore =
  sem_count :: "32 word"
  sem_limit :: "32 word"
  sem_queue :: wait_queue

definition semaphore_new :: "32 word \<Rightarrow> 32 word \<Rightarrow> semaphore" where
  "semaphore_new initial lim = \<lparr>sem_count = initial, sem_limit = lim, sem_queue = []\<rparr>"

definition sem_try_take :: "semaphore \<Rightarrow> bool \<times> semaphore" where
  "sem_try_take sm =
     (if sint (sem_count sm) \<le> 0 then (False, sm) else (True, sm\<lparr>sem_count := sem_count sm - 1\<rparr>))"

definition checked_add32 :: "32 word \<Rightarrow> 32 word \<Rightarrow> 32 word option" where
  "checked_add32 a b =
     (if - (2 ^ 31) \<le> sint a + sint b \<and> sint a + sint b < 2 ^ 31 then Some (a + b) else None)"

definition release_refused :: "32 word \<Rightarrow> 32 word \<Rightarrow> 32 word \<Rightarrow> bool" where
  "release_refused n c lim \<longleftrightarrow>
     sint n \<le> 0 \<or> (case checked_add32 c n of None \<Rightarrow> True | Some v \<Rightarrow> sint lim < sint v)"

definition sem_release :: "32 word \<Rightarrow> semaphore \<Rightarrow> inner \<Rightarrow> 32 word option \<times> semaphore \<times> inner" where
  "sem_release n sm s =
     (if release_refused n (sem_count sm) (sem_limit sm) then (None, sm, s)
      else case wake_up_to (nat (sint n)) (sem_queue sm) s of
             (q, s') \<Rightarrow> (Some (sem_count sm), sm\<lparr>sem_count := sem_count sm + n, sem_queue := q\<rparr>, s'))"

definition sem_is_signaled :: "semaphore \<Rightarrow> bool" where
  "sem_is_signaled sm \<longleftrightarrow> 0 < sint (sem_count sm)"

text \<open>
  The pass of \<open>wait_until\<close> after a wake: a wait that timed out returns false at once,
  any other goes round the loop and tries to take a unit (\<open>None\<close>: it will block again).
\<close>

definition sem_wait_until_wake ::
  "u64 \<Rightarrow> nat \<Rightarrow> semaphore \<Rightarrow> timer \<Rightarrow> bool option \<times> semaphore \<times> timer" where
  "sem_wait_until_wake deadline me sm tm =
     (case wait_if_until_leave deadline me (sem_queue sm) tm of
        (timed_out, q, tm') \<Rightarrow>
          let sm1 = sm\<lparr>sem_queue := q\<rparr>
          in if timed_out then (Some False, sm1, tm')
             else case sem_try_take sm1 of
                    (got, sm2) \<Rightarrow> (if got then Some True else None, sm2, tm'))"

section \<open>Mutants\<close>

record mutant =
  owner :: u64
  recursion :: u32
  mut_queue :: wait_queue

definition mutant_new :: "u64 \<Rightarrow> mutant" where
  "mutant_new initial_owner =
     \<lparr>owner = initial_owner, recursion = (if initial_owner \<noteq> 0 then 1 else 0), mut_queue = []\<rparr>"

definition mutant_try_acquire :: "u64 \<Rightarrow> mutant \<Rightarrow> bool \<times> mutant" where
  "mutant_try_acquire tid m =
     (if owner m = tid then (True, m\<lparr>recursion := recursion m + 1\<rparr>)
      else if owner m = 0 then (True, m\<lparr>owner := tid, recursion := 1\<rparr>)
      else (False, m))"

definition mutant_release :: "u64 \<Rightarrow> mutant \<Rightarrow> inner \<Rightarrow> (unit, u32) result \<times> mutant \<times> inner" where
  "mutant_release tid m s =
     (if owner m \<noteq> tid then (Inl (), m, s)
      else let prev = recursion m
           in if prev \<le> 1
              then (case wake_one (mut_queue m) s of
                      (w, q, s') \<Rightarrow> (Inr prev, m\<lparr>recursion := 0, owner := 0, mut_queue := q\<rparr>, s'))
              else (Inr prev, m\<lparr>recursion := prev - 1\<rparr>, s))"

definition mutant_is_signaled :: "u64 \<Rightarrow> mutant \<Rightarrow> bool" where
  "mutant_is_signaled tid m \<longleftrightarrow> owner m = 0 \<or> owner m = tid"

section \<open>Waitable objects and the multi-object wait\<close>

datatype waitable = WEvent event | WSemaphore semaphore | WMutant mutant

fun waitable_try_take :: "waitable \<Rightarrow> u64 \<Rightarrow> bool \<times> waitable" where
  "waitable_try_take (WEvent e) tid = map_prod id WEvent (event_try_take e)"
| "waitable_try_take (WSemaphore sm) tid = map_prod id WSemaphore (sem_try_take sm)"
| "waitable_try_take (WMutant m) tid = map_prod id WMutant (mutant_try_acquire tid m)"

fun waitable_is_signaled :: "waitable \<Rightarrow> u64 \<Rightarrow> bool" where
  "waitable_is_signaled (WEvent e) tid = signaled e"
| "waitable_is_signaled (WSemaphore sm) tid = sem_is_signaled sm"
| "waitable_is_signaled (WMutant m) tid = mutant_is_signaled tid m"

text \<open>
  One pass of the loop of \<open>NtWaitForMultipleObjects\<close> over object identities \<open>hs\<close>; the
  store maps an identity to its object, so one object may be named twice.
\<close>

fun poll_any :: "('o \<Rightarrow> u64 \<Rightarrow> bool \<times> 'o) \<Rightarrow> u64 \<Rightarrow> nat \<Rightarrow> nat list \<Rightarrow> (nat \<Rightarrow> 'o) \<Rightarrow> nat option \<times> (nat \<Rightarrow> 'o)" where
  "poll_any tk tid i [] st = (None, st)"
| "poll_any tk tid i (h # hs) st =
     (case tk (st h) tid of (got, ob) \<Rightarrow>
        if got then (Some i, st(h := ob)) else poll_any tk tid (Suc i) hs (st(h := ob)))"

fun take_each :: "('o \<Rightarrow> u64 \<Rightarrow> bool \<times> 'o) \<Rightarrow> u64 \<Rightarrow> nat list \<Rightarrow> (nat \<Rightarrow> 'o) \<Rightarrow> bool list \<times> (nat \<Rightarrow> 'o)" where
  "take_each tk tid [] st = ([], st)"
| "take_each tk tid (h # hs) st =
     (case tk (st h) tid of (got, ob) \<Rightarrow>
        map_prod ((#) got) id (take_each tk tid hs (st(h := ob))))"

definition poll_all ::
  "('o \<Rightarrow> u64 \<Rightarrow> bool) \<Rightarrow> ('o \<Rightarrow> u64 \<Rightarrow> bool \<times> 'o) \<Rightarrow> u64 \<Rightarrow> nat list \<Rightarrow> (nat \<Rightarrow> 'o)
   \<Rightarrow> (bool list) option \<times> (nat \<Rightarrow> 'o)" where
  "poll_all sig tk tid hs st =
     (if list_all (\<lambda>h. sig (st h) tid) hs
      then map_prod Some id (take_each tk tid hs st) else (None, st))"

datatype wait_result = WaitIndex nat | WaitTimeout | WaitBlock

text \<open>
  The pass: a result, or the decision to block on every queue.  \<open>poll_once\<close> is a zero
  timeout, \<open>expired\<close> a deadline that has passed.
\<close>

definition wait_multiple_pass ::
  "bool \<Rightarrow> bool \<Rightarrow> bool \<Rightarrow> u64 \<Rightarrow> nat list \<Rightarrow> (nat \<Rightarrow> waitable) \<Rightarrow> wait_result \<times> (nat \<Rightarrow> waitable)" where
  "wait_multiple_pass wait_all poll_once expired tid hs st =
     (let (r, st') =
        (if wait_all
         then map_prod (map_option (\<lambda>_. 0)) id
                (poll_all waitable_is_signaled waitable_try_take tid hs st)
         else poll_any waitable_try_take tid 0 hs st)
      in case r of
           Some i \<Rightarrow> (WaitIndex i, st')
         | None \<Rightarrow> (if poll_once \<or> expired then WaitTimeout else WaitBlock, st'))"

definition multi_should_block :: "bool \<Rightarrow> u64 \<Rightarrow> nat list \<Rightarrow> (nat \<Rightarrow> waitable) \<Rightarrow> bool" where
  "multi_should_block wait_all tid hs st =
     (if wait_all then \<not> list_all (\<lambda>h. waitable_is_signaled (st h) tid) hs
      else \<not> list_ex (\<lambda>h. waitable_is_signaled (st h) tid) hs)"

section \<open>The contract of a dispatcher object\<close>

text \<open>
  What the multi-object wait relies on: taking succeeds exactly when the object is
  signalled, and a failed take changes nothing.
\<close>

locale dispatcher =
  fixes sig :: "'o \<Rightarrow> u64 \<Rightarrow> bool"
    and tk :: "'o \<Rightarrow> u64 \<Rightarrow> bool \<times> 'o"
  assumes take_iff: "fst (tk ob t) = sig ob t"
    and take_miss: "\<not> sig ob t \<Longrightarrow> snd (tk ob t) = ob"
begin

lemma take_miss_pair: "\<not> sig ob t \<Longrightarrow> tk ob t = (False, ob)"
  using take_iff [of ob t] take_miss [of ob t] by (cases "tk ob t") auto

lemma take_hit_pair:
  assumes "sig ob t"
  obtains ob' where "tk ob t = (True, ob')"
  using assms take_iff [of ob t] by (cases "tk ob t") auto

lemma poll_any_first:
  "poll_any tk t i hs st =
   (case position (\<lambda>h. sig (st h) t) hs of
      None \<Rightarrow> (None, st)
    | Some k \<Rightarrow> (Some (i + k), st(hs ! k := snd (tk (st (hs ! k)) t))))"
proof (induction hs arbitrary: i)
  case (Cons h hs)
  show ?case
  proof (cases "sig (st h) t")
    case True
    then obtain ob' where "tk (st h) t = (True, ob')" by (rule take_hit_pair)
    with True show ?thesis by simp
  next
    case False
    have "st(h := st h) = st" by simp
    with False show ?thesis
      using take_miss_pair [OF False] Cons [of "Suc i"] by (simp split: option.split)
  qed
qed simp

lemma take_each_all:
  "distinct hs \<Longrightarrow> \<forall>h \<in> set hs. sig (st h) t \<Longrightarrow>
   fst (take_each tk t hs st) = replicate (length hs) True"
proof (induction hs arbitrary: st)
  case (Cons h hs)
  obtain ob' where tk: "tk (st h) t = (True, ob')"
    using Cons.prems(2) take_hit_pair [of "st h" t] by auto
  have "fst (take_each tk t hs (st(h := ob'))) = replicate (length hs) True"
    using Cons.prems by (intro Cons.IH) auto
  with tk show ?case by simp
qed simp

lemma take_each_frame: "x \<notin> set hs \<Longrightarrow> snd (take_each tk t hs st) x = st x"
  by (induction hs arbitrary: st) (auto split: prod.split)

lemma poll_all_takes:
  assumes "distinct hs" "\<forall>h \<in> set hs. sig (st h) t"
  shows "fst (poll_all sig tk t hs st) = Some (replicate (length hs) True)"
  using assms take_each_all [OF assms] by (simp add: poll_all_def list_all_iff)

lemma poll_all_frame: "x \<notin> set hs \<Longrightarrow> snd (poll_all sig tk t hs st) x = st x"
  using take_each_frame by (simp add: poll_all_def)

lemma poll_all_miss: "\<not> (\<forall>h \<in> set hs. sig (st h) t) \<Longrightarrow> poll_all sig tk t hs st = (None, st)"
  by (auto simp: poll_all_def list_all_iff)

end

interpretation ev_disp: dispatcher "\<lambda>e t. signaled e" "\<lambda>e t. event_try_take e"
  by unfold_locales (auto simp: event_try_take_def split: event_mode.splits)

interpretation sem_disp: dispatcher "\<lambda>sm t. sem_is_signaled sm" "\<lambda>sm t. sem_try_take sm"
  by unfold_locales (auto simp: sem_try_take_def sem_is_signaled_def)

interpretation mut_disp: dispatcher "\<lambda>m t. mutant_is_signaled t m" "\<lambda>m t. mutant_try_acquire t m"
  by unfold_locales (auto simp: mutant_try_acquire_def mutant_is_signaled_def)

interpretation wait_disp: dispatcher waitable_is_signaled waitable_try_take
proof
  fix ob t
  show "fst (waitable_try_take ob t) = waitable_is_signaled ob t"
    by (cases ob) (simp_all add: ev_disp.take_iff sem_disp.take_iff mut_disp.take_iff)
  show "\<not> waitable_is_signaled ob t \<Longrightarrow> snd (waitable_try_take ob t) = ob"
    by (cases ob) (simp_all add: ev_disp.take_miss sem_disp.take_miss mut_disp.take_miss)
qed

lemma wait_any_pass:
  "wait_multiple_pass False poll_once expired tid hs st =
   (case position (\<lambda>h. waitable_is_signaled (st h) tid) hs of
      Some k \<Rightarrow> (WaitIndex k, st(hs ! k := snd (waitable_try_take (st (hs ! k)) tid)))
    | None \<Rightarrow> (if poll_once \<or> expired then WaitTimeout else WaitBlock, st))"
  by (simp add: wait_multiple_pass_def wait_disp.poll_any_first split: option.split)

text \<open>\<open>WaitAny\<close> takes the first signalled object and nothing else: a pass of the
  multi-object wait returns the least index whose object is signalled and consumes only that
  object's signal; with none signalled it changes no object and blocks, or reports the
  timeout when it polls or its deadline has passed.\<close>

theorem wait_any_takes_first_signaled:
  "wait_multiple_pass False poll_once expired tid hs st =
   (case position (\<lambda>h. waitable_is_signaled (st h) tid) hs of
      Some k \<Rightarrow> (WaitIndex k, st(hs ! k := snd (waitable_try_take (st (hs ! k)) tid)))
    | None \<Rightarrow> (if poll_once \<or> expired then WaitTimeout else WaitBlock, st))"
  by (rule wait_any_pass)



section \<open>Wakes that go astray\<close>

text \<open>
  Naming one object twice defeats \<open>WaitAll\<close>: a semaphore with a single unit satisfies a wait
  for two of it; the second take fails and its result is not looked at.
\<close>

lemma wait_all_duplicate_takes_once:
  "poll_all waitable_is_signaled waitable_try_take tid [0, 0]
     (\<lambda>_. WSemaphore (semaphore_new 1 5)) =
   (Some [True, False], (\<lambda>_. WSemaphore (semaphore_new 1 5))(0 := WSemaphore (semaphore_new 0 5)))"
  by (simp add: poll_all_def sem_is_signaled_def sem_try_take_def semaphore_new_def)

text \<open>C12. A multi-object wait loses the signal of an automatic event it is queued on: \<open>signal\<close>
  dequeues the waiting thread and latches nothing, so the thread's next pass finds no object
  signalled, takes nothing and blocks again, off the event's queue.\<close>

theorem auto_signal_lost_in_multi_wait:
  assumes "mode e = Auto" "\<not> signaled e" "ev_queue e = me # q" "event_signal e s = (e', s')"
  shows "s' = unblock me s \<and> ev_queue e' = q \<and> \<not> signaled e' \<and>
    wait_multiple_pass False False False tid [h] (st(h := WEvent e')) = (WaitBlock, st(h := WEvent e'))"
  using assms by (auto simp: event_signal_def wait_any_pass)

theorem auto_signal_lost_in_multi_wait_witness:
  "\<exists>e' s'. event_signal \<lparr>signaled = False, mode = Auto, ev_queue = [3]\<rparr> sched_static = (e', s') \<and>
     wait_multiple_pass False False False 9 [0] ((\<lambda>_. WMutant (mutant_new 5))(0 := WEvent e')) =
       (WaitBlock, (\<lambda>_. WMutant (mutant_new 5))(0 := WEvent e'))"
proof -
  obtain e' s' where e: "event_signal \<lparr>signaled = False, mode = Auto, ev_queue = [3]\<rparr> sched_static = (e', s')"
    by fastforce
  show ?thesis
    using auto_signal_lost_in_multi_wait [OF _ _ _ e, of 3 "[]" 9 0 "\<lambda>_. WMutant (mutant_new 5)"] e by auto
qed

text \<open>
  A timed waiter that a signal dequeues at or after its deadline reports a timeout: the
  automatic event is neither latched nor delivered.
\<close>

lemma auto_signal_lost_on_timeout:
  assumes "mode e = Auto" "\<not> signaled e" "ev_queue e = me # q" "deadline \<le> ticks tm"
  shows "\<not> signaled (fst (event_signal e s))"
    "fst (event_wait_until_result deadline me (fst (event_signal e s)) tm) = False"
    "\<not> signaled (fst (snd (event_wait_until_result deadline me (fst (event_signal e s)) tm)))"
  using assms by (simp_all add: event_signal_def event_wait_until_result_def wait_if_until_leave_def)

text \<open>
  The same with a semaphore strands another waiter: thread 1 waits with a deadline, thread
  2 without; one unit is released, thread 1 is dequeued, wakes past its deadline and gives up
  without looking at the count.  The semaphore stays signalled with thread 2 asleep on it.
\<close>

lemma sem_timeout_strands_waiter:
  fixes s :: inner and tm :: timer
  assumes sm: "sm = \<lparr>sem_count = 0, sem_limit = 5, sem_queue = [1, 2]\<rparr>" and "deadline \<le> ticks tm"
  shows "\<exists>sm' s'. sem_release 1 sm s = (Some 0, sm', s') \<and>
    (\<exists>sm'' tm'. sem_wait_until_wake deadline 1 sm' tm = (Some False, sm'', tm') \<and>
       sem_is_signaled sm'' \<and> sem_queue sm'' = [2])"
  using assms
  by (simp add: sem_release_def release_refused_def checked_add32_def sem_wait_until_wake_def
      wait_if_until_leave_def wq_remove_def sem_is_signaled_def numeral_eq_Suc)

section \<open>Lock order of the multi-object wait\<close>

lemma set_dedup [simp]: "set (dedup xs) = set xs"
  by (induction xs rule: dedup.induct) auto

lemma dedup_sorted: "sorted xs \<Longrightarrow> sorted_wrt (<) (dedup (xs :: 'a::linorder list))"
proof (induction xs rule: dedup.induct)
  case (3 x y xs)
  then show ?case by auto
qed auto

lemma lock_order_distinct: "distinct (lock_order qs)"
  using dedup_sorted [OF sorted_sort, of qs] by (simp add: lock_order_def strict_sorted_iff)

lemma fold_push:
  "distinct as \<Longrightarrow>
   fold (\<lambda>a Q. Q(a := Q a @ [me])) as Q b = (if b \<in> set as then Q b @ [me] else Q b)"
  by (induction as arbitrary: Q) auto

lemma fold_scrub:
  "fold (\<lambda>a Q. Q(a := wq_remove me (Q a))) as Q b = (if b \<in> set as then wq_remove me (Q b) else Q b)"
  by (induction as arbitrary: Q) (auto simp: wq_remove_def)



end
