(* ===== verification/Wait_Atomic.thy ===== *)
theory Wait_Atomic
  imports Wait
begin

text \<open>
  The dispatcher objects of \<open>kernel/src/wait.rs\<close> under interleaving: every atomic load,
  store and compare-exchange of \<open>Semaphore\<close>, \<open>Mutant\<close> and \<open>Event\<close> is a step of its own,
  taken by any thread at any time.  A weak compare-exchange may fail although the value
  matches.
\<close>

section \<open>Semaphores\<close>

text \<open>
  Where a thread is inside \<open>try_take\<close> or \<open>release\<close>; \<open>taken\<close> and \<open>released\<close> count the units
  that successful calls moved.
\<close>

datatype sem_pc = SIdle | STake "32 word" | SRel "32 word" "32 word"

record sem_machine =
  sc :: "32 word"
  slim :: "32 word"
  spc :: "nat \<Rightarrow> sem_pc"
  taken :: int
  released :: int

inductive sem_step :: "sem_machine \<Rightarrow> sem_machine \<Rightarrow> bool" where
  take_load: "spc m t = SIdle \<Longrightarrow> sem_step m (m\<lparr>spc := (spc m)(t := STake (sc m))\<rparr>)"
| take_empty: "spc m t = STake c \<Longrightarrow> sint c \<le> 0 \<Longrightarrow>
    sem_step m (m\<lparr>spc := (spc m)(t := SIdle)\<rparr>)"
| take_ok: "spc m t = STake c \<Longrightarrow> 0 < sint c \<Longrightarrow> sc m = c \<Longrightarrow>
    sem_step m (m\<lparr>sc := c - 1, taken := taken m + 1, spc := (spc m)(t := SIdle)\<rparr>)"
| take_retry: "spc m t = STake c \<Longrightarrow> 0 < sint c \<Longrightarrow>
    sem_step m (m\<lparr>spc := (spc m)(t := STake (sc m))\<rparr>)"
| rel_load: "spc m t = SIdle \<Longrightarrow> sem_step m (m\<lparr>spc := (spc m)(t := SRel n (sc m))\<rparr>)"
| rel_refuse: "spc m t = SRel n c \<Longrightarrow> release_refused n c (slim m) \<Longrightarrow>
    sem_step m (m\<lparr>spc := (spc m)(t := SIdle)\<rparr>)"
| rel_ok: "spc m t = SRel n c \<Longrightarrow> \<not> release_refused n c (slim m) \<Longrightarrow> sc m = c \<Longrightarrow>
    sem_step m (m\<lparr>sc := c + n, released := released m + sint n, spc := (spc m)(t := SIdle)\<rparr>)"
| rel_retry: "spc m t = SRel n c \<Longrightarrow> \<not> release_refused n c (slim m) \<Longrightarrow>
    sem_step m (m\<lparr>spc := (spc m)(t := SRel n (sc m))\<rparr>)"

definition sem_start :: "32 word \<Rightarrow> 32 word \<Rightarrow> sem_machine" where
  "sem_start initial lim =
     \<lparr>sc = sem_count (semaphore_new initial lim), slim = sem_limit (semaphore_new initial lim),
      spc = (\<lambda>_. SIdle), taken = 0, released = 0\<rparr>"

definition sem_inv :: "32 word \<Rightarrow> 32 word \<Rightarrow> sem_machine \<Rightarrow> bool" where
  "sem_inv initial lim m \<longleftrightarrow>
     slim m = lim \<and> 0 \<le> sint (sc m) \<and> sint (sc m) \<le> sint lim \<and>
     sint (sc m) + taken m = sint initial + released m"

lemma sint_32_bounds: "- (2 ^ 31) \<le> sint (w :: 32 word)" "sint (w :: 32 word) < 2 ^ 31"
  using sint_greater_eq [of w] sint_less [of w] by simp_all

lemma sint_of_int_32: "- (2 ^ 31) \<le> k \<Longrightarrow> k < 2 ^ 31 \<Longrightarrow> sint (word_of_int k :: 32 word) = k"
  by (simp add: signed_of_int signed_take_bit_int_eq_self)

lemma sint_dec: "0 < sint (c :: 32 word) \<Longrightarrow> sint (c - 1) = sint c - 1"
  using sint_of_int_32 [of "sint c - 1"] sint_32_bounds [of c] by simp

lemma sint_add_ok:
  "- (2 ^ 31) \<le> sint a + sint b \<Longrightarrow> sint a + sint b < 2 ^ 31 \<Longrightarrow>
   sint (a + b :: 32 word) = sint a + sint b"
  using sint_of_int_32 [of "sint a + sint b"] by simp

lemma release_accepted:
  "\<not> release_refused n c lim \<longleftrightarrow> 0 < sint n \<and> sint c + sint n < 2 ^ 31 \<and> sint (c + n) = sint c + sint n \<and> sint (c + n) \<le> sint lim"
  using sint_add_ok [of c n] sint_32_bounds [of c] sint_32_bounds [of n]
  by (auto simp: release_refused_def checked_add32_def)

lemma sem_step_inv: "sem_step m m' \<Longrightarrow> sem_inv initial lim m \<Longrightarrow> sem_inv initial lim m'"
  by (induction rule: sem_step.induct) (auto simp: sem_inv_def sint_dec release_accepted)


interpretation sem_sys: invariant_system
  "\<lambda>m. m = sem_start initial lim \<and> 0 \<le> sint initial \<and> sint initial \<le> sint lim"
  sem_step "sem_inv initial lim" for initial lim
proof
  show "s = sem_start initial lim \<and> 0 \<le> sint initial \<and> sint initial \<le> sint lim \<Longrightarrow>
      sem_inv initial lim s" for s
    by (auto simp: sem_inv_def sem_start_def semaphore_new_def)
qed (rule sem_step_inv)

text \<open>C9. A semaphore loses and invents no unit under any interleaving: however the loads and
  compare-exchanges of concurrent \<open>try_take\<close> and \<open>release\<close> calls mix, the count stays between
  0 and the limit, and it is the initial count plus what successful releases added minus what
  successful takes removed.\<close>

theorem semaphore_units_conserved:
  assumes "0 \<le> sint initial" "sint initial \<le> sint lim" "sem_step\<^sup>*\<^sup>* (sem_start initial lim) m"
  shows "0 \<le> sint (sc m) \<and> sint (sc m) \<le> sint lim \<and>
         sint (sc m) = sint initial + released m - taken m"
  using sem_sys.reachable_inv [of "sem_start initial lim" initial lim m] assms
  by (auto simp: sem_inv_def)

theorem semaphore_units_conserved_witness:
  "\<exists>m. sem_step\<^sup>*\<^sup>* (sem_start 2 5) m \<and> taken m = 1 \<and> sint (sc m) = 1"
proof -
  let ?a = "(sem_start 2 5)\<lparr>spc := (spc (sem_start 2 5))(0 := STake (sc (sem_start 2 5)))\<rparr>"
  let ?b = "?a\<lparr>sc := 2 - 1, taken := taken ?a + 1, spc := (spc ?a)(0 := SIdle)\<rparr>"
  have "sem_step (sem_start 2 5) ?a" by (rule sem_step.take_load) (simp add: sem_start_def)
  moreover have "sem_step ?a ?b"
    by (rule sem_step.take_ok) (simp_all add: sem_start_def semaphore_new_def)
  ultimately have run: "sem_step\<^sup>*\<^sup>* (sem_start 2 5) ?b" by (meson r_into_rtranclp rtranclp_trans)
  have "taken ?b = 1" "released ?b = 0" by (simp_all add: sem_start_def)
  moreover have "sint (sc ?b) = 2 + released ?b - taken ?b"
    using semaphore_units_conserved [OF _ _ run] by simp
  ultimately show ?thesis using run by (intro exI [of _ ?b]) simp
qed

text \<open>A run without interference is the sequential operation.\<close>

lemma sem_try_take_run:
  assumes "spc m t = SIdle" "sem_try_take \<lparr>sem_count = sc m, sem_limit = slim m, sem_queue = q\<rparr> = (got, sm')"
  shows "sem_step\<^sup>*\<^sup>* m (m\<lparr>sc := sem_count sm', taken := taken m + (if got then 1 else 0)\<rparr>)"
proof -
  let ?a = "m\<lparr>spc := (spc m)(t := STake (sc m))\<rparr>"
  have a: "sem_step m ?a" by (rule sem_step.take_load [OF assms(1)])
  have eq: "(spc m)(t := SIdle) = spc m" using assms(1) by auto
  show ?thesis
  proof (cases "sint (sc m) \<le> 0")
    case True
    have "sem_step ?a (?a\<lparr>spc := (spc ?a)(t := SIdle)\<rparr>)"
      by (rule sem_step.take_empty [OF _ True]) simp
    then have "sem_step\<^sup>*\<^sup>* m m" by (simp add: eq)
    with True assms(2) show ?thesis by (auto simp: sem_try_take_def)
  next
    case False
    have "sem_step ?a (?a\<lparr>sc := sc m - 1, taken := taken ?a + 1, spc := (spc ?a)(t := SIdle)\<rparr>)"
      by (rule sem_step.take_ok) (use False in simp_all)
    then have "sem_step ?a (m\<lparr>sc := sc m - 1, taken := taken m + 1\<rparr>)"
      using eq by (auto simp: eq intro: back_subst [where P = "sem_step ?a"] intro!: sem_machine.equality)
    with a have "sem_step\<^sup>*\<^sup>* m (m\<lparr>sc := sc m - 1, taken := taken m + 1\<rparr>)"
      by (meson r_into_rtranclp rtranclp.rtrancl_into_rtrancl)
    with False assms(2) show ?thesis by (auto simp: sem_try_take_def)
  qed
qed

section \<open>Mutants\<close>

text \<open>
  Inside \<open>try_acquire\<close>: the owner was seen to be the caller (\<open>MSame\<close>) or not (\<open>MCas\<close>), or the
  compare-exchange just succeeded (\<open>MSet\<close>).  Inside \<open>release\<close>: the caller is the owner
  (\<open>MRead\<close>), the recursion read was the last (\<open>MZero\<close>, then \<open>MFree\<close>) or not (\<open>MDec\<close>).
  \<open>depth\<close> counts a thread's successful acquires minus its releases.
\<close>

datatype mut_pc = MOut | MSame | MCas | MSet | MRead | MZero | MFree | MDec u32

record mut_machine =
  mo :: u64
  mr :: u32
  mpc :: "u64 \<Rightarrow> mut_pc"
  depth :: "u64 \<Rightarrow> nat"

inductive mut_step :: "mut_machine \<Rightarrow> mut_machine \<Rightarrow> bool" where
  acq_same: "t \<noteq> 0 \<Longrightarrow> mpc m t = MOut \<Longrightarrow> mo m = t \<Longrightarrow> depth m t < 2 ^ 32 - 1 \<Longrightarrow>
    mut_step m (m\<lparr>mpc := (mpc m)(t := MSame)\<rparr>)"
| acq_add: "mpc m t = MSame \<Longrightarrow>
    mut_step m (m\<lparr>mr := mr m + 1, depth := (depth m)(t := depth m t + 1), mpc := (mpc m)(t := MOut)\<rparr>)"
| acq_other: "t \<noteq> 0 \<Longrightarrow> mpc m t = MOut \<Longrightarrow> mo m \<noteq> t \<Longrightarrow>
    mut_step m (m\<lparr>mpc := (mpc m)(t := MCas)\<rparr>)"
| acq_cas: "mpc m t = MCas \<Longrightarrow> mo m = 0 \<Longrightarrow>
    mut_step m (m\<lparr>mo := t, mpc := (mpc m)(t := MSet)\<rparr>)"
| acq_busy: "mpc m t = MCas \<Longrightarrow> mo m \<noteq> 0 \<Longrightarrow> mut_step m (m\<lparr>mpc := (mpc m)(t := MOut)\<rparr>)"
| acq_set: "mpc m t = MSet \<Longrightarrow>
    mut_step m (m\<lparr>mr := 1, depth := (depth m)(t := depth m t + 1), mpc := (mpc m)(t := MOut)\<rparr>)"
| rel_own: "t \<noteq> 0 \<Longrightarrow> mpc m t = MOut \<Longrightarrow> mo m = t \<Longrightarrow> mut_step m (m\<lparr>mpc := (mpc m)(t := MRead)\<rparr>)"
| rel_last: "mpc m t = MRead \<Longrightarrow> mr m \<le> 1 \<Longrightarrow> mut_step m (m\<lparr>mpc := (mpc m)(t := MZero)\<rparr>)"
| rel_more: "mpc m t = MRead \<Longrightarrow> \<not> mr m \<le> 1 \<Longrightarrow> mut_step m (m\<lparr>mpc := (mpc m)(t := MDec (mr m))\<rparr>)"
| rel_zero: "mpc m t = MZero \<Longrightarrow> mut_step m (m\<lparr>mr := 0, mpc := (mpc m)(t := MFree)\<rparr>)"
| rel_free: "mpc m t = MFree \<Longrightarrow>
    mut_step m (m\<lparr>mo := 0, depth := (depth m)(t := depth m t - 1), mpc := (mpc m)(t := MOut)\<rparr>)"
| rel_dec: "mpc m t = MDec p \<Longrightarrow>
    mut_step m (m\<lparr>mr := p - 1, depth := (depth m)(t := depth m t - 1), mpc := (mpc m)(t := MOut)\<rparr>)"

definition mut_start :: "u64 \<Rightarrow> mut_machine" where
  "mut_start o0 = \<lparr>mo = owner (mutant_new o0), mr = recursion (mutant_new o0), mpc = (\<lambda>_. MOut),
     depth = (\<lambda>t. if t = o0 \<and> t \<noteq> 0 then 1 else 0)\<rparr>"

text \<open>What the owner's program point says about the recursion count.\<close>

fun owner_ok :: "mut_pc \<Rightarrow> nat \<Rightarrow> nat \<Rightarrow> bool" where
  "owner_ok MOut d r \<longleftrightarrow> r = d \<and> 1 \<le> d"
| "owner_ok MSame d r \<longleftrightarrow> r = d \<and> 1 \<le> d \<and> d < 2 ^ 32 - 1"
| "owner_ok MCas d r \<longleftrightarrow> False"
| "owner_ok MSet d r \<longleftrightarrow> d = 0"
| "owner_ok MRead d r \<longleftrightarrow> r = d \<and> 1 \<le> d"
| "owner_ok MZero d r \<longleftrightarrow> d = 1"
| "owner_ok MFree d r \<longleftrightarrow> d = 1"
| "owner_ok (MDec p) d r \<longleftrightarrow> unat p = d \<and> 2 \<le> d"

definition mut_inv :: "mut_machine \<Rightarrow> bool" where
  "mut_inv m \<longleftrightarrow>
     (\<forall>t. t \<noteq> mo m \<or> t = 0 \<longrightarrow> depth m t = 0 \<and> (mpc m t = MOut \<or> mpc m t = MCas)) \<and>
     mpc m 0 = MOut \<and>
     (mo m \<noteq> 0 \<longrightarrow> owner_ok (mpc m (mo m)) (depth m (mo m)) (unat (mr m)) \<and> depth m (mo m) < 2 ^ 32)"

lemma unat_suc_32: "unat (r :: u32) < 2 ^ 32 - 1 \<Longrightarrow> unat (r + 1) = unat r + 1"
  by (simp add: unat_word_ariths)

lemma unat_pred_32: "2 \<le> unat (p :: u32) \<Longrightarrow> unat (p - 1) = unat p - 1"
  by (simp add: unat_sub word_le_nat_alt)

lemma mut_inv_inside:
  "mut_inv m \<Longrightarrow> mpc m t \<noteq> MOut \<Longrightarrow> mpc m t \<noteq> MCas \<Longrightarrow> t = mo m \<and> t \<noteq> 0"
  unfolding mut_inv_def by metis

lemma mut_step_inv: "mut_step m m' \<Longrightarrow> mut_inv m \<Longrightarrow> mut_inv m'"
proof (induction rule: mut_step.induct)
  case (acq_add m t)
  then have t: "t = mo m" "t \<noteq> 0" using mut_inv_inside [of m t] by auto
  with acq_add show ?case using unat_suc_32 [of "mr m"] by (auto simp: mut_inv_def)
next
  case (rel_dec m t p)
  then have t: "t = mo m" "t \<noteq> 0" using mut_inv_inside [of m t] by auto
  with rel_dec show ?case using unat_pred_32 [of p] by (auto simp: mut_inv_def)
next
  case (rel_last m t)
  then have t: "t = mo m" "t \<noteq> 0" using mut_inv_inside [of m t] by auto
  with rel_last show ?case by (auto simp: mut_inv_def word_le_nat_alt)
next
  case (rel_more m t)
  then have t: "t = mo m" "t \<noteq> 0" using mut_inv_inside [of m t] by auto
  with rel_more show ?case by (auto simp: mut_inv_def word_le_nat_alt)
next
  case (acq_set m t)
  then have t: "t = mo m" "t \<noteq> 0" using mut_inv_inside [of m t] by auto
  with acq_set show ?case by (auto simp: mut_inv_def)
next
  case (rel_zero m t)
  then have t: "t = mo m" "t \<noteq> 0" using mut_inv_inside [of m t] by auto
  with rel_zero show ?case by (auto simp: mut_inv_def)
next
  case (rel_free m t)
  then have t: "t = mo m" "t \<noteq> 0" using mut_inv_inside [of m t] by auto
  with rel_free show ?case by (auto simp: mut_inv_def)
qed (auto simp: mut_inv_def split: if_splits)

interpretation mut_sys: invariant_system "\<lambda>m. \<exists>o0. m = mut_start o0" mut_step mut_inv
proof
  show "\<exists>o0. s = mut_start o0 \<Longrightarrow> mut_inv s" for s
    by (auto simp: mut_inv_def mut_start_def mutant_new_def)
qed (rule mut_step_inv)



section \<open>Events\<close>

text \<open>
  A manual \<open>signal\<close> stores the flag before it takes the queue lock, so it is two steps;
  \<open>waking\<close> counts the signals between them.  An automatic \<open>signal\<close> is one step under the
  lock, as is the check and enqueue of a wait.  \<open>ev_scrub\<close> is a waiter leaving by timeout.
\<close>

record ev_machine =
  ev :: event
  waking :: nat
  esched :: inner

inductive ev_step :: "ev_machine \<Rightarrow> ev_machine \<Rightarrow> bool" where
  ev_store: "mode (ev m) = Manual \<Longrightarrow>
    ev_step m (m\<lparr>ev := (ev m)\<lparr>signaled := True\<rparr>, waking := Suc (waking m)\<rparr>)"
| ev_wake: "mode (ev m) = Manual \<Longrightarrow> 0 < waking m \<Longrightarrow> wake_all (ev_queue (ev m)) (esched m) = (n, q, s) \<Longrightarrow>
    ev_step m (m\<lparr>ev := (ev m)\<lparr>ev_queue := q\<rparr>, waking := waking m - 1, esched := s\<rparr>)"
| ev_auto: "mode (ev m) = Auto \<Longrightarrow> event_signal (ev m) (esched m) = (e', s) \<Longrightarrow>
    ev_step m (m\<lparr>ev := e', esched := s\<rparr>)"
| ev_sleep: "event_wait_enter me (ev m) (esched m) = (e', Some (q, s)) \<Longrightarrow>
    ev_step m (m\<lparr>ev := e'\<lparr>ev_queue := q\<rparr>, esched := s\<rparr>)"
| ev_pass: "event_wait_enter me (ev m) (esched m) = (e', None) \<Longrightarrow> ev_step m (m\<lparr>ev := e'\<rparr>)"
| ev_take: "event_try_take (ev m) = (b, e') \<Longrightarrow> ev_step m (m\<lparr>ev := e'\<rparr>)"
| ev_clear: "ev_step m (m\<lparr>ev := event_reset (ev m)\<rparr>)"
| ev_scrub: "ev_step m (m\<lparr>ev := (ev m)\<lparr>ev_queue := wq_remove t (ev_queue (ev m))\<rparr>\<rparr>)"

definition ev_inv :: "ev_machine \<Rightarrow> bool" where
  "ev_inv m \<longleftrightarrow>
     (signaled (ev m) \<and> ev_queue (ev m) \<noteq> [] \<longrightarrow> mode (ev m) = Manual \<and> 0 < waking m)"

lemma event_signal_auto:
  "mode e = Auto \<Longrightarrow> event_signal e s = (e', s') \<Longrightarrow>
   mode e' = Auto \<and>
   (case ev_queue e of [] \<Rightarrow> signaled e' \<and> ev_queue e' = [] \<and> s' = s
    | t # q \<Rightarrow> signaled e' = signaled e \<and> ev_queue e' = q \<and> s' = unblock t s)"
  by (cases "ev_queue e") (auto simp: event_signal_def)

lemma woken_to_fold: "woken_to s (fold unblock q s)"
  by (induction q arbitrary: s) (auto intro: woken_to_trans [OF woken_to_unblock])

lemma fold_unblock_wakes:
  "t \<in> set q \<Longrightarrow> wake_pending (threads (fold unblock q s) t) \<and> \<not> parked (fold unblock q s) t"
proof (induction q arbitrary: s)
  case (Cons u q)
  show ?case
  proof (cases "t = u")
    case True
    then show ?thesis
      using woken_to_fold [of "unblock u s" q] unblock_wakes [where t = u and s = s]
      by (auto simp: woken_to_def)
  next
    case False
    then show ?thesis using Cons by auto
  qed
qed simp

lemma ev_step_inv: "ev_step m m' \<Longrightarrow> ev_inv m \<Longrightarrow> ev_inv m'"
proof (induction rule: ev_step.induct)
  case (ev_auto m e' s)
  then show ?case
    using event_signal_auto [OF ev_auto(1,2)] by (auto simp: ev_inv_def split: list.splits)
qed (auto simp: ev_inv_def wake_all_def event_wait_enter_def wait_if_def event_try_take_def
      event_reset_def wq_remove_def split: event_mode.splits if_splits)

interpretation ev_sys: invariant_system
  "\<lambda>m. \<exists>md s. m = \<lparr>ev = event_with_mode md, waking = 0, esched = s\<rparr>" ev_step ev_inv
proof
  show "\<exists>md s. m = \<lparr>ev = event_with_mode md, waking = 0, esched = s\<rparr> \<Longrightarrow> ev_inv m" for m
    by (auto simp: ev_inv_def event_with_mode_def)
qed (rule ev_step_inv)



end
