(* ===== verification/Handles.thy ===== *)
theory Handles
  imports Kernel_Prelude
begin

text \<open>
  The object manager's handle table (\<open>kernel/src/object.rs\<close>): a map from 32-bit
  handles to objects and the next handle to give out.  The \<open>Any\<close> downcast of \<open>get\<close> is a
  partial projection of the object type.
\<close>

record 'o handle_table =
  ht_map :: "(u32 \<times> 'o) list"
  ht_next :: u32

definition ht_new :: "'o handle_table" where
  "ht_new = \<lparr>ht_map = [], ht_next = 1\<rparr>"

definition ht_insert :: "'o \<Rightarrow> 'o handle_table \<Rightarrow> u32 \<times> 'o handle_table" where
  "ht_insert ob ht =
     (ht_next ht, ht\<lparr>ht_map := bt_insert (ht_next ht) ob (ht_map ht), ht_next := ht_next ht + 1\<rparr>)"

definition ht_get :: "('o \<Rightarrow> 't option) \<Rightarrow> u32 \<Rightarrow> 'o handle_table \<Rightarrow> 't option" where
  "ht_get downcast h ht = Option.bind (map_of (ht_map ht) h) downcast"

definition ht_close :: "u32 \<Rightarrow> 'o handle_table \<Rightarrow> bool \<times> 'o handle_table" where
  "ht_close h ht = (map_of (ht_map ht) h \<noteq> None, ht\<lparr>ht_map := bt_remove h (ht_map ht)\<rparr>)"

definition ht_len :: "'o handle_table \<Rightarrow> nat" where
  "ht_len ht = length (ht_map ht)"

text \<open>
  Handles are given out in order: every handle in use is nonzero and below the next one.
  \<open>issued\<close> handles have been returned; the counter has not wrapped while \<open>ht_next\<close> is
  nonzero.
\<close>

definition ht_ok :: "'o handle_table \<Rightarrow> bool" where
  "ht_ok ht \<longleftrightarrow> bt_sorted (ht_map ht) \<and> 0 < ht_next ht \<and>
     (\<forall>h \<in> fst ` set (ht_map ht). 0 < h \<and> h < ht_next ht)"

section \<open>The handle-table interface\<close>

locale handle_store =
  fixes ins :: "'o \<Rightarrow> 's \<Rightarrow> 'h \<times> 's"
    and look :: "'h \<Rightarrow> 's \<Rightarrow> 'o option"
    and del :: "'h \<Rightarrow> 's \<Rightarrow> bool \<times> 's"
    and ok :: "'s \<Rightarrow> bool"
  assumes ins_fresh: "ok s \<Longrightarrow> ins ob s = (h, s') \<Longrightarrow> look h s = None"
    and look_ins: "ok s \<Longrightarrow> ins ob s = (h, s') \<Longrightarrow> look k s' = (if k = h then Some ob else look k s)"
    and del_result: "ok s \<Longrightarrow> fst (del h s) \<longleftrightarrow> look h s \<noteq> None"
    and look_del: "ok s \<Longrightarrow> look k (snd (del h s)) = (if k = h then None else look k s)"
    and ok_del: "ok s \<Longrightarrow> ok (snd (del h s))"
begin

lemma ins_then_del:
  assumes "ok s" "ins ob s = (h, s')" "ok s'"
  shows "fst (del h s')" "look k (snd (del h s')) = look k s"
  using assms ins_fresh [OF assms(1,2)] by (auto simp: del_result look_del look_ins)

lemma ins_distinct:
  assumes "ok s" "ok s1" "ins a s = (h, s1)" "ins b s1 = (k, s2)"
  shows "h \<noteq> k" "look h s2 = Some a" "look k s2 = Some b"
proof -
  show "h \<noteq> k" using ins_fresh [OF assms(2,4)] look_ins [OF assms(1,3), of h] by auto
  then show "look h s2 = Some a" "look k s2 = Some b"
    using look_ins [OF assms(2,4)] look_ins [OF assms(1,3)] by auto
qed

lemma del_twice: "ok s \<Longrightarrow> \<not> fst (del h (snd (del h s)))"
  by (simp add: del_result ok_del look_del)

end

lemma ht_ok_new [simp]: "ht_ok ht_new"
  by (simp add: ht_ok_def ht_new_def bt_sorted_def)

lemma ht_ok_insert:
  assumes "ht_ok ht" "ht_insert ob ht = (h, ht')" "h \<noteq> - 1"
  shows "ht_ok ht'"
proof -
  have h: "h = ht_next ht" "ht_next ht' = h + 1"
    "ht_map ht' = bt_insert (ht_next ht) ob (ht_map ht)"
    using assms(2) by (auto simp: ht_insert_def)
  have "1 + h \<noteq> 0" using assms(3) by (metis add.commute eq_neg_iff_add_eq_0)
  then have lt: "h < h + 1" using unatSuc [of h] by (simp add: word_less_nat_alt add.commute)
  have "0 < h" using assms(1) h by (simp add: ht_ok_def)
  with assms(1) h lt show ?thesis
    unfolding ht_ok_def by (auto intro: order.strict_trans)
qed

lemma ht_ok_close: "ht_ok ht \<Longrightarrow> ht_ok (snd (ht_close h ht))"
  by (auto simp: ht_ok_def ht_close_def bt_remove_def bt_sorted_def sorted_wrt_map sorted_wrt_filter)

interpretation ht: handle_store ht_insert "ht_get Some" ht_close ht_ok
proof
  fix s s' :: "'a handle_table" and ob h k
  assume ok: "ht_ok s"
  { assume i: "ht_insert ob s = (h, s')"
    show "ht_get Some h s = None"
      using ok i by (auto simp: ht_get_def ht_insert_def ht_ok_def map_of_eq_None_iff)
    show "ht_get Some k s' = (if k = h then Some ob else ht_get Some k s)"
      using i by (auto simp: ht_get_def ht_insert_def) }
  show "fst (ht_close h s) \<longleftrightarrow> ht_get Some h s \<noteq> None"
    by (auto simp: ht_close_def ht_get_def)
  show "ht_get Some k (snd (ht_close h s)) = (if k = h then None else ht_get Some k s)"
    by (auto simp: ht_close_def ht_get_def)
  show "ht_ok (snd (ht_close h s))" using ok by (rule ht_ok_close)
qed

lemma ht_get_downcast: "ht_get d h ht = Option.bind (ht_get Some h ht) d"
  by (cases "map_of (ht_map ht) h") (simp_all add: ht_get_def)

text \<open>A handle names its object until it is closed: as long as the counter has not
  reached its last value, \<open>insert\<close> returns a nonzero handle that was not in use, the table then
  maps it to the object and every other handle as before, closing it succeeds exactly once,
  and the open count follows.\<close>

theorem handle_lifecycle:
  assumes ok: "ht_ok ht" and ins: "ht_insert ob ht = (h, ht')" and last: "h \<noteq> - 1"
  shows "h \<noteq> 0 \<and> ht_get Some h ht = None \<and> ht_get d h ht' = d ob \<and>
         (\<forall>k. k \<noteq> h \<longrightarrow> ht_get d k ht' = ht_get d k ht) \<and> ht_ok ht' \<and>
         ht_len ht' = Suc (ht_len ht) \<and>
         fst (ht_close h ht') \<and> \<not> fst (ht_close h (snd (ht_close h ht')))"
proof -
  have ok': "ht_ok ht'" using ht_ok_insert [OF ok ins last] .
  have "h \<noteq> 0" using ok ins by (auto simp: ht_ok_def ht_insert_def)
  moreover have "ht_len ht' = Suc (ht_len ht)"
    using ok ins by (force simp: ht_ok_def ht_insert_def ht_len_def length_bt_insert)
  moreover note ht.ins_fresh [OF ok ins] ht.look_ins [OF ok ins] ht.ins_then_del(1) [OF ok ins ok']
    ht.del_twice [OF ok'] ok'
  ultimately show ?thesis by (simp add: ht_get_downcast [of d])
qed

theorem handle_lifecycle_witness:
  "ht_insert (7 :: nat) ht_new = (1, snd (ht_insert 7 ht_new)) \<and>
   ht_get Some 1 (snd (ht_insert (7 :: nat) ht_new)) = Some 7 \<and> ht_len (snd (ht_insert (7 :: nat) ht_new)) = 1"
proof -
  have i: "ht_insert (7 :: nat) ht_new = (1, snd (ht_insert 7 ht_new))"
    by (simp add: ht_insert_def ht_new_def)
  show ?thesis
    using handle_lifecycle [OF ht_ok_new i, of Some] i by (simp add: ht_len_def ht_new_def)
qed

text \<open>
  The counter wraps: after the last handle the next one is 0, which the type's comment says is
  never valid.
\<close>

lemma handle_counter_wraps:
  "fst (ht_insert a (snd (ht_insert b \<lparr>ht_map = [], ht_next = - 1\<rparr>))) = 0"
  by (simp add: ht_insert_def)

end
