(* ===== verification/Files.thy ===== *)
theory Files
  imports Kernel_Prelude
begin

text \<open>
  Open files behind a descriptor (\<open>kernel/src/file.rs\<close>): the buffered ext2 and FAT files,
  directory streams and pipes.  A file operation returns its \<open>i64\<close> result, the bytes it
  stores in the caller's buffer and the new state; negative results are errno values.
\<close>

definition EBADF :: int where "EBADF = - 9"
definition ESPIPE :: int where "ESPIPE = - 29"
definition EINVAL :: int where "EINVAL = - 22"
definition EISDIR :: int where "EISDIR = - 21"
definition ENOTDIR :: int where "ENOTDIR = - 20"
definition EPIPE :: int where "EPIPE = - 32"
definition EIO :: int where "EIO = - 5"
definition EROFS :: int where "EROFS = - 30"

definition SEEK_SET :: nat where "SEEK_SET = 0"
definition SEEK_CUR :: nat where "SEEK_CUR = 1"
definition SEEK_END :: nat where "SEEK_END = 2"

section \<open>Buffered files\<close>

text \<open>The part of a read that \<open>Ext2File\<close>, \<open>FatFile\<close> and \<open>RamFile\<close> share: up to \<open>n\<close> bytes at \<open>pos\<close>.\<close>

definition read_slice :: "byte list \<Rightarrow> nat \<Rightarrow> nat \<Rightarrow> byte list" where
  "read_slice data pos n =
     (if length data \<le> pos then [] else take (min n (length data - pos)) (drop pos data))"

text \<open>\<open>resize\<close> with zeros when the write ends past the end, then the overwrite.\<close>

definition resize :: "nat \<Rightarrow> byte list \<Rightarrow> byte list" where
  "resize n xs = (if n \<le> length xs then take n xs else xs @ replicate (n - length xs) 0)"

definition write_slice :: "byte list \<Rightarrow> nat \<Rightarrow> byte list \<Rightarrow> byte list" where
  "write_slice data pos src =
     (let d = (if length data < pos + length src then resize (pos + length src) data else data)
      in splice pos src d)"

record ext2_file =
  ef_path :: string
  ef_buf :: "byte list"
  ef_pos :: nat

definition ext2_file_new :: "string \<Rightarrow> byte list \<Rightarrow> ext2_file" where
  "ext2_file_new path data = \<lparr>ef_path = path, ef_buf = data, ef_pos = 0\<rparr>"

definition ext2_file_read :: "nat \<Rightarrow> ext2_file \<Rightarrow> int \<times> byte list \<times> ext2_file" where
  "ext2_file_read n f =
     (let bs = read_slice (ef_buf f) (ef_pos f) n
      in (int (length bs), bs, f\<lparr>ef_pos := ef_pos f + length bs\<rparr>))"

text \<open>
  \<open>write_path\<close> stands for opening the volume and rewriting the file on it: \<open>None\<close> is a panic, otherwise
  it says whether both succeeded and gives the volume, which a failing write may have changed.  The
  buffer and the position have moved by then.
\<close>

definition ext2_file_write ::
  "(string \<Rightarrow> byte list \<Rightarrow> 'd \<Rightarrow> (bool \<times> 'd) option) \<Rightarrow> byte list \<Rightarrow> ext2_file \<Rightarrow> 'd \<Rightarrow> (int \<times> ext2_file \<times> 'd) option" where
  "ext2_file_write write_path src f disk =
     (let data = write_slice (ef_buf f) (ef_pos f) src;
          f' = f\<lparr>ef_buf := data, ef_pos := ef_pos f + length src\<rparr>
      in map_option (\<lambda>(ok, disk'). (if ok then int (length src) else EIO, f', disk'))
           (write_path (ef_path f) data disk))"

text \<open>The new position of a seek; \<open>i64\<close> addition wraps.\<close>

definition wrap_i64 :: "int \<Rightarrow> int" where
  "wrap_i64 k = (k + 2 ^ 63) mod 2 ^ 64 - 2 ^ 63"

definition seek_to :: "nat \<Rightarrow> nat \<Rightarrow> int \<Rightarrow> nat \<Rightarrow> int" where
  "seek_to len pos off whence =
     (if whence = SEEK_SET \<or> whence = SEEK_CUR \<or> whence = SEEK_END
      then let base = (if whence = SEEK_SET then 0 else if whence = SEEK_CUR then int pos else int len);
               np = wrap_i64 (base + off)
           in if np < 0 then EINVAL else np
      else EINVAL)"

definition ext2_file_seek :: "int \<Rightarrow> nat \<Rightarrow> ext2_file \<Rightarrow> int \<times> ext2_file" where
  "ext2_file_seek off whence f =
     (let np = seek_to (length (ef_buf f)) (ef_pos f) off whence
      in (np, if np < 0 then f else f\<lparr>ef_pos := nat np\<rparr>))"

record fat_file =
  ff_buf :: "byte list"
  ff_pos :: nat

definition fat_file_new :: "byte list \<Rightarrow> fat_file" where
  "fat_file_new data = \<lparr>ff_buf = data, ff_pos = 0\<rparr>"

definition fat_file_read :: "nat \<Rightarrow> fat_file \<Rightarrow> int \<times> byte list \<times> fat_file" where
  "fat_file_read n f =
     (let bs = read_slice (ff_buf f) (ff_pos f) n
      in (int (length bs), bs, f\<lparr>ff_pos := ff_pos f + length bs\<rparr>))"

definition fat_file_write :: "byte list \<Rightarrow> fat_file \<Rightarrow> int \<times> fat_file" where
  "fat_file_write src f = (EROFS, f)"

definition fat_file_seek :: "int \<Rightarrow> nat \<Rightarrow> fat_file \<Rightarrow> int \<times> fat_file" where
  "fat_file_seek off whence f =
     (let np = seek_to (length (ff_buf f)) (ff_pos f) off whence
      in (np, if np < 0 then f else f\<lparr>ff_pos := nat np\<rparr>))"

section \<open>Directory streams\<close>

definition DIRENT_HEAD :: nat where
  "DIRENT_HEAD = 8 + 8 + 2 + 1"

definition reclen :: "string \<Rightarrow> nat" where
  "reclen name = (DIRENT_HEAD + length name + 1 + 7) div 8 * 8"

type_synonym dirent = "nat \<times> byte \<times> string"

text \<open>One record appended to the blob: a zeroed span, then its fields.\<close>

definition put_dirent :: "byte list \<Rightarrow> dirent \<Rightarrow> byte list" where
  "put_dirent blob e =
     (case e of (ino, dtype, name) \<Rightarrow>
        let rl = reclen name; s = length blob;
            b0 = resize (s + rl) blob;
            b1 = splice s (le_bytes 8 ino) b0;
            b2 = splice (s + 8) (le_bytes 8 (s + rl)) b1;
            b3 = splice (s + 16) (le_bytes 2 rl) b2;
            b4 = splice (s + 18) [dtype] b3
        in splice (s + DIRENT_HEAD) (as_bytes name) b4)"

record dir_file =
  df_blob :: "byte list"
  df_pos :: nat

definition dir_file_new :: "dirent list \<Rightarrow> dir_file" where
  "dir_file_new entries = \<lparr>df_blob = foldl put_dirent [] entries, df_pos = 0\<rparr>"

definition dir_file_seek :: "int \<Rightarrow> nat \<Rightarrow> dir_file \<Rightarrow> int \<times> dir_file" where
  "dir_file_seek off whence f =
     (if whence = SEEK_SET then (max off 0, f\<lparr>df_pos := nat (max off 0)\<rparr>) else (EINVAL, f))"

text \<open>
  The loop of \<open>getdents64\<close> copies whole records while they fit.  It reads the record length
  at an unchecked index, which is a panic when out of range, as is a record that runs past
  the blob; a record length of zero repeats the same iteration forever.
\<close>

datatype getdents_result = Copied "byte list" | Panics | Loops

function getdents_loop :: "byte list \<Rightarrow> nat \<Rightarrow> nat \<Rightarrow> nat \<Rightarrow> getdents_result" where
  "getdents_loop blob cap pos n =
     (if pos + n < length blob
      then (case rd_le 2 blob (pos + n + 16) of
              None \<Rightarrow> Panics
            | Some rl \<Rightarrow>
                if cap < n + rl then Copied (take n (drop pos blob))
                else if length blob < pos + n + rl then Panics
                else if rl = 0 then Loops
                else getdents_loop blob cap pos (n + rl))
      else Copied (take n (drop pos blob)))"
  by pat_completeness auto
termination
  by (relation "measure (\<lambda>(blob, cap, pos, n). length blob - (pos + n))") auto

declare getdents_loop.simps [simp del]

text \<open>\<open>None\<close> is a call that does not return (a panic or an endless loop).\<close>

definition getdents64 :: "nat \<Rightarrow> dir_file \<Rightarrow> (int \<times> byte list \<times> dir_file) option" where
  "getdents64 cap f =
     (case getdents_loop (df_blob f) cap (df_pos f) 0 of
        Copied bs \<Rightarrow>
          Some (if bs = [] then (if df_pos f < length (df_blob f) then EINVAL else 0, [], f)
                else (int (length bs), bs, f\<lparr>df_pos := df_pos f + length bs\<rparr>))
      | _ \<Rightarrow> None)"

section \<open>Pipes\<close>

definition PIPE_CAP :: nat where
  "PIPE_CAP = 64 * 1024"

record pipe =
  p_buf :: "byte list"
  p_readers :: nat
  p_writers :: nat

definition pipe_new :: pipe where
  "pipe_new = \<lparr>p_buf = [], p_readers = 1, p_writers = 1\<rparr>"

datatype pipe_read = PRead "byte list" | PEof | PReadBlock

text \<open>One round of the read loop: bytes, end of file, or a wait.\<close>

definition pipe_read_round :: "nat \<Rightarrow> pipe \<Rightarrow> pipe_read \<times> pipe" where
  "pipe_read_round n p =
     (if p_buf p \<noteq> [] then (PRead (take n (p_buf p)), p\<lparr>p_buf := drop n (p_buf p)\<rparr>)
      else if p_writers p = 0 then (PEof, p)
      else (PReadBlock, p))"

definition pipe_read_should_block :: "pipe \<Rightarrow> bool" where
  "pipe_read_should_block p \<longleftrightarrow> p_buf p = [] \<and> p_writers p \<noteq> 0"

datatype pipe_write = PDone int | PMore nat | PWriteBlock

text \<open>One round of the write loop at progress \<open>done\<close>.\<close>

definition pipe_write_round :: "byte list \<Rightarrow> nat \<Rightarrow> pipe \<Rightarrow> pipe_write \<times> pipe" where
  "pipe_write_round data don p =
     (if length data \<le> don then (PDone (int don), p)
      else if p_readers p = 0 then (PDone (if don = 0 then EPIPE else int don), p)
      else let space = PIPE_CAP - length (p_buf p)
           in if 0 < space
              then let n = min space (length data - don)
                   in (PMore (don + n), p\<lparr>p_buf := p_buf p @ take n (drop don data)\<rparr>)
              else (PWriteBlock, p))"

definition pipe_write_should_block :: "pipe \<Rightarrow> bool" where
  "pipe_write_should_block p \<longleftrightarrow> length (p_buf p) = PIPE_CAP \<and> p_readers p \<noteq> 0"

definition drop_read_end :: "pipe \<Rightarrow> pipe" where
  "drop_read_end p = p\<lparr>p_readers := p_readers p - 1\<rparr>"

definition drop_write_end :: "pipe \<Rightarrow> pipe" where
  "drop_write_end p = p\<lparr>p_writers := p_writers p - 1\<rparr>"

section \<open>The contract of a readable file\<close>

fun read_chunks :: "(nat \<Rightarrow> 'f \<Rightarrow> int \<times> byte list \<times> 'f) \<Rightarrow> nat list \<Rightarrow> 'f \<Rightarrow> byte list \<times> 'f" where
  "read_chunks rd [] f = ([], f)"
| "read_chunks rd (n # ns) f =
     (case rd n f of (r, bs, f') \<Rightarrow> map_prod ((@) bs) id (read_chunks rd ns f'))"

locale byte_stream =
  fixes content :: "'f \<Rightarrow> byte list"
    and pos :: "'f \<Rightarrow> nat"
    and rd :: "nat \<Rightarrow> 'f \<Rightarrow> int \<times> byte list \<times> 'f"
  assumes rd_laws: "rd n f = (r, bs, f') \<Longrightarrow>
      bs = take n (drop (pos f) (content f)) \<and> r = int (length bs) \<and>
      content f' = content f \<and> pos f' = pos f + length bs"
begin

lemma read_chunks_content:
  "read_chunks rd ns f = (bs, f') \<Longrightarrow>
   bs = take (sum_list ns) (drop (pos f) (content f)) \<and> content f' = content f"
proof (induction ns arbitrary: f bs f')
  case (Cons n ns)
  obtain r b g where g: "rd n f = (r, b, g)" by (metis prod_cases3)
  obtain c h where c: "read_chunks rd ns g = (c, h)" by fastforce
  have IH: "c = take (sum_list ns) (drop (pos g) (content g))" "content h = content g"
    using Cons.IH [OF c] by auto
  note L = rd_laws [OF g]
  have "take n (drop (pos f) (content f)) @
      take (sum_list ns) (drop (pos f + length (take n (drop (pos f) (content f)))) (content f)) =
      take (n + sum_list ns) (drop (pos f) (content f))"
    by (cases "n \<le> length (drop (pos f) (content f))")
      (auto simp: take_add min_def add.commute)
  then show ?case using Cons.prems g c L IH by auto
qed simp

lemma eof_iff:
  assumes "rd n f = (r, bs, f')" "0 < n"
  shows "r = 0 \<longleftrightarrow> length (content f) \<le> pos f"
  using rd_laws [OF assms(1)] assms(2) by auto

end

lemma read_slice_eq: "read_slice data p n = take n (drop p data)"
  by (auto simp: read_slice_def min_def)

interpretation ext2_stream: byte_stream ef_buf ef_pos ext2_file_read
  by unfold_locales (auto simp: ext2_file_read_def read_slice_eq Let_def)

interpretation fat_stream: byte_stream ff_buf ff_pos fat_file_read
  by unfold_locales (auto simp: fat_file_read_def read_slice_eq Let_def)

lemma length_resize [simp]: "length (resize n xs) = n"
  by (simp add: resize_def)

lemma length_write_slice: "length (write_slice data p src) = max (length data) (p + length src)"
  by (auto simp: write_slice_def Let_def)

lemma write_slice_same: "take (length src) (drop p (write_slice data p src)) = src"
  by (auto simp: write_slice_def Let_def)

lemma write_slice_nth:
  assumes "i < length (write_slice data p src)"
  shows "write_slice data p src ! i =
    (if p \<le> i \<and> i < p + length src then src ! (i - p) else if i < length data then data ! i else 0)"
  using assms by (auto simp: length_write_slice write_slice_def Let_def nth_splice resize_def nth_append)

lemma seek_set: "0 \<le> off \<Longrightarrow> off < 2 ^ 63 \<Longrightarrow> seek_to len p off SEEK_SET = off"
  by (simp add: seek_to_def SEEK_SET_def wrap_i64_def Let_def)

text \<open>C13. What is written to an ext2 file is what is read back: after a successful write and a
  seek to where it started, reads of any sizes adding up to its length return the written
  bytes; the bytes around it are unchanged, a gap past the old end is zero, and the volume
  was given exactly the new contents.\<close>

theorem ext2_file_write_read_back:
  assumes w: "ext2_file_write write_path src f d = Some (r, f1, d1)" and ok: "r \<noteq> EIO"
    and seek: "ext2_file_seek (int (ef_pos f)) SEEK_SET f1 = (p, f2)" and small: "ef_pos f < 2 ^ 63"
    and ns: "sum_list ns = length src"
  shows "r = int (length src) \<and> write_path (ef_path f) (ef_buf f1) d = Some (True, d1) \<and>
         fst (read_chunks ext2_file_read ns f2) = src \<and>
         (\<forall>i < length (ef_buf f1). i < ef_pos f \<or> ef_pos f + length src \<le> i \<longrightarrow>
            ef_buf f1 ! i = (if i < length (ef_buf f) then ef_buf f ! i else 0))"
proof -
  have buf: "ef_buf f1 = write_slice (ef_buf f) (ef_pos f) src" and d: "r = int (length src)"
    "write_path (ef_path f) (ef_buf f1) d = Some (True, d1)"
    using w ok by (auto simp: ext2_file_write_def Let_def split: if_splits)
  have f2: "ef_buf f2 = ef_buf f1" "ef_pos f2 = ef_pos f"
    using seek small by (auto simp: ext2_file_seek_def seek_set Let_def)
  obtain bs g where c: "read_chunks ext2_file_read ns f2 = (bs, g)" by fastforce
  have "bs = src"
    using ext2_stream.read_chunks_content [OF c] by (simp add: ns f2 buf write_slice_same)
  then show ?thesis using c d buf by (auto simp: write_slice_nth)
qed

theorem ext2_file_write_read_back_witness:
  "\<exists>f1 f2. ext2_file_write (\<lambda>p b d. Some (True, b)) [7, 8, 9] \<lparr>ef_path = ''/a'', ef_buf = [1], ef_pos = 3\<rparr> [] =
      Some (3, f1, [1, 0, 0, 7, 8, 9]) \<and>
    ext2_file_seek 3 SEEK_SET f1 = (3, f2) \<and> fst (read_chunks ext2_file_read [1, 2] f2) = [7, 8, 9]"
proof -
  let ?f = "\<lparr>ef_path = ''/a'', ef_buf = [1], ef_pos = 3\<rparr>"
  obtain f1 where w: "ext2_file_write (\<lambda>p b d. Some (True, b)) [7, 8, 9] ?f [] = Some (3, f1, [1, 0, 0, 7, 8, 9])"
    by (simp add: ext2_file_write_def write_slice_def resize_def splice_def numeral_eq_Suc Let_def)
  obtain p f2 where s: "ext2_file_seek (int (ef_pos ?f)) SEEK_SET f1 = (p, f2)" by fastforce
  have "p = 3" using s by (auto simp: ext2_file_seek_def seek_set Let_def)
  then show ?thesis
    using ext2_file_write_read_back [OF w _ s, of "[1, 2]"] w s by (simp add: EIO_def)
qed

section \<open>Directory records\<close>

text \<open>The bytes of one record placed at offset \<open>s\<close>, and of a sequence of records.\<close>

definition enc_dirent :: "nat \<Rightarrow> dirent \<Rightarrow> byte list" where
  "enc_dirent s e =
     (case e of (ino, dtype, name) \<Rightarrow>
        le_bytes 8 ino @ le_bytes 8 (s + reclen name) @ le_bytes 2 (reclen name) @ [dtype] @
        as_bytes name @ replicate (reclen name - DIRENT_HEAD - length name) 0)"

fun enc_dirents :: "nat \<Rightarrow> dirent list \<Rightarrow> byte list" where
  "enc_dirents s [] = []"
| "enc_dirents s (e # es) = enc_dirent s e @ enc_dirents (s + length (enc_dirent s e)) es"

text \<open>A caller's view of the records: number, type and NUL-terminated name.\<close>

function decode_dirents :: "byte list \<Rightarrow> dirent list" where
  "decode_dirents bs =
     (let rl = le_val (take 2 (drop 16 bs))
      in if bs = [] \<or> rl = 0 then []
         else (le_val (take 8 bs), bs ! 18,
               of_bytes (takeWhile (\<lambda>b. b \<noteq> 0) (take (rl - DIRENT_HEAD) (drop DIRENT_HEAD bs))))
              # decode_dirents (drop rl bs))"
  by pat_completeness auto
termination
  by (relation "measure length") auto

declare decode_dirents.simps [simp del]

definition dirent_ok :: "dirent \<Rightarrow> bool" where
  "dirent_ok e \<longleftrightarrow>
     (case e of (ino, dtype, name) \<Rightarrow> ino < 2 ^ 64 \<and> length name \<le> 255 \<and> CHR 0x00 \<notin> set name)"

fun fitting :: "nat \<Rightarrow> nat \<Rightarrow> dirent list \<Rightarrow> dirent list" where
  "fitting cap n [] = []"
| "fitting cap n (e # es) =
     (if n + reclen (snd (snd e)) \<le> cap then e # fitting cap (n + reclen (snd (snd e))) es else [])"

text \<open>Calling \<open>getdents64\<close> until it returns 0, as a directory reader does.\<close>

fun drain_dir :: "nat \<Rightarrow> nat \<Rightarrow> dir_file \<Rightarrow> byte list option" where
  "drain_dir 0 cap f = None"
| "drain_dir (Suc k) cap f =
     (case getdents64 cap f of
        None \<Rightarrow> None
      | Some (r, bs, f') \<Rightarrow>
          if r = 0 then Some [] else if r < 0 then None
          else map_option ((@) bs) (drain_dir k cap f'))"

lemma reclen_bounds: "DIRENT_HEAD + length name + 1 \<le> reclen name" "reclen name \<le> DIRENT_HEAD + length name + 8"
  by (simp_all add: reclen_def DIRENT_HEAD_def)

lemma length_enc_dirent: "length (enc_dirent s (ino, dtype, name)) = reclen name"
  using reclen_bounds [of name] by (simp add: enc_dirent_def DIRENT_HEAD_def)

lemma splice_append: "splice (length a + k) ys (a @ b) = a @ splice k ys b"
  by (simp add: splice_def)

lemma splice_append0: "splice (length a) ys (a @ b) = a @ splice 0 ys b"
  using splice_append [of a 0] by simp

lemma splice_zeros: "splice 0 ys (replicate n 0) = ys @ replicate (n - length ys) 0"
  by (simp add: splice_def)

lemma put_dirent_enc: "put_dirent blob e = blob @ enc_dirent (length blob) e"
proof -
  obtain ino dtype name where e: "e = (ino, dtype, name)" by (cases e)
  let ?rl = "reclen name" and ?s = "length blob"
  have rl: "19 + length name + 1 \<le> ?rl" using reclen_bounds(1) [of name] by (simp add: DIRENT_HEAD_def)
  define a where "a = le_bytes 8 ino"
  define b where "b = le_bytes 8 (?s + ?rl)"
  define c where "c = le_bytes 2 ?rl"
  have l: "length a = 8" "length b = 8" "length c = 2" by (simp_all add: a_def b_def c_def)
  have 0: "resize (?s + ?rl) blob = blob @ replicate ?rl 0"
    using rl by (simp add: resize_def)
  have 1: "splice ?s a (blob @ replicate ?rl 0) = blob @ a @ replicate (?rl - 8) 0"
    by (simp add: splice_append0 splice_zeros l)
  have 2: "splice (?s + 8) b (blob @ a @ replicate (?rl - 8) 0) = blob @ a @ b @ replicate (?rl - 16) 0"
    using splice_append0 [of "blob @ a" b] by (simp add: splice_zeros l)
  have 3: "splice (?s + 16) c (blob @ a @ b @ replicate (?rl - 16) 0) = blob @ a @ b @ c @ replicate (?rl - 18) 0"
    using splice_append0 [of "blob @ a @ b" c] by (simp add: splice_zeros l)
  have 4: "splice (?s + 18) [dtype] (blob @ a @ b @ c @ replicate (?rl - 18) 0) =
      blob @ a @ b @ c @ [dtype] @ replicate (?rl - 19) 0"
    using splice_append0 [of "blob @ a @ b @ c" "[dtype]"] by (simp add: splice_zeros l)
  have 5: "splice (?s + 19) (as_bytes name) (blob @ a @ b @ c @ [dtype] @ replicate (?rl - 19) 0) =
      blob @ a @ b @ c @ [dtype] @ as_bytes name @ replicate (?rl - 19 - length name) 0"
    using splice_append0 [of "blob @ a @ b @ c @ [dtype]" "as_bytes name"] by (simp add: splice_zeros l)
  show ?thesis
    unfolding put_dirent_def e Let_def prod.case a_def [symmetric] b_def [symmetric] c_def [symmetric]
      enc_dirent_def DIRENT_HEAD_def 0 1 2 3 4
    using 5 by simp
qed

lemma foldl_put_dirent: "foldl put_dirent b es = b @ enc_dirents (length b) es"
  by (induction es arbitrary: b) (simp_all add: put_dirent_enc)

lemma enc_dirents_append:
  "enc_dirents s (es @ fs) = enc_dirents s es @ enc_dirents (s + length (enc_dirents s es)) fs"
  by (induction es arbitrary: s) (simp_all add: add.assoc)

lemma enc_dirent_fields:
  assumes "dirent_ok (ino, dtype, name)"
  shows "take 8 (enc_dirent s (ino, dtype, name) @ r) = le_bytes 8 ino"
    "take 2 (drop 16 (enc_dirent s (ino, dtype, name) @ r)) = le_bytes 2 (reclen name)"
    "(enc_dirent s (ino, dtype, name) @ r) ! 18 = dtype"
    "take (reclen name - DIRENT_HEAD) (drop DIRENT_HEAD (enc_dirent s (ino, dtype, name) @ r)) =
       as_bytes name @ replicate (reclen name - DIRENT_HEAD - length name) 0"
  using reclen_bounds(1) [of name]
  by (simp_all add: enc_dirent_def DIRENT_HEAD_def nth_append)

lemma reclen_small: "dirent_ok (ino, dtype, name) \<Longrightarrow> 0 < reclen name \<and> reclen name \<le> 280"
  by (auto simp: dirent_ok_def reclen_def DIRENT_HEAD_def)

lemma takeWhile_name:
  assumes "CHR 0x00 \<notin> set name" "0 < n"
  shows "takeWhile (\<lambda>b. b \<noteq> 0) (as_bytes name @ replicate n 0) = as_bytes name"
proof -
  have "of_nat (of_char c) \<noteq> (0 :: byte)" if "c \<in> set name" for c
  proof
    assume "of_nat (of_char c) = (0 :: byte)"
    then have "unat (of_nat (of_char c) :: byte) = 0" by simp
    then have "of_char c = (0 :: nat)" by simp
    then have "of_char c = (of_char (CHR 0x00) :: nat)" by simp
    then have "c = CHR 0x00" by (simp only: of_char_eq_iff)
    with that assms(1) show False by simp
  qed
  moreover have "replicate n (0 :: byte) = 0 # replicate (n - 1) 0" using assms(2) by (cases n) auto
  ultimately show ?thesis by (subst takeWhile_append2) (auto simp: as_bytes_def)
qed

lemma decode_enc_dirents:
  "\<forall>e \<in> set es. dirent_ok e \<Longrightarrow> decode_dirents (enc_dirents s es) = es"
proof (induction es arbitrary: s)
  case Nil
  show ?case by (simp add: decode_dirents.simps)
next
  case (Cons e es)
  obtain ino dtype name where e: "e = (ino, dtype, name)" by (cases e)
  have ok: "dirent_ok (ino, dtype, name)" using Cons.prems e by simp
  let ?r = "enc_dirents (s + length (enc_dirent s e)) es"
  note F = enc_dirent_fields [OF ok, of s ?r]
  have rl: "le_val (le_bytes 2 (reclen name)) = reclen name"
    using reclen_small [OF ok] by simp
  have ino: "le_val (le_bytes 8 ino) = ino" using ok by (simp add: dirent_ok_def)
  have nm: "takeWhile (\<lambda>b. b \<noteq> 0) (as_bytes name @ replicate (reclen name - DIRENT_HEAD - length name) 0) = as_bytes name"
    using ok reclen_bounds(1) [of name] by (intro takeWhile_name) (auto simp: dirent_ok_def)
  have d: "drop (reclen name) (enc_dirent s (ino, dtype, name) @ ?r) = ?r"
    by (simp add: length_enc_dirent)
  have ne: "enc_dirent s (ino, dtype, name) @ ?r \<noteq> []"
    using reclen_small [OF ok] length_enc_dirent [of s ino dtype name] by force
  have "decode_dirents (enc_dirent s (ino, dtype, name) @ ?r) = (ino, dtype, name) # decode_dirents ?r"
    by (subst decode_dirents.simps) (simp only: F Let_def rl ino nm d ne of_bytes_as_bytes,
        use reclen_small [OF ok] in simp)
  then show ?case using Cons e by simp
qed

lemma fitting_prefix: "\<exists>q. es = fitting cap n es @ q"
proof (induction es arbitrary: n)
  case (Cons e es)
  then show ?case by (cases "n + reclen (snd (snd e)) \<le> cap") (auto dest: spec)
qed simp

lemma getdents_loop_records:
  assumes "\<forall>e \<in> set es. dirent_ok e"
  shows "getdents_loop (pre @ mid @ enc_dirents s es) cap (length pre) (length mid) =
         Copied (mid @ enc_dirents s (fitting cap (length mid) es))"
  using assms
proof (induction es arbitrary: mid s)
  case Nil
  show ?case by (subst getdents_loop.simps) simp
next
  case (Cons e es)
  obtain ino dtype name where e: "e = (ino, dtype, name)" by (cases e)
  have ok: "dirent_ok (ino, dtype, name)" using Cons.prems e by simp
  let ?e = "enc_dirent s e" and ?r = "enc_dirents (s + length (enc_dirent s e)) es" and ?rl = "reclen name"
  let ?blob = "pre @ mid @ ?e @ ?r"
  have le: "length ?e = ?rl" by (simp add: e length_enc_dirent)
  have rl: "0 < ?rl" "?rl \<le> 280" using reclen_small [OF ok] by auto
  have b: "20 \<le> ?rl" using reclen_bounds(1) [of name] by (simp add: DIRENT_HEAD_def)
  have "take 2 (drop (length pre + length mid + 16) ?blob) = take 2 (drop 16 (?e @ ?r))" by simp
  also have "\<dots> = le_bytes 2 ?rl" using enc_dirent_fields(2) [OF ok] by (simp add: e)
  finally have rd: "rd_le 2 ?blob (length pre + length mid + 16) = Some ?rl"
    using le b rl by (simp add: rd_le_def get_range_def)
  show ?case
  proof (cases "cap < length mid + ?rl")
    case True
    with rd le rl show ?thesis by (subst getdents_loop.simps) (simp add: e)
  next
    case False
    have "getdents_loop ?blob cap (length pre) (length mid) =
        getdents_loop (pre @ (mid @ ?e) @ ?r) cap (length pre) (length (mid @ ?e))"
      using rd le rl False by (subst getdents_loop.simps) simp
    also have "\<dots> = Copied ((mid @ ?e) @ enc_dirents (s + length ?e) (fitting cap (length (mid @ ?e)) es))"
      using Cons.prems by (intro Cons.IH) auto
    finally show ?thesis using False le by (simp add: e)
  qed
qed

lemma getdents_at_boundary:
  assumes blob: "df_blob f = enc_dirents 0 (es1 @ es2)" and pos: "df_pos f = length (enc_dirents 0 es1)"
    and ok: "\<forall>e \<in> set es2. dirent_ok e"
  shows "getdents64 cap f =
    (let bs = enc_dirents (df_pos f) (fitting cap 0 es2)
     in Some (if bs = [] then (if es2 = [] then 0 else EINVAL, [], f)
              else (int (length bs), bs, f\<lparr>df_pos := df_pos f + length bs\<rparr>)))"
proof -
  have b: "df_blob f = enc_dirents 0 es1 @ enc_dirents (df_pos f) es2"
    using blob pos by (simp add: enc_dirents_append)
  have loop: "getdents_loop (df_blob f) cap (df_pos f) 0 = Copied (enc_dirents (df_pos f) (fitting cap 0 es2))"
    using getdents_loop_records [OF ok, of "enc_dirents 0 es1" "[]" "df_pos f" cap] b pos by simp
  have "df_pos f < length (df_blob f) \<longleftrightarrow> es2 \<noteq> []"
  proof (cases es2)
    case (Cons e es)
    obtain ino dtype name where "e = (ino, dtype, name)" by (cases e)
    with Cons ok show ?thesis using b pos reclen_small [of ino dtype name] by (simp add: length_enc_dirent)
  qed (simp add: b pos)
  with loop show ?thesis by (simp add: getdents64_def Let_def)
qed

lemma drain_dir_rest:
  assumes "df_blob f = enc_dirents 0 (es1 @ es2)" "df_pos f = length (enc_dirents 0 es1)"
    "\<forall>e \<in> set es2. dirent_ok e" "280 \<le> cap" "length es2 < k"
  shows "drain_dir k cap f = Some (enc_dirents (df_pos f) es2)"
  using assms
proof (induction k arbitrary: f es1 es2)
  case (Suc k)
  show ?case
  proof (cases es2)
    case Nil
    with Suc.prems getdents_at_boundary [of f es1 es2 cap] show ?thesis by simp
  next
    case (Cons e es)
    obtain ino dtype name where e: "e = (ino, dtype, name)" by (cases e)
    let ?p = "fitting cap 0 es2"
    obtain q where q: "es2 = ?p @ q" using fitting_prefix by blast
    have rl: "0 < reclen name" "reclen name \<le> cap"
      using Suc.prems(3,4) reclen_small [of ino dtype name] by (auto simp: Cons e)
    then have p: "?p = e # fitting cap (reclen name) es" by (simp add: Cons e)
    let ?bs = "enc_dirents (df_pos f) ?p" and ?f = "f\<lparr>df_pos := df_pos f + length (enc_dirents (df_pos f) ?p)\<rparr>"
    have ne: "?bs \<noteq> []" using rl length_enc_dirent [of "df_pos f" ino dtype name] by (auto simp: p e)
    have "drain_dir k cap ?f = Some (enc_dirents (df_pos ?f) q)"
    proof (rule Suc.IH)
      show "df_blob ?f = enc_dirents 0 ((es1 @ ?p) @ q)" using Suc.prems(1) q by simp
      show "df_pos ?f = length (enc_dirents 0 (es1 @ ?p))"
        using Suc.prems(2) by (simp add: enc_dirents_append)
      show "\<forall>e \<in> set q. dirent_ok e" using Suc.prems(3) q by (metis Un_iff set_append)
      show "length q < k" using Suc.prems(5) arg_cong [OF q, of length] by (simp add: p)
    qed (rule Suc.prems(4))
    moreover have "enc_dirents (df_pos f) es2 = ?bs @ enc_dirents (df_pos ?f) q"
      using enc_dirents_append [of "df_pos f" ?p q] q by simp
    ultimately show ?thesis
      using getdents_at_boundary [OF Suc.prems(1-3), of cap] ne by (simp add: Let_def)
  qed
qed simp

text \<open>C14. A directory stream lists every entry once and in order: from a fresh stream, reading
  with a buffer of at least 280 bytes until the end takes at most one call per entry and one
  more, never panics, and the bytes returned decode to exactly the entries the stream was
  opened with.\<close>

theorem dir_stream_lists_all_entries:
  assumes "\<forall>e \<in> set es. dirent_ok e" and "280 \<le> cap"
  shows "\<exists>bs. drain_dir (Suc (length es)) cap (dir_file_new es) = Some bs \<and> decode_dirents bs = es"
  using drain_dir_rest [of "dir_file_new es" "[]" es cap "Suc (length es)"] assms
  by (simp add: dir_file_new_def foldl_put_dirent decode_enc_dirents)

theorem dir_stream_lists_all_entries_witness:
  "\<exists>bs. drain_dir 3 512 (dir_file_new [(2, 4, ''.''), (12, 8, ''init'')]) = Some bs \<and>
     decode_dirents bs = [(2, 4, ''.''), (12, 8, ''init'')]"
  using dir_stream_lists_all_entries [of "[(2, 4, ''.''), (12, 8, ''init'')]" 512]
  by (simp add: dirent_ok_def numeral_3_eq_3)

text \<open>A seek into a directory stream can stop the kernel: any position is accepted, and
  the next \<open>getdents64\<close> then reads a record length at whatever byte it points to; one byte
  before the end of the stream it indexes past the blob and panics, and at a position whose two
  length bytes are zero it loops forever.\<close>

theorem dir_seek_breaks_getdents:
  assumes "dir_file_seek off SEEK_SET f = (r, f')"
    and "0 \<le> off" "nat off < length (df_blob f)"
  shows "(length (df_blob f) < nat off + 18 \<longrightarrow>
            getdents_loop (df_blob f') cap (df_pos f') 0 = Panics) \<and>
         (rd_le 2 (df_blob f) (nat off + 16) = Some 0 \<longrightarrow>
            getdents_loop (df_blob f') cap (df_pos f') 0 = Loops) \<and>
         (length (df_blob f) < nat off + 18 \<or> rd_le 2 (df_blob f) (nat off + 16) = Some 0 \<longrightarrow>
            getdents64 cap f' = None)"
proof -
  have f': "df_blob f' = df_blob f" "df_pos f' = nat off"
    using assms(1,2) by (auto simp: dir_file_seek_def)
  have "length (df_blob f) < nat off + 18 \<Longrightarrow> getdents_loop (df_blob f') cap (df_pos f') 0 = Panics"
    using assms(3) f' by (subst getdents_loop.simps) (simp add: rd_le_def get_range_def)
  moreover have "rd_le 2 (df_blob f) (nat off + 16) = Some 0 \<Longrightarrow>
      getdents_loop (df_blob f') cap (df_pos f') 0 = Loops"
    using assms(3) f' by (subst getdents_loop.simps) simp
  ultimately show ?thesis by (auto simp: getdents64_def)
qed

theorem dir_seek_breaks_getdents_witness:
  "\<exists>r f'. dir_file_seek 23 SEEK_SET (dir_file_new [(2, 4, ''.'')]) = (r, f') \<and> getdents64 512 f' = None"
proof -
  let ?f = "dir_file_new [(2, 4, ''.'')]"
  have l: "length (df_blob ?f) = 24"
    by (simp add: dir_file_new_def put_dirent_enc length_enc_dirent reclen_def DIRENT_HEAD_def)
  obtain r f' where s: "dir_file_seek 23 SEEK_SET ?f = (r, f')" by fastforce
  show ?thesis using dir_seek_breaks_getdents [OF s, of 512] l s by auto
qed

section \<open>Pipes under interleaving\<close>

text \<open>
  Readers, writers and closing ends interleave.  Every change of the pipe is followed by a
  \<open>wake_all\<close> on its wait queue, a separate step (\<open>pending\<close> counts those still due); going to
  sleep re-checks the condition under the queue lock.  \<open>sent\<close> and \<open>got\<close> are the byte
  streams that writers put in and readers took out.
\<close>

datatype side = Reader | Writer

record pipe_machine =
  pp :: pipe
  sleepers :: "side list"
  pending :: nat
  sent :: "byte list"
  got :: "byte list"

definition pipe_start :: pipe_machine where
  "pipe_start = \<lparr>pp = pipe_new, sleepers = [], pending = 0, sent = [], got = []\<rparr>"

inductive pipe_step :: "pipe_machine \<Rightarrow> pipe_machine \<Rightarrow> bool" where
  p_read: "pipe_read_round n (pp m) = (PRead bs, p') \<Longrightarrow>
    pipe_step m (m\<lparr>pp := p', got := got m @ bs, pending := Suc (pending m)\<rparr>)"
| p_read_sleep: "pipe_read_should_block (pp m) \<Longrightarrow>
    pipe_step m (m\<lparr>sleepers := sleepers m @ [Reader]\<rparr>)"
| p_write: "pipe_write_round data k (pp m) = (PMore k', p') \<Longrightarrow>
    pipe_step m (m\<lparr>pp := p', sent := sent m @ take (k' - k) (drop k data), pending := Suc (pending m)\<rparr>)"
| p_write_sleep: "pipe_write_should_block (pp m) \<Longrightarrow>
    pipe_step m (m\<lparr>sleepers := sleepers m @ [Writer]\<rparr>)"
| p_drop_r: "0 < p_readers (pp m) \<Longrightarrow>
    pipe_step m (m\<lparr>pp := drop_read_end (pp m), pending := Suc (pending m)\<rparr>)"
| p_drop_w: "0 < p_writers (pp m) \<Longrightarrow>
    pipe_step m (m\<lparr>pp := drop_write_end (pp m), pending := Suc (pending m)\<rparr>)"
| p_wake: "0 < pending m \<Longrightarrow> pipe_step m (m\<lparr>sleepers := [], pending := pending m - 1\<rparr>)"

definition pipe_inv :: "pipe_machine \<Rightarrow> bool" where
  "pipe_inv m \<longleftrightarrow>
     got m @ p_buf (pp m) = sent m \<and> length (p_buf (pp m)) \<le> PIPE_CAP \<and>
     (Reader \<in> set (sleepers m) \<and> \<not> pipe_read_should_block (pp m) \<longrightarrow> 0 < pending m) \<and>
     (Writer \<in> set (sleepers m) \<and> \<not> pipe_write_should_block (pp m) \<longrightarrow> 0 < pending m)"

lemma pipe_step_inv: "pipe_step m m' \<Longrightarrow> pipe_inv m \<Longrightarrow> pipe_inv m'"
proof (induction rule: pipe_step.induct)
  case (p_read n m bs p')
  then show ?case by (auto simp: pipe_inv_def pipe_read_round_def split: if_splits)
next
  case (p_write data k m k' p')
  define n where "n = min (PIPE_CAP - length (p_buf (pp m))) (length data - k)"
  have "k' = k + n" "p' = (pp m)\<lparr>p_buf := p_buf (pp m) @ take n (drop k data)\<rparr>"
    using p_write(1) unfolding pipe_write_round_def Let_def n_def [symmetric] by (auto split: if_splits)
  then show ?case using p_write(2) unfolding pipe_inv_def by (auto simp: n_def)
qed (auto simp: pipe_inv_def drop_read_end_def drop_write_end_def)

interpretation pipe_sys: invariant_system "\<lambda>m. m = pipe_start" pipe_step pipe_inv
proof
  show "s = pipe_start \<Longrightarrow> pipe_inv s" for s
    by (simp add: pipe_inv_def pipe_start_def pipe_new_def)
qed (rule pipe_step_inv)

text \<open>C15. A pipe is a bounded, lossless byte queue: whatever the interleaving of reads, partial
  writes and closing ends, the bytes read followed by the bytes still buffered are exactly the
  bytes written, at most 65536 are buffered, and a reader sees end of file only when every
  byte has been read and no writer is left.\<close>

theorem pipe_lossless_fifo:
  assumes "pipe_step\<^sup>*\<^sup>* pipe_start m"
  shows "got m @ p_buf (pp m) = sent m \<and> length (p_buf (pp m)) \<le> PIPE_CAP \<and>
         (fst (pipe_read_round n (pp m)) = PEof \<longrightarrow> got m = sent m \<and> p_writers (pp m) = 0)"
proof -
  have "pipe_inv m" using pipe_sys.reachable_inv [OF refl assms] .
  then show ?thesis by (auto simp: pipe_inv_def pipe_read_round_def split: if_splits)
qed

lemma pipe_demo:
  "pipe_step pipe_start (pipe_start\<lparr>pp := pipe_new\<lparr>p_buf := [1, 2, 3]\<rparr>, sent := [1, 2, 3], pending := 1\<rparr>)"
  "pipe_step (pipe_start\<lparr>pp := pipe_new\<lparr>p_buf := [1, 2, 3]\<rparr>, sent := [1, 2, 3], pending := 1\<rparr>)
    (pipe_start\<lparr>pp := pipe_new\<lparr>p_buf := [3]\<rparr>, sent := [1, 2, 3], pending := 2, got := [1, 2]\<rparr>)"
proof -
  have w: "pipe_write_round [1, 2, 3] 0 pipe_new = (PMore 3, pipe_new\<lparr>p_buf := [1, 2, 3]\<rparr>)"
  proof -
    have "min PIPE_CAP 3 = 3" "0 < PIPE_CAP" by (simp_all add: PIPE_CAP_def)
    then show ?thesis by (simp add: pipe_write_round_def pipe_new_def Let_def numeral_3_eq_3)
  qed
  show "pipe_step pipe_start (pipe_start\<lparr>pp := pipe_new\<lparr>p_buf := [1, 2, 3]\<rparr>, sent := [1, 2, 3], pending := 1\<rparr>)"
    using pipe_step.p_write [of "[1, 2, 3]" 0 pipe_start 3 "pipe_new\<lparr>p_buf := [1, 2, 3]\<rparr>"] w
    by (simp add: pipe_start_def)
  have r: "pipe_read_round 2 (pipe_new\<lparr>p_buf := [1, 2, 3]\<rparr>) = (PRead [1, 2], pipe_new\<lparr>p_buf := [3]\<rparr>)"
    by (simp add: pipe_read_round_def numeral_2_eq_2)
  show "pipe_step (pipe_start\<lparr>pp := pipe_new\<lparr>p_buf := [1, 2, 3]\<rparr>, sent := [1, 2, 3], pending := 1\<rparr>)
    (pipe_start\<lparr>pp := pipe_new\<lparr>p_buf := [3]\<rparr>, sent := [1, 2, 3], pending := 2, got := [1, 2]\<rparr>)"
    using pipe_step.p_read [of 2 "pipe_start\<lparr>pp := pipe_new\<lparr>p_buf := [1, 2, 3]\<rparr>, sent := [1, 2, 3], pending := 1\<rparr>"] r
    by (simp add: pipe_start_def numeral_2_eq_2)
qed

theorem pipe_lossless_fifo_witness:
  "\<exists>m. pipe_step\<^sup>*\<^sup>* pipe_start m \<and> got m = [1, 2] \<and> p_buf (pp m) = [3] \<and> sent m = [1, 2, 3]"
proof -
  let ?m = "pipe_start\<lparr>pp := pipe_new\<lparr>p_buf := [3]\<rparr>, sent := [1, 2, 3], pending := 2, got := [1, 2]\<rparr>"
  have run: "pipe_step\<^sup>*\<^sup>* pipe_start ?m" using pipe_demo by (meson r_into_rtranclp rtranclp_trans)
  show ?thesis using pipe_lossless_fifo [OF run, of 1] run by (intro exI [of _ ?m]) simp
qed

text \<open>C16. No reader or writer is left asleep: in every reachable state, a reader on the pipe's
  wait queue although there is data or no writer left, or a writer on it although there is
  space or no reader left, has a \<open>wake_all\<close> still coming, which empties the queue.\<close>

theorem pipe_no_stuck_sleeper:
  assumes "pipe_step\<^sup>*\<^sup>* pipe_start m"
    and "(Reader \<in> set (sleepers m) \<and> \<not> pipe_read_should_block (pp m)) \<or>
         (Writer \<in> set (sleepers m) \<and> \<not> pipe_write_should_block (pp m))"
  shows "0 < pending m \<and> pipe_step m (m\<lparr>sleepers := [], pending := pending m - 1\<rparr>)"
proof -
  have "pipe_inv m" using pipe_sys.reachable_inv [OF refl assms(1)] .
  then have "0 < pending m" using assms(2) by (auto simp: pipe_inv_def)
  then show ?thesis by (blast intro: pipe_step.p_wake)
qed

theorem pipe_no_stuck_sleeper_witness:
  "\<exists>m. pipe_step\<^sup>*\<^sup>* pipe_start m \<and> Reader \<in> set (sleepers m) \<and> \<not> pipe_read_should_block (pp m) \<and> 0 < pending m"
proof -
  let ?a = "pipe_start\<lparr>sleepers := [Reader]\<rparr>"
  let ?b = "?a\<lparr>pp := drop_write_end (pp ?a), pending := Suc (pending ?a)\<rparr>"
  have "pipe_step pipe_start ?a"
    using pipe_step.p_read_sleep [of pipe_start]
    by (simp add: pipe_start_def pipe_new_def pipe_read_should_block_def)
  moreover have "pipe_step ?a ?b"
    by (rule pipe_step.p_drop_w) (simp add: pipe_start_def pipe_new_def)
  ultimately have run: "pipe_step\<^sup>*\<^sup>* pipe_start ?b" by (meson r_into_rtranclp rtranclp_trans)
  have s: "Reader \<in> set (sleepers ?b)" "\<not> pipe_read_should_block (pp ?b)"
    by (simp_all add: pipe_start_def pipe_new_def drop_write_end_def pipe_read_should_block_def)
  show ?thesis using pipe_no_stuck_sleeper [OF run] s run by blast
qed

end
