(* ===== verification/Vfs.thy ===== *)
theory Vfs
  imports Handles Files
begin

text \<open>
  The in-memory file system (\<open>kernel/src/vfs.rs\<close>): a flat map from paths to file nodes,
  nodes shared by reference, and open files with a cursor in the handle table.
\<close>

record open_file =
  of_vnode :: nat
  of_offset :: nat

text \<open>
  A node is named by its identity, so that a file created over an old one leaves the
  handles of the old node alone.
\<close>

record vfs =
  vnodes :: "nat \<Rightarrow> byte list"
  next_vnode :: nat
  files :: "(string \<times> nat) list"
  table :: "open_file handle_table"

definition vfs_init :: vfs where
  "vfs_init = \<lparr>vnodes = (\<lambda>_. []), next_vnode = 0, files = [], table = ht_new\<rparr>"

definition ram_read_at :: "nat \<Rightarrow> nat \<Rightarrow> byte list \<Rightarrow> byte list" where
  "ram_read_at off n data =
     (if length data \<le> off then []
      else take (min n (length data - off)) (drop off data))"

definition ram_write_at :: "nat \<Rightarrow> byte list \<Rightarrow> byte list \<Rightarrow> byte list" where
  "ram_write_at off buf data =
     (let d = (if length data < off + length buf then resize (off + length buf) data else data)
      in splice off buf d)"

definition vfs_create :: "string \<Rightarrow> vfs \<Rightarrow> nat \<times> vfs" where
  "vfs_create path v =
     (next_vnode v,
      v\<lparr>vnodes := (vnodes v)(next_vnode v := []), next_vnode := Suc (next_vnode v),
        files := bt_insert path (next_vnode v) (files v)\<rparr>)"

definition vfs_lookup :: "string \<Rightarrow> vfs \<Rightarrow> nat option" where
  "vfs_lookup path v = map_of (files v) path"

definition vfs_list :: "vfs \<Rightarrow> string list" where
  "vfs_list v = map fst (files v)"

definition vfs_open :: "string \<Rightarrow> vfs \<Rightarrow> (u32 \<times> vfs) option" where
  "vfs_open path v =
     (case vfs_lookup path v of
        None \<Rightarrow> None
      | Some n \<Rightarrow> (case ht_insert \<lparr>of_vnode = n, of_offset = 0\<rparr> (table v) of
                     (h, t) \<Rightarrow> Some (h, v\<lparr>table := t\<rparr>)))"

text \<open>The cursor lives in the open-file object, so moving it updates the table's entry.\<close>

definition set_offset :: "u32 \<Rightarrow> open_file \<Rightarrow> nat \<Rightarrow> vfs \<Rightarrow> vfs" where
  "set_offset h fo off v =
     v\<lparr>table := (table v)\<lparr>ht_map := bt_insert h (fo\<lparr>of_offset := off\<rparr>) (ht_map (table v))\<rparr>\<rparr>"

definition vfs_read :: "u32 \<Rightarrow> nat \<Rightarrow> vfs \<Rightarrow> (byte list \<times> vfs) option" where
  "vfs_read h n v =
     (case ht_get Some h (table v) of
        None \<Rightarrow> None
      | Some fo \<Rightarrow>
          let bs = ram_read_at (of_offset fo) n (vnodes v (of_vnode fo))
          in Some (bs, set_offset h fo (of_offset fo + length bs) v))"

definition vfs_write :: "u32 \<Rightarrow> byte list \<Rightarrow> vfs \<Rightarrow> (nat \<times> vfs) option" where
  "vfs_write h buf v =
     (case ht_get Some h (table v) of
        None \<Rightarrow> None
      | Some fo \<Rightarrow>
          let d = ram_write_at (of_offset fo) buf (vnodes v (of_vnode fo));
              v1 = v\<lparr>vnodes := (vnodes v)(of_vnode fo := d)\<rparr>
          in Some (length buf, set_offset h fo (of_offset fo + length buf) v1))"

definition vfs_close :: "u32 \<Rightarrow> vfs \<Rightarrow> bool \<times> vfs" where
  "vfs_close h v = map_prod id (\<lambda>t. v\<lparr>table := t\<rparr>) (ht_close h (table v))"

section \<open>Reads, writes and handles\<close>

lemma ram_read_at_eq: "ram_read_at off n data = take n (drop off data)"
  by (auto simp: ram_read_at_def min_def)

lemma ram_write_at_eq: "ram_write_at off buf data = write_slice data off buf"
  by (simp add: ram_write_at_def write_slice_def Let_def)

lemma ht_get_set_offset [simp]:
  "ht_get Some k (table (set_offset h fo off v)) =
   (if k = h then Some (fo\<lparr>of_offset := off\<rparr>) else ht_get Some k (table v))"
  by (simp add: set_offset_def ht_get_def)

lemma ht_ok_set_offset:
  assumes "ht_ok (table v)" "ht_get Some h (table v) \<noteq> None"
  shows "ht_ok (table (set_offset h fo off v))"
proof -
  have "h \<in> fst ` set (ht_map (table v))"
    using assms(2) by (force simp: ht_get_def image_iff dest: map_of_SomeD)
  with assms(1) show ?thesis by (auto simp: set_offset_def ht_ok_def)
qed

text \<open>The cursor of a handle as a readable stream.\<close>

definition handle_content :: "u32 \<Rightarrow> vfs \<Rightarrow> byte list" where
  "handle_content h v = (case ht_get Some h (table v) of Some fo \<Rightarrow> vnodes v (of_vnode fo) | None \<Rightarrow> [])"

definition handle_pos :: "u32 \<Rightarrow> vfs \<Rightarrow> nat" where
  "handle_pos h v = (case ht_get Some h (table v) of Some fo \<Rightarrow> of_offset fo | None \<Rightarrow> 0)"

definition handle_read :: "u32 \<Rightarrow> nat \<Rightarrow> vfs \<Rightarrow> int \<times> byte list \<times> vfs" where
  "handle_read h n v =
     (case vfs_read h n v of Some (bs, v') \<Rightarrow> (int (length bs), bs, v') | None \<Rightarrow> (0, [], v))"

interpretation vfs_stream: byte_stream "handle_content h" "handle_pos h" "handle_read h" for h
  by unfold_locales
    (auto simp: handle_content_def handle_pos_def handle_read_def vfs_read_def ram_read_at_eq
      set_offset_def ht_get_def Let_def split: option.splits bind_splits)

text \<open>Handles on one file have their own cursors and share its bytes: two opens of a path give
  different handles; what is written through the first is read, in chunks of any sizes, from
  the start through the second.\<close>

theorem vfs_two_handles_share_file:
  assumes ok: "ht_ok (table v)" and o1: "vfs_open path v = Some (h1, v1)" and ok1: "ht_ok (table v1)"
    and o2: "vfs_open path v1 = Some (h2, v2)" and w: "vfs_write h1 buf v2 = Some (n, v3)"
    and ns: "length buf \<le> sum_list ns"
  shows "h1 \<noteq> h2 \<and> n = length buf \<and>
         take (length buf) (fst (read_chunks (handle_read h2) ns v3)) = buf \<and>
         handle_pos h1 v3 = length buf \<and> handle_pos h2 v3 = 0"
proof -
  obtain k where k: "vfs_lookup path v = Some k" and i1: "ht_insert \<lparr>of_vnode = k, of_offset = 0\<rparr> (table v) = (h1, table v1)"
    and v1: "v1 = v\<lparr>table := table v1\<rparr>"
    using o1 by (auto simp: vfs_open_def split: option.splits prod.splits)
  have k1: "vfs_lookup path v1 = Some k" using k v1 by (metis vfs.simps(7) vfs_lookup_def vfs.select_convs(3) vfs.update_convs(4) vfs.surjective)
  have i2: "ht_insert \<lparr>of_vnode = k, of_offset = 0\<rparr> (table v1) = (h2, table v2)"
    using o2 k1 by (auto simp: vfs_open_def split: prod.splits)
  note D = ht.ins_distinct [OF ok ok1 i1 i2]
  have v3: "n = length buf" "handle_content h2 v3 = ram_write_at 0 buf (vnodes v2 k)"
    "handle_pos h1 v3 = length buf" "handle_pos h2 v3 = 0"
    using w D by (auto simp: vfs_write_def handle_content_def handle_pos_def Let_def set_offset_def ht_get_def)
  obtain bs v4 where c: "read_chunks (handle_read h2) ns v3 = (bs, v4)" by fastforce
  have "bs = take (sum_list ns) (ram_write_at 0 buf (vnodes v2 k))"
    using vfs_stream.read_chunks_content [OF c] v3 by simp
  then have "take (length buf) bs = buf"
    using ns write_slice_same [of buf 0 "vnodes v2 k"] by (simp add: ram_write_at_eq min_def)
  then show ?thesis using D v3 c by simp
qed

theorem vfs_two_handles_share_file_witness:
  "\<exists>h1 v1 h2 v2 n v3. vfs_open ''/x'' (snd (vfs_create ''/x'' vfs_init)) = Some (h1, v1) \<and>
     vfs_open ''/x'' v1 = Some (h2, v2) \<and> vfs_write h1 [5, 6] v2 = Some (n, v3) \<and>
     h1 \<noteq> h2 \<and> take 2 (fst (read_chunks (handle_read h2) [1, 1] v3)) = [5, 6]"
proof -
  let ?v = "snd (vfs_create ''/x'' vfs_init)"
  have ok: "ht_ok (table ?v)" by (simp add: vfs_create_def vfs_init_def)
  obtain v1 where o1: "vfs_open ''/x'' ?v = Some (1, v1)" and ok1: "ht_ok (table v1)"
    and f1: "files v1 = [(''/x'', 0)]" and n1: "ht_next (table v1) = 2"
    by (simp add: vfs_open_def vfs_lookup_def vfs_create_def vfs_init_def ht_insert_def ht_new_def
        ht_ok_def bt_sorted_def)
  obtain v2 where o2: "vfs_open ''/x'' v1 = Some (2, v2)"
    and g: "ht_get Some 1 (table v2) \<noteq> None"
    using f1 n1 o1
    by (auto simp: vfs_open_def vfs_lookup_def vfs_create_def vfs_init_def ht_insert_def ht_new_def ht_get_def)
  obtain n v3 where w: "vfs_write 1 [5, 6] v2 = Some (n, v3)"
    using g by (auto simp: vfs_write_def Let_def)
  have "(1 :: u32) \<noteq> 2 \<and> take 2 (fst (read_chunks (handle_read 2) [1, 1] v3)) = [5, 6]"
    using vfs_two_handles_share_file [OF ok o1 ok1 o2 w, of "[1, 1]"] by (simp add: numeral_2_eq_2)
  then show ?thesis using o1 o2 w by blast
qed

end
