(* ===== verification/Rust_Text.thy ===== *)
theory Rust_Text
  imports Kernel_Prelude
begin

text \<open>
  The text routines of the Rust library that the record formats of the registry, the
  credential store and the integrity manifest use: splitting, lines, case, hexadecimal and
  decimal numbers, and UTF-8 validity.  A string is its UTF-8 bytes, one character each.
\<close>

section \<open>Splitting and joining\<close>

fun split_on :: "(char \<Rightarrow> bool) \<Rightarrow> string \<Rightarrow> string list" where
  "split_on P [] = [[]]"
| "split_on P (c # cs) =
     (if P c then [] # split_on P cs
      else (case split_on P cs of [] \<Rightarrow> [[c]] | x # xs \<Rightarrow> (c # x) # xs))"

fun join :: "string \<Rightarrow> string list \<Rightarrow> string" where
  "join sep [] = []"
| "join sep [x] = x"
| "join sep (x # y # xs) = x @ sep @ join sep (y # xs)"

abbreviation NL :: char where "NL \<equiv> CHR 0x0A"
abbreviation CR :: char where "CR \<equiv> CHR 0x0D"

definition strip_cr :: "string \<Rightarrow> string" where
  "strip_cr s = (if s \<noteq> [] \<and> last s = CR then butlast s else s)"

text \<open>\<open>str::lines\<close>: the piece after the last newline is a line only when it is not empty.\<close>

definition lines :: "string \<Rightarrow> string list" where
  "lines s =
     (let ps = split_on (\<lambda>c. c = NL) s
      in map strip_cr (butlast ps) @ (if last ps = [] then [] else [last ps]))"

definition split_once :: "char \<Rightarrow> string \<Rightarrow> (string \<times> string) option" where
  "split_once c s =
     (if c \<in> set s then Some (takeWhile (\<lambda>x. x \<noteq> c) s, tl (dropWhile (\<lambda>x. x \<noteq> c) s)) else None)"

section \<open>Case, digits, UTF-8\<close>

definition lower_char :: "char \<Rightarrow> char" where
  "lower_char c =
     (let n = of_char c :: nat in if 65 \<le> n \<and> n \<le> 90 then char_of (n + 32) else c)"

definition to_ascii_lowercase :: "string \<Rightarrow> string" where
  "to_ascii_lowercase s = map lower_char s"

definition hex_chars :: string where
  "hex_chars = ''0123456789abcdef''"

definition hex_digit :: "nat \<Rightarrow> char" where
  "hex_digit n = hex_chars ! n"

definition hex_val :: "char \<Rightarrow> nat option" where
  "hex_val c =
     (let n = of_char c :: nat
      in if 48 \<le> n \<and> n \<le> 57 then Some (n - 48)
         else if 97 \<le> n \<and> n \<le> 102 then Some (n - 87)
         else if 65 \<le> n \<and> n \<le> 70 then Some (n - 55)
         else None)"

text \<open>Two digits per byte, high nibble first.\<close>

definition hex_byte :: "byte \<Rightarrow> string" where
  "hex_byte b = [hex_digit (unat b div 16), hex_digit (unat b mod 16)]"

definition hex_bytes :: "byte list \<Rightarrow> string" where
  "hex_bytes bs = concat (map hex_byte bs)"

text \<open>\<open>u8::from_str_radix(_, 16)\<close> on two characters; a leading plus sign is accepted.\<close>

definition byte_from_hex2 :: "char \<Rightarrow> char \<Rightarrow> byte option" where
  "byte_from_hex2 c d =
     (if c = CHR ''+'' then map_option of_nat (hex_val d)
      else case (hex_val c, hex_val d) of
             (Some h, Some l) \<Rightarrow> Some (of_nat (16 * h + l))
           | _ \<Rightarrow> None)"

function dec_of :: "nat \<Rightarrow> string" where
  "dec_of n = (if n < 10 then [hex_digit n] else dec_of (n div 10) @ [hex_digit (n mod 10)])"
  by pat_completeness auto
termination
  by (relation "measure id") auto

declare dec_of.simps [simp del]

definition dec_val :: "char \<Rightarrow> nat option" where
  "dec_val c = (let n = of_char c :: nat in if 48 \<le> n \<and> n \<le> 57 then Some (n - 48) else None)"

fun dec_acc :: "nat \<Rightarrow> string \<Rightarrow> nat option" where
  "dec_acc a [] = Some a"
| "dec_acc a (c # cs) = (case dec_val c of None \<Rightarrow> None | Some d \<Rightarrow> dec_acc (10 * a + d) cs)"

text \<open>\<open>parse::<u32>\<close>: an optional plus sign, at least one digit, no overflow.\<close>

definition parse_u32 :: "string \<Rightarrow> u32 option" where
  "parse_u32 s =
     (let t = (case s of c # cs \<Rightarrow> if c = CHR ''+'' then cs else s | [] \<Rightarrow> [])
      in if t = [] then None
         else case dec_acc 0 t of
                Some n \<Rightarrow> if n < 2 ^ 32 then Some (of_nat n) else None
              | None \<Rightarrow> None)"

definition cont :: "nat \<Rightarrow> bool" where
  "cont b \<longleftrightarrow> 128 \<le> b \<and> b \<le> 191"

text \<open>UTF-8: the width a lead byte announces, the second byte it allows, and one scalar.\<close>

definition utf8_width :: "nat \<Rightarrow> nat" where
  "utf8_width b =
     (if b < 128 then 1 else if 194 \<le> b \<and> b \<le> 223 then 2
      else if 224 \<le> b \<and> b \<le> 239 then 3 else if 240 \<le> b \<and> b \<le> 244 then 4 else 0)"

definition second_ok :: "nat \<Rightarrow> nat \<Rightarrow> bool" where
  "second_ok b c \<longleftrightarrow>
     (if b = 224 then 160 \<le> c \<and> c \<le> 191 else if b = 237 then 128 \<le> c \<and> c \<le> 159
      else if b = 240 then 144 \<le> c \<and> c \<le> 191 else if b = 244 then 128 \<le> c \<and> c \<le> 143
      else cont c)"

definition utf8_step :: "nat list \<Rightarrow> nat list option" where
  "utf8_step bs =
     (let w = utf8_width (bs ! 0)
      in if bs = [] \<or> w = 0 \<or> length bs < w then None
         else if 2 \<le> w \<and> \<not> (second_ok (bs ! 0) (bs ! 1) \<and> list_all cont (take (w - 2) (drop 2 bs)))
         then None else Some (drop w bs))"

lemma utf8_step_shorter: "utf8_step bs = Some r \<Longrightarrow> length r < length bs"
  by (auto simp: utf8_step_def Let_def split: if_splits)

function utf8 :: "nat list \<Rightarrow> bool" where
  "utf8 bs = (bs = [] \<or> (case utf8_step bs of None \<Rightarrow> False | Some r \<Rightarrow> utf8 r))"
  by pat_completeness auto
termination
  by (relation "measure length") (auto dest: utf8_step_shorter)

declare utf8.simps [simp del]

definition utf8_str :: "string \<Rightarrow> bool" where
  "utf8_str s = utf8 (map of_char s)"

definition from_utf8 :: "byte list \<Rightarrow> string option" where
  "from_utf8 bs = (if utf8_str (of_bytes bs) then Some (of_bytes bs) else None)"

section \<open>Facts\<close>

lemma split_on_no_sep: "\<forall>c \<in> set s. \<not> P c \<Longrightarrow> split_on P s = [s]"
  by (induction s) auto

lemma split_on_ne [simp]: "split_on P s \<noteq> []"
  by (cases s) (auto split: list.split)

lemma split_on_append:
  "\<forall>c \<in> set s. \<not> P c \<Longrightarrow> P d \<Longrightarrow> split_on P (s @ d # t) = s # split_on P t"
  by (induction s) auto

lemma split_on_join:
  "xs \<noteq> [] \<Longrightarrow> \<forall>x \<in> set xs. \<forall>c \<in> set x. \<not> P c \<Longrightarrow> P d \<Longrightarrow> split_on P (join [d] xs) = xs"
proof (induction xs rule: induct_list012)
  case (3 x y xs)
  then show ?case using split_on_append [of x P d "join [d] (y # xs)"] by simp
qed (simp_all add: split_on_no_sep)

text \<open>Lines of a text that is written one newline-terminated record at a time.\<close>

lemma split_on_records:
  "\<forall>x \<in> set xs. NL \<notin> set x \<Longrightarrow>
   split_on (\<lambda>c. c = NL) (concat (map (\<lambda>x. x @ [NL]) xs)) = xs @ [[]]"
proof (induction xs)
  case (Cons x xs)
  then show ?case
    using split_on_append [of x "\<lambda>c. c = NL" NL "concat (map (\<lambda>x. x @ [NL]) xs)"] by auto
qed simp

lemma strip_cr_id: "CR \<notin> set s \<Longrightarrow> strip_cr s = s"
  by (auto simp: strip_cr_def dest: last_in_set)

lemma lines_records:
  "\<forall>x \<in> set xs. NL \<notin> set x \<and> CR \<notin> set x \<Longrightarrow> lines (concat (map (\<lambda>x. x @ [NL]) xs)) = xs"
  using split_on_records [of xs] by (auto simp: lines_def Let_def strip_cr_id map_idI)

lemma split_once_first: "c \<notin> set s \<Longrightarrow> split_once c (s @ c # t) = Some (s, t)"
  by (induction s) (auto simp: split_once_def)

lemma hex_digit_table:
  "list_all (\<lambda>n. hex_val (hex_digit n) = Some n \<and> hex_digit n \<noteq> CHR ''+'' \<and>
     hex_digit n \<in> set hex_chars \<and> (n < 10 \<longrightarrow> dec_val (hex_digit n) = Some n)) [0..<16]"
  by code_simp

lemma hex_digit_facts:
  assumes "n < 16"
  shows "hex_val (hex_digit n) = Some n \<and> hex_digit n \<noteq> CHR ''+'' \<and>
     hex_digit n \<in> set hex_chars \<and> (n < 10 \<longrightarrow> dec_val (hex_digit n) = Some n)"
proof -
  have "n \<in> set [0..<16]" using assms by simp
  then show ?thesis using hex_digit_table unfolding list_all_iff by (rule bspec [rotated])
qed

lemma hex_val_digit [simp, text_simps]: "n < 16 \<Longrightarrow> hex_val (hex_digit n) = Some n"
  using hex_digit_facts by blast

lemma hex_digit_not_plus [simp]: "n < 16 \<Longrightarrow> hex_digit n \<noteq> CHR ''+''"
  using hex_digit_facts by blast

lemma hex_digit_range: "n < 16 \<Longrightarrow> hex_digit n \<in> set hex_chars"
  using hex_digit_facts by blast

lemma dec_val_digit [simp]: "n < 10 \<Longrightarrow> dec_val (hex_digit n) = Some n"
  using hex_digit_facts [of n] by simp

lemma hex_chars_table:
  "list_all (\<lambda>c. c \<noteq> CHR ''+'' \<and> c \<noteq> NL \<and> c \<noteq> CR \<and> c \<noteq> CHR '' '' \<and> c \<noteq> CHR ''-'' \<and>
     c \<noteq> CHR ''='' \<and> of_char c < (128 :: nat)) hex_chars"
  by code_simp

lemma hex_chars_plain:
  assumes "c \<in> set hex_chars"
  shows "c \<noteq> CHR ''+''" "c \<noteq> NL" "c \<noteq> CR" "c \<noteq> CHR '' ''" "c \<noteq> CHR ''-''" "c \<noteq> CHR ''=''"
    "of_char c < (128 :: nat)"
  using bspec [OF hex_chars_table [unfolded list_all_iff] assms] by blast+

lemma byte_from_hex2_hex [simp, text_simps]:
  "byte_from_hex2 (hex_digit (unat b div 16)) (hex_digit (unat b mod 16)) = Some b"
proof -
  have "unat b div 16 < 16" using unat_byte_less [of b] by (simp only: less_mult_imp_div_less)
  moreover have "16 * (unat b div 16) + unat b mod 16 = unat b" by simp
  ultimately show ?thesis by (simp add: byte_from_hex2_def)
qed

lemma hex_bytes_chars: "c \<in> set (hex_bytes bs) \<Longrightarrow> c \<in> set hex_chars"
proof -
  have d: "unat b div 16 < 16" for b :: byte
    using unat_byte_less [of b] by (simp only: less_mult_imp_div_less)
  show "c \<in> set (hex_bytes bs) \<Longrightarrow> c \<in> set hex_chars"
    using hex_digit_range [OF d] hex_digit_range [of "unat b mod 16" for b :: byte]
    by (auto simp: hex_bytes_def hex_byte_def)
qed

lemma length_hex_bytes [simp]: "length (hex_bytes bs) = 2 * length bs"
  by (induction bs) (auto simp: hex_bytes_def hex_byte_def)

lemma dec_acc_append: "dec_acc a (s @ t) = Option.bind (dec_acc a s) (\<lambda>b. dec_acc b t)"
  by (induction s arbitrary: a) (auto split: option.split)

lemma dec_acc_dec_of: "dec_acc 0 (dec_of n) = Some n"
proof (induction n rule: dec_of.induct)
  case (1 n)
  then show ?case by (subst dec_of.simps) (auto simp: dec_acc_append)
qed

lemma dec_of_chars: "c \<in> set (dec_of n) \<Longrightarrow> c \<in> set hex_chars"
proof (induction n rule: dec_of.induct)
  case (1 n)
  then show ?case
    using hex_digit_range [of n] hex_digit_range [of "n mod 10"]
    by (subst (asm) dec_of.simps) (auto split: if_splits)
qed

lemma dec_of_ne [simp]: "dec_of n \<noteq> []"
  by (subst dec_of.simps) simp

lemma parse_u32_dec_of [simp, text_simps]: "parse_u32 (dec_of (unat (w :: u32))) = Some w"
proof -
  obtain c cs where d: "dec_of (unat w) = c # cs" by (meson dec_of_ne neq_Nil_conv)
  have "c \<noteq> CHR ''+''" using hex_chars_plain(1) [OF dec_of_chars [of c "unat w"]] d by simp
  moreover have "unat w < 2 ^ 32" using unsigned_less [of w] by simp
  moreover have "dec_acc 0 (c # cs) = Some (unat w)" using dec_acc_dec_of [of "unat w"] d by simp
  ultimately show ?thesis
    unfolding parse_u32_def Let_def d by (simp del: dec_acc.simps)
qed

lemma utf8_step_append:
  assumes "utf8_step a = Some r"
  shows "utf8_step (a @ b) = Some (r @ b)"
proof -
  let ?w = "utf8_width (a ! 0)"
  have a: "a \<noteq> []" "?w \<noteq> 0" "?w \<le> length a" "r = drop ?w a"
    using assms by (auto simp: utf8_step_def Let_def split: if_splits)
  have "(a @ b) ! 0 = a ! 0" using a by (cases a) auto
  moreover have "2 \<le> ?w \<Longrightarrow> (a @ b) ! 1 = a ! 1 \<and> take (?w - 2) (drop 2 (a @ b)) = take (?w - 2) (drop 2 a)"
    using a by (auto simp: nth_append)
  ultimately show ?thesis using assms a by (auto simp: utf8_step_def Let_def split: if_splits)
qed

lemma utf8_append: "utf8 a \<Longrightarrow> utf8 (a @ b) = utf8 b"
proof (induction a rule: utf8.induct)
  case (1 a)
  show ?case
  proof (cases "a = []")
    case False
    with 1(2) utf8.simps [of a] obtain r where r: "utf8_step a = Some r" "utf8 r"
      by (auto split: option.splits)
    have "utf8 (a @ b) = utf8 (r @ b)"
      using False utf8_step_append [OF r(1)] by (subst utf8.simps) simp
    with 1(1) [OF r(1) r(2)] show ?thesis by simp
  qed simp
qed

lemma utf8_ascii: "\<forall>b \<in> set s. b < 128 \<Longrightarrow> utf8 s"
proof (induction s)
  case (Cons b s)
  then have "utf8_step (b # s) = Some s" by (simp add: utf8_step_def utf8_width_def)
  with Cons show ?case by (subst utf8.simps) simp
qed (simp add: utf8.simps)

lemma utf8_str_append: "utf8_str a \<Longrightarrow> utf8_str (a @ b) = utf8_str b"
  by (simp add: utf8_str_def utf8_append)

lemma utf8_str_ascii: "\<forall>c \<in> set s. of_char c < (128 :: nat) \<Longrightarrow> utf8_str s"
  by (simp add: utf8_str_def utf8_ascii)

lemma from_utf8_as_bytes [simp]: "from_utf8 (as_bytes s) = (if utf8_str s then Some s else None)"
  by (simp add: from_utf8_def)

lemma utf8_str_join:
  "\<forall>x \<in> set xs. utf8_str x \<Longrightarrow> utf8_str sep \<Longrightarrow> utf8_str (join sep xs)"
  by (induction sep xs rule: join.induct) (auto simp: utf8_str_append utf8_str_def [of "[]"] utf8.simps [of "[]"])

section \<open>UTF-8 through splitting and case folding\<close>

lemma utf8_step_iff:
  "utf8_step bs = Some r \<longleftrightarrow>
   bs \<noteq> [] \<and> utf8_width (bs ! 0) \<noteq> 0 \<and> utf8_width (bs ! 0) \<le> length bs \<and>
   (2 \<le> utf8_width (bs ! 0) \<longrightarrow> second_ok (bs ! 0) (bs ! 1) \<and>
      (\<forall>i. 2 \<le> i \<and> i < utf8_width (bs ! 0) \<longrightarrow> cont (bs ! i))) \<and>
   r = drop (utf8_width (bs ! 0)) bs"
proof -
  have "list_all cont (take (w - 2) (drop 2 bs)) \<longleftrightarrow> (\<forall>i. 2 \<le> i \<and> i < w \<longrightarrow> cont (bs ! i))"
    if "2 \<le> w" "w \<le> length bs" for w
  proof
    assume l: "list_all cont (take (w - 2) (drop 2 bs))"
    show "\<forall>i. 2 \<le> i \<and> i < w \<longrightarrow> cont (bs ! i)"
    proof (intro allI impI)
      fix i assume i: "2 \<le> i \<and> i < w"
      then obtain j where "i = j + 2" by (metis add.commute le_Suc_ex)
      with l i that show "cont (bs ! i)" by (auto simp: list_all_length)
    qed
  qed (use that in \<open>auto simp: list_all_length\<close>)
  then show ?thesis by (simp add: utf8_step_def Let_def not_less) blast
qed

lemma utf8_step_before_ascii:
  assumes "utf8_step (a @ c # b) = Some r" "c < 128" "a \<noteq> []"
  shows "\<exists>a'. utf8_step a = Some a' \<and> r = a' @ c # b"
proof -
  have hd: "(a @ c # b) ! 0 = a ! 0" using assms(3) by (simp add: nth_append)
  note w = assms(1) [unfolded utf8_step_iff hd]
  have "utf8_width (a ! 0) \<le> length a"
  proof (rule ccontr)
    assume l: "\<not> utf8_width (a ! 0) \<le> length a"
    then have two: "2 \<le> utf8_width (a ! 0)" using assms(3) by (cases a) auto
    show False
    proof (cases "length a = 1")
      case True
      with w two assms(2) show False
        by (auto simp: nth_append second_ok_def cont_def split: if_splits)
    next
      case False
      then have "2 \<le> length a" using assms(3) by (cases a; cases "tl a") auto
      with w two l have "cont ((a @ c # b) ! length a)" by auto
      with assms(2) show False by (simp add: cont_def)
    qed
  qed
  with w assms(3) show ?thesis
    by (auto simp: utf8_step_iff nth_append)
qed

lemma utf8_before_ascii: "utf8 (a @ c # b) \<Longrightarrow> c < 128 \<Longrightarrow> utf8 a"
proof (induction a rule: utf8.induct)
  case (1 a)
  show ?case
  proof (cases "a = []")
    case False
    then obtain r where "utf8_step (a @ c # b) = Some r" "utf8 r"
      using 1(2) utf8.simps [of "a @ c # b"] by (auto split: option.splits)
    with utf8_step_before_ascii [OF _ 1(3) False] obtain a' where
      "utf8_step a = Some a'" "utf8 (a' @ c # b)" by blast
    with 1 False show ?thesis by (subst utf8.simps) auto
  qed (simp add: utf8.simps)
qed

lemma utf8_after_ascii: "utf8 (c # b) = utf8 b" if "c < 128"
  using that by (subst utf8.simps) (simp add: utf8_step_def utf8_width_def)

lemma utf8_str_cons_ascii: "of_char c < (128::nat) \<Longrightarrow> utf8_str (c # b) = utf8_str b"
  by (simp add: utf8_str_def utf8_after_ascii)

lemma utf8_str_before: "utf8_str (a @ c # b) \<Longrightarrow> of_char c < (128::nat) \<Longrightarrow> utf8_str a"
  by (simp add: utf8_str_def utf8_before_ascii)

lemma split_on_cut:
  "split_on P s = [s] \<and> (\<forall>c \<in> set s. \<not> P c) \<or>
   (\<exists>a c b. s = a @ c # b \<and> P c \<and> (\<forall>x \<in> set a. \<not> P x) \<and> split_on P s = a # split_on P b)"
proof (cases "\<exists>c \<in> set s. P c")
  case True
  then obtain a c b where "s = a @ c # b" "P c" "\<forall>x \<in> set a. \<not> P x"
    using split_list_first_prop [of s P] by blast
  then show ?thesis using split_on_append [of a P c b] by blast
qed (simp add: split_on_no_sep)

lemma split_on_utf8:
  assumes "\<And>c. P c \<Longrightarrow> of_char c < (128::nat)" "utf8_str s" "x \<in> set (split_on P s)"
  shows "utf8_str x"
  using assms(2,3)
proof (induction "length s" arbitrary: s rule: less_induct)
  case less
  from split_on_cut [of P s] show ?case
  proof
    assume "\<exists>a c b. s = a @ c # b \<and> P c \<and> (\<forall>x \<in> set a. \<not> P x) \<and> split_on P s = a # split_on P b"
    then obtain a c b where s: "s = a @ c # b" "P c" "split_on P s = a # split_on P b" by blast
    have a: "utf8_str a" using less(2) s assms(1) utf8_str_before by blast
    then have "utf8_str b" using less(2) s assms(1) by (simp add: utf8_str_append utf8_str_cons_ascii)
    then have "utf8_str x" if "x \<in> set (split_on P b)" using less(1) [of b] s(1) that by simp
    with less(3) s a show ?thesis by auto
  qed (use less in auto)
qed

lemma split_on_pieces: "x \<in> set (split_on P s) \<Longrightarrow> c \<in> set x \<Longrightarrow> \<not> P c \<and> c \<in> set s"
proof (induction "length s" arbitrary: s rule: less_induct)
  case less
  from split_on_cut [of P s] less show ?case by fastforce
qed

lemma lower_char_facts:
  "lower_char (lower_char c) = lower_char c"
  "(of_char (lower_char c) < (128::nat)) = (of_char c < (128::nat))"
  "\<not> of_char c < (128::nat) \<Longrightarrow> lower_char c = c"
  by (auto simp: lower_char_def Let_def)

lemma utf8_step_map:
  assumes "\<And>b. (f b < 128) = (b < (128::nat))" "\<And>b. \<not> b < 128 \<Longrightarrow> f b = b"
  shows "utf8_step (map f bs) = map_option (map f) (utf8_step bs)"
proof -
  have c: "cont (f b) = cont b" for b using assms [of b] by (cases "b < 128") (auto simp: cont_def)
  have s: "second_ok a (f b) = second_ok a b" for a b
    using assms [of b] by (cases "b < 128") (auto simp: second_ok_def cont_def)
  have w: "utf8_width (f b) = utf8_width b" for b
    using assms [of b] by (cases "b < 128") (auto simp: utf8_width_def)
  have lead: "f b = b" if "2 \<le> utf8_width b" for b
    using that assms(2) [of b] by (auto simp: utf8_width_def split: if_splits)
  show ?thesis
    by (cases bs; cases "tl bs")
      (auto simp: utf8_step_def Let_def w c s lead list_all_length take_map drop_map simp flip: list.map(2))
qed

lemma utf8_map:
  assumes "\<And>b. (f b < 128) = (b < (128::nat))" "\<And>b. \<not> b < 128 \<Longrightarrow> f b = b"
  shows "utf8 (map f bs) = utf8 bs"
proof (induction bs rule: utf8.induct)
  case (1 bs)
  show ?case
    using 1 by (subst (1 2) utf8.simps) (auto simp: utf8_step_map [OF assms] split: option.splits)
qed

lemma utf8_str_lower [simp]: "utf8_str (to_ascii_lowercase s) = utf8_str s"
proof -
  have "map of_char (to_ascii_lowercase s)
    = map (\<lambda>b::nat. if 65 \<le> b \<and> b \<le> 90 then b + 32 else b) (map of_char s)"
    by (auto simp: to_ascii_lowercase_def lower_char_def Let_def)
  moreover have "utf8 (map (\<lambda>b::nat. if 65 \<le> b \<and> b \<le> 90 then b + 32 else b) (map of_char s))
    = utf8 (map of_char s)"
    by (rule utf8_map) auto
  ultimately show ?thesis by (simp add: utf8_str_def)
qed

lemma lowercase_idem [simp]: "to_ascii_lowercase (to_ascii_lowercase s) = to_ascii_lowercase s"
  by (simp add: to_ascii_lowercase_def lower_char_facts)

end
