(* ===== verification/Registry.thy ===== *)
theory Registry
  imports Rust_Text
begin

text \<open>
  The registry (\<open>kernel/src/registry.rs\<close>): a tree of keys with values and owners,
  one-shot change watches, and hives that are written to and read back from text files.
  The lazily seeded global tree is a record; an operation returns its result, the new
  state, the events it signals, and the hive file it rewrites.
\<close>

section \<open>Keys and paths\<close>

record reg_value =
  val_ty :: u32
  val_data :: "byte list"

datatype key = Key (subkeys: "(string \<times> key) list") (vals: "(string \<times> reg_value) list") (owner_uid: u32)

definition key_owned :: "u32 \<Rightarrow> key" where
  "key_owned uid = Key [] [] uid"

definition key_new :: key where
  "key_new = Key [] [] 0"

definition write_ok :: "u32 \<Rightarrow> u32 \<Rightarrow> bool" where
  "write_ok owner uid \<longleftrightarrow> uid = 0 \<or> uid = owner"

abbreviation BSLASH :: char where "BSLASH \<equiv> CHR 0x5C"

definition is_sep :: "char \<Rightarrow> bool" where
  "is_sep c \<longleftrightarrow> c = BSLASH \<or> c = CHR ''/''"

definition components :: "string \<Rightarrow> string list" where
  "components path =
     (let c = map to_ascii_lowercase (filter (\<lambda>s. s \<noteq> []) (split_on is_sep path))
      in if c \<noteq> [] \<and> hd c = ''registry'' then tl c else c)"

definition canon :: "string \<Rightarrow> string" where
  "canon path = join [BSLASH] (components path)"

text \<open>\<open>make\<close> returns a reference into the tree; here the update made through it is passed in.\<close>

fun make_with :: "u32 \<Rightarrow> (key \<Rightarrow> key) \<Rightarrow> key \<Rightarrow> string list \<Rightarrow> key" where
  "make_with uid f k [] = f k"
| "make_with uid f k (c # cs) =
     Key (bt_insert c
            (make_with uid f (case map_of (subkeys k) c of Some s \<Rightarrow> s | None \<Rightarrow> key_owned uid) cs)
            (subkeys k))
         (vals k) (owner_uid k)"

fun find_key :: "key \<Rightarrow> string list \<Rightarrow> key option" where
  "find_key k [] = Some k"
| "find_key k (c # cs) =
     (case map_of (subkeys k) c of None \<Rightarrow> None | Some s \<Rightarrow> find_key s cs)"

text \<open>\<open>find_mut\<close> with the update made through it.\<close>

fun update_at :: "(key \<Rightarrow> key) \<Rightarrow> key \<Rightarrow> string list \<Rightarrow> key option" where
  "update_at f k [] = Some (f k)"
| "update_at f k (c # cs) =
     (case map_of (subkeys k) c of
        None \<Rightarrow> None
      | Some s \<Rightarrow>
          map_option (\<lambda>s'. Key (bt_insert c s' (subkeys k)) (vals k) (owner_uid k)) (update_at f s cs))"

section \<open>State and watches\<close>

record watch_entry =
  w_path :: "string list"
  w_tree :: bool
  w_event :: nat

record registry =
  root :: key
  seeded :: bool
  watches :: "watch_entry list"
  hives_loaded :: bool

definition registry_static :: registry where
  "registry_static = \<lparr>root = key_new, seeded = False, watches = [], hives_loaded = False\<rparr>"

definition SEED_ROOTS :: "string list" where
  "SEED_ROOTS = [''machine'', ''user'', ''machine'' @ [BSLASH] @ ''software'', ''machine'' @ [BSLASH] @ ''system'']"

definition run :: "registry \<Rightarrow> registry" where
  "run r =
     (if seeded r then r
      else r\<lparr>root := fold (\<lambda>h k. make_with 0 id k (components h)) SEED_ROOTS (root r), seeded := True\<rparr>)"

definition watch :: "string \<Rightarrow> bool \<Rightarrow> nat \<Rightarrow> registry \<Rightarrow> bool \<times> registry" where
  "watch path tree ev r =
     (let comps = components path; r1 = run r
      in if find_key (root r1) comps = None then (False, r1)
         else (True, r1\<lparr>watches := watches r1 @ [\<lparr>w_path = comps, w_tree = tree, w_event = ev\<rparr>]\<rparr>))"

definition watch_matches :: "string list \<Rightarrow> bool \<Rightarrow> string list \<Rightarrow> bool" where
  "watch_matches wpath tree changed =
     (if length changed < length wpath \<or> take (length wpath) changed \<noteq> wpath then False
      else let depth = length changed - length wpath in depth = 0 \<or> depth = 1 \<or> tree)"

text \<open>The events signalled, in order, and the watches that stay armed.\<close>

fun fire :: "string list \<Rightarrow> watch_entry list \<Rightarrow> nat list \<times> watch_entry list" where
  "fire changed [] = ([], [])"
| "fire changed (w # ws) =
     (case fire changed ws of (evs, rest) \<Rightarrow>
        if watch_matches (w_path w) (w_tree w) changed then (w_event w # evs, rest) else (evs, w # rest))"

section \<open>Hives\<close>

definition HIVES :: "(string list \<times> string) list" where
  "HIVES = [([''machine'', ''software''], ''/etc/thos/registry/software.hiv''),
            ([''machine'', ''system''], ''/etc/thos/registry/system.hiv''),
            ([''user''], ''/etc/thos/registry/user.hiv'')]"

definition under_hive :: "string list \<Rightarrow> string list \<Rightarrow> bool" where
  "under_hive comps rt \<longleftrightarrow> length rt \<le> length comps \<and> list_all (\<lambda>(a, b). a = b) (zip comps rt)"

definition hex :: "byte list \<Rightarrow> string" where
  "hex bs = (if hex_bytes bs = [] then ''-'' else hex_bytes bs)"

definition line_O :: "string \<Rightarrow> u32 \<Rightarrow> string" where
  "line_O prefix uid = ''O '' @ hex (as_bytes prefix) @ '' '' @ dec_of (unat uid)"

definition line_V :: "string \<Rightarrow> string \<Rightarrow> reg_value \<Rightarrow> string" where
  "line_V prefix name v =
     ''V '' @ hex (as_bytes prefix) @ '' '' @ hex (as_bytes name) @ '' '' @ dec_of (unat (val_ty v)) @ '' '' @
     hex (val_data v)"

definition line_K :: "string \<Rightarrow> string" where
  "line_K child = ''K '' @ hex (as_bytes child)"

definition child_path :: "string \<Rightarrow> string \<Rightarrow> string" where
  "child_path prefix name = (if prefix = [] then name else prefix @ [BSLASH] @ name)"

text \<open>The lines \<open>walk\<close> writes for a key, without their newlines.\<close>

fun walk :: "string \<Rightarrow> key \<Rightarrow> string list"
and walk_subs :: "string \<Rightarrow> (string \<times> key) list \<Rightarrow> string list" where
  "walk prefix (Key ss vs uid) =
     (if uid \<noteq> 0 then [line_O prefix uid] else []) @
     map (\<lambda>(name, v). line_V prefix name v) vs @ walk_subs prefix ss"
| "walk_subs prefix [] = []"
| "walk_subs prefix ((name, sub) # ss) =
     line_K (child_path prefix name) # walk (child_path prefix name) sub @ walk_subs prefix ss"

definition HIVE_HEADER :: string where
  "HIVE_HEADER = ''thos-hive v1''"

definition serialize_hive :: "key \<Rightarrow> byte list" where
  "serialize_hive base = as_bytes (concat (map (\<lambda>l. l @ [NL]) (HIVE_HEADER # walk [] base)))"

text \<open>
  Decoding two characters at a time.  Slicing a string inside a multi-byte character
  panics: the outer \<open>None\<close>.  The inner \<open>None\<close> is a malformed field.
\<close>

fun unhex_pairs :: "string \<Rightarrow> (byte list option) option" where
  "unhex_pairs (c # d # r) =
     (if r \<noteq> [] \<and> cont (of_char (hd r)) then None
      else case byte_from_hex2 c d of
             None \<Rightarrow> Some None
           | Some b \<Rightarrow> map_option (map_option ((#) b)) (unhex_pairs r))"
| "unhex_pairs _ = Some (Some [])"

definition unhex_bytes :: "string \<Rightarrow> (byte list option) option" where
  "unhex_bytes s =
     (if s = ''-'' then Some (Some [])
      else if odd (length s) then Some None else unhex_pairs s)"

definition unhex_string :: "string \<Rightarrow> (string option) option" where
  "unhex_string s = map_option (\<lambda>r. Option.bind r from_utf8) (unhex_bytes s)"

text \<open>\<open>it.next().and_then(f)\<close> on the tokens of a line.\<close>

definition next_tok :: "(string \<Rightarrow> ('a option) option) \<Rightarrow> string list \<Rightarrow> (('a option) \<times> string list) option" where
  "next_tok f ts = (case ts of [] \<Rightarrow> Some (None, []) | t # r \<Rightarrow> map_option (\<lambda>x. (x, r)) (f t))"

definition set_owner :: "u32 \<Rightarrow> key \<Rightarrow> key" where
  "set_owner uid k = Key (subkeys k) (vals k) uid"

definition put_value :: "string \<Rightarrow> reg_value \<Rightarrow> key \<Rightarrow> key" where
  "put_value name v k = Key (subkeys k) (bt_insert (to_ascii_lowercase name) v (vals k)) (owner_uid k)"

definition apply_line :: "string \<Rightarrow> key \<Rightarrow> key option" where
  "apply_line line base =
     (case split_on (\<lambda>c. c = CHR '' '') line of
        [] \<Rightarrow> Some base
      | tag # ts \<Rightarrow>
          if tag = ''K'' then
            Option.bind (next_tok unhex_string ts) (\<lambda>(rp, _).
              Some (case rp of None \<Rightarrow> base | Some p \<Rightarrow> make_with 0 id base (components p)))
          else if tag = ''O'' then
            Option.bind (next_tok unhex_string ts) (\<lambda>(rp, ts1).
            Option.bind (next_tok (\<lambda>s. Some (parse_u32 s)) ts1) (\<lambda>(uid, _).
              Some (case (rp, uid) of
                      (Some p, Some u) \<Rightarrow> make_with 0 (set_owner u) base (components p)
                    | _ \<Rightarrow> base)))
          else if tag = ''V'' then
            Option.bind (next_tok unhex_string ts) (\<lambda>(rp, ts1).
            Option.bind (next_tok unhex_string ts1) (\<lambda>(nm, ts2).
            Option.bind (next_tok (\<lambda>s. Some (parse_u32 s)) ts2) (\<lambda>(ty, ts3).
            Option.bind (next_tok unhex_bytes ts3) (\<lambda>(dat, _).
              Some (case (rp, nm, ty, dat) of
                      (Some p, Some n, Some t, Some d) \<Rightarrow>
                        make_with 0 (put_value n \<lparr>val_ty = t, val_data = d\<rparr>) base (components p)
                    | _ \<Rightarrow> base)))))
          else Some base)"

definition deserialize_hive :: "key \<Rightarrow> byte list \<Rightarrow> key option" where
  "deserialize_hive base bytes =
     (case from_utf8 bytes of
        None \<Rightarrow> Some base
      | Some text \<Rightarrow> fold (\<lambda>l acc. Option.bind acc (apply_line l)) (lines text) (Some base))"

text \<open>The hive file a change under \<open>comps\<close> rewrites, and its bytes.\<close>

definition persist :: "string list \<Rightarrow> registry \<Rightarrow> (string \<times> byte list) option" where
  "persist comps r =
     (case List.find (\<lambda>h. under_hive comps (fst h)) HIVES of
        None \<Rightarrow> None
      | Some (rt, path) \<Rightarrow> map_option (\<lambda>k. (path, serialize_hive k)) (find_key (root r) rt))"

fun load_each :: "(string \<Rightarrow> byte list option) \<Rightarrow> (string list \<times> string) list \<Rightarrow> registry \<Rightarrow> (nat \<times> registry) option" where
  "load_each read_path [] r = Some (0, r)"
| "load_each read_path ((rt, path) # hs) r =
     (case read_path path of
        None \<Rightarrow> load_each read_path hs r
      | Some bytes \<Rightarrow>
          Option.bind (deserialize_hive key_new bytes) (\<lambda>k.
            let r1 = run r; r2 = r1\<lparr>root := make_with 0 (\<lambda>_. k) (root r1) rt\<rparr>
            in map_option (map_prod Suc id) (load_each read_path hs r2)))"

definition load_hives :: "(string \<Rightarrow> byte list option) \<Rightarrow> registry \<Rightarrow> (nat \<times> registry) option" where
  "load_hives read_path r =
     (if hives_loaded r then Some (0, r)
      else load_each read_path HIVES (r\<lparr>hives_loaded := True\<rparr>))"

section \<open>Operations\<close>

type_synonym reg_effects = "nat list \<times> (string \<times> byte list) option"

definition create_owned :: "string \<Rightarrow> u32 \<Rightarrow> registry \<Rightarrow> bool \<times> registry \<times> reg_effects" where
  "create_owned path uid r =
     (let comps = components path
      in if comps = [] then (False, r, [], None)
         else let r1 = run r; existed = (find_key (root r1) comps \<noteq> None);
                  r2 = r1\<lparr>root := make_with uid id (root r1) comps\<rparr>;
                  (evs, ws) = (if existed then ([], watches r2) else fire comps (watches r2))
              in (True, r2\<lparr>watches := ws\<rparr>, evs, persist comps r2))"

definition create :: "string \<Rightarrow> registry \<Rightarrow> bool \<times> registry \<times> reg_effects" where
  "create path r = create_owned path 0 r"

definition owner_of :: "string \<Rightarrow> registry \<Rightarrow> u32 option" where
  "owner_of path r = map_option owner_uid (find_key (root (run r)) (components path))"

function create_write_ok_from :: "string list \<Rightarrow> u32 \<Rightarrow> registry \<Rightarrow> bool" where
  "create_write_ok_from comps uid r =
     (case find_key (root (run r)) comps of
        Some k \<Rightarrow> write_ok (owner_uid k) uid
      | None \<Rightarrow> create_write_ok_from (butlast comps) uid r)"
  by pat_completeness auto
termination
proof (relation "measure (\<lambda>(comps, uid, r). length comps)", goal_cases)
  case (2 comps uid r)
  then show ?case by (cases comps) auto
qed simp

declare create_write_ok_from.simps [simp del]

definition create_write_ok :: "string \<Rightarrow> u32 \<Rightarrow> registry \<Rightarrow> bool" where
  "create_write_ok path uid r = create_write_ok_from (components path) uid r"

definition write_key_ok :: "string \<Rightarrow> u32 \<Rightarrow> registry \<Rightarrow> bool" where
  "write_key_ok path uid r =
     (case owner_of path r of None \<Rightarrow> False | Some owner \<Rightarrow> write_ok owner uid)"

definition reg_open :: "string \<Rightarrow> registry \<Rightarrow> bool" where
  "reg_open path r \<longleftrightarrow> find_key (root (run r)) (components path) \<noteq> None"

definition nth_opt :: "nat \<Rightarrow> 'a list \<Rightarrow> 'a option" where
  "nth_opt i xs = (if i < length xs then Some (xs ! i) else None)"

definition enumerate_key :: "string \<Rightarrow> nat \<Rightarrow> registry \<Rightarrow> string option" where
  "enumerate_key path i r =
     Option.bind (find_key (root (run r)) (components path)) (\<lambda>k. nth_opt i (map fst (subkeys k)))"

definition enumerate_value :: "string \<Rightarrow> nat \<Rightarrow> registry \<Rightarrow> (string \<times> u32 \<times> nat) option" where
  "enumerate_value path i r =
     Option.bind (find_key (root (run r)) (components path))
       (\<lambda>k. map_option (\<lambda>(n, v). (n, val_ty v, length (val_data v))) (nth_opt i (vals k)))"

definition set_value :: "string \<Rightarrow> string \<Rightarrow> u32 \<Rightarrow> byte list \<Rightarrow> registry \<Rightarrow> bool \<times> registry \<times> reg_effects" where
  "set_value path name ty dat r =
     (let comps = components path; r1 = run r
      in case update_at (put_value name \<lparr>val_ty = ty, val_data = dat\<rparr>) (root r1) comps of
           None \<Rightarrow> (False, r1, [], None)
         | Some k \<Rightarrow>
             let r2 = r1\<lparr>root := k\<rparr>; (evs, ws) = fire comps (watches r2)
             in (True, r2\<lparr>watches := ws\<rparr>, evs, persist comps r2))"

definition query_value :: "string \<Rightarrow> string \<Rightarrow> registry \<Rightarrow> (u32 \<times> byte list) option" where
  "query_value path name r =
     Option.bind (find_key (root (run r)) (components path))
       (\<lambda>k. map_option (\<lambda>v. (val_ty v, val_data v)) (map_of (vals k) (to_ascii_lowercase name)))"

definition drop_subkey :: "string \<Rightarrow> key \<Rightarrow> key" where
  "drop_subkey leaf k = Key (bt_remove leaf (subkeys k)) (vals k) (owner_uid k)"

definition delete_key :: "string \<Rightarrow> registry \<Rightarrow> bool \<times> registry \<times> reg_effects" where
  "delete_key path r =
     (let comps = components path
      in if comps = [] then (False, r, [], None)
         else let r1 = run r; parent = butlast comps; leaf = last comps
              in case find_key (root r1) parent of
                   None \<Rightarrow> (False, r1, [], None)
                 | Some p \<Rightarrow>
                     if map_of (subkeys p) leaf = None then (False, r1, [], None)
                     else let r2 = r1\<lparr>root := the (update_at (drop_subkey leaf) (root r1) parent)\<rparr>;
                              (evs, ws) = fire parent (watches r2)
                          in (True, r2\<lparr>watches := ws\<rparr>, evs, persist comps r2))"

end
