(* ===== verification/Registry_Props.thy ===== *)
theory Registry_Props
  imports Registry "HOL-Library.Sublist"
begin

text \<open>
  Properties of the registry: the hive text format reads back the tree it was written
  from, values read back as set, the operations keep the tree well formed, and the owner
  checks and watches decide as documented.
\<close>

section \<open>Well-formed trees\<close>

lemma is_sep_code: "is_sep c \<longleftrightarrow> of_char c = (92::nat) \<or> of_char c = (47::nat)"
proof -
  have "of_char BSLASH = (92::nat)" "of_char (CHR ''/'') = (47::nat)" by simp_all
  then show ?thesis unfolding is_sep_def by (metis of_char_eq_iff)
qed

lemma lower_char_sep: "is_sep (lower_char c) = is_sep c"
  by (auto simp: is_sep_code lower_char_def Let_def)

definition key_name_ok :: "string \<Rightarrow> bool" where
  "key_name_ok n \<longleftrightarrow> n \<noteq> [] \<and> list_all (\<lambda>c. \<not> is_sep c) n \<and> to_ascii_lowercase n = n \<and> utf8_str n"

definition val_name_ok :: "string \<Rightarrow> bool" where
  "val_name_ok n \<longleftrightarrow> to_ascii_lowercase n = n \<and> utf8_str n"

text \<open>Sorted maps with normalised names, at every level of the tree.\<close>

fun key_ok :: "key \<Rightarrow> bool"
and subs_ok :: "(string \<times> key) list \<Rightarrow> bool" where
  "key_ok (Key ss vs uid) \<longleftrightarrow>
     bt_sorted ss \<and> bt_sorted vs \<and> list_all (\<lambda>(n, _). val_name_ok n) vs \<and> subs_ok ss"
| "subs_ok [] \<longleftrightarrow> True"
| "subs_ok ((n, k) # ss) \<longleftrightarrow> key_name_ok n \<and> key_ok k \<and> subs_ok ss"

lemma subs_ok_iff: "subs_ok ss \<longleftrightarrow> (\<forall>(n, k) \<in> set ss. key_name_ok n \<and> key_ok k)"
  by (induction ss) auto

lemma key_ok_iff:
  "key_ok k \<longleftrightarrow> bt_sorted (subkeys k) \<and> bt_sorted (vals k) \<and>
     (\<forall>n \<in> fst ` set (vals k). val_name_ok n) \<and>
     (\<forall>(n, s) \<in> set (subkeys k). key_name_ok n \<and> key_ok s)"
  by (cases k) (auto simp: subs_ok_iff list_all_iff)

lemma set_bt_insert: "set (bt_insert k v m) \<subseteq> insert (k, v) (set m)"
  by (induction k v m rule: bt_insert.induct) auto

lemma set_bt_remove: "set (bt_remove k m) \<subseteq> set m"
  by (auto simp: bt_remove_def)

lemma components_ok: "utf8_str p \<Longrightarrow> list_all key_name_ok (components p)"
proof -
  assume u: "utf8_str p"
  have "key_name_ok (to_ascii_lowercase s)" if "s \<in> set (split_on is_sep p)" "s \<noteq> []" for s
  proof -
    have "utf8_str s" by (rule split_on_utf8 [OF _ u that(1)]) (auto simp: is_sep_code)
    moreover have "list_all (\<lambda>c. \<not> is_sep c) (to_ascii_lowercase s)" "to_ascii_lowercase s \<noteq> []"
      using that by (auto simp: list_all_iff to_ascii_lowercase_def lower_char_sep dest: split_on_pieces)
    ultimately show ?thesis by (simp add: key_name_ok_def)
  qed
  then have "list_all key_name_ok (map to_ascii_lowercase (filter (\<lambda>s. s \<noteq> []) (split_on is_sep p)))"
    (is "list_all _ ?c") by (auto simp: list_all_iff)
  moreover from this have "list_all key_name_ok (tl ?c)" by (cases ?c) auto
  ultimately show ?thesis by (simp add: components_def Let_def)
qed

lemma components_join:
  assumes "list_all key_name_ok p" "p = [] \<or> hd p \<noteq> ''registry''"
  shows "components (join [BSLASH] p) = p"
proof (cases "p = []")
  case False
  then have "split_on is_sep (join [BSLASH] p) = p"
    using assms(1) by (intro split_on_join) (auto simp: list_all_iff key_name_ok_def is_sep_def)
  moreover have "filter (\<lambda>s. s \<noteq> []) p = p" "map to_ascii_lowercase p = p"
    using assms(1) by (auto simp: filter_id_conv map_idI list_all_iff key_name_ok_def)
  ultimately show ?thesis using assms(2) by (auto simp: components_def)
qed (simp add: components_def)

lemma key_ok_key_owned [simp]: "key_ok (key_owned uid)"
  by (simp add: key_owned_def bt_sorted_def)

lemma key_ok_sub: "key_ok k \<Longrightarrow> map_of (subkeys k) c = Some s \<Longrightarrow> key_ok s"
  by (auto simp: key_ok_iff [of k] dest: map_of_SomeD)

lemma key_ok_put:
  "key_ok k \<Longrightarrow> key_name_ok c \<Longrightarrow> key_ok s \<Longrightarrow> key_ok (Key (bt_insert c s (subkeys k)) (vals k) u)"
  using set_bt_insert [of c s "subkeys k"] by (auto simp: key_ok_iff [of k] subs_ok_iff list_all_iff)

lemma key_ok_make_with:
  assumes "\<And>s. key_ok s \<Longrightarrow> key_ok (f s)"
  shows "key_ok k \<Longrightarrow> list_all key_name_ok cs \<Longrightarrow> key_ok (make_with uid f k cs)"
proof (induction cs arbitrary: k)
  case (Cons c cs)
  then have "key_ok (make_with uid f (case map_of (subkeys k) c of Some s \<Rightarrow> s | None \<Rightarrow> key_owned uid) cs)"
    by (auto split: option.split intro: key_ok_sub)
  with Cons.prems show ?case by (simp add: key_ok_put del: key_ok.simps)
qed (simp add: assms)

lemma key_ok_make: "key_ok k \<Longrightarrow> list_all key_name_ok cs \<Longrightarrow> key_ok (make_with uid id k cs)"
  by (rule key_ok_make_with) auto

lemma key_ok_update_at:
  assumes "\<And>s. key_ok s \<Longrightarrow> key_ok (f s)"
  shows "key_ok k \<Longrightarrow> list_all key_name_ok cs \<Longrightarrow> update_at f k cs = Some k' \<Longrightarrow> key_ok k'"
proof (induction cs arbitrary: k k')
  case (Cons c cs)
  then show ?case by (auto split: option.splits intro!: key_ok_put dest: key_ok_sub)
qed (auto simp: assms)

lemma key_ok_set_owner: "key_ok k \<Longrightarrow> key_ok (set_owner u k)"
  by (cases k) (simp add: set_owner_def)

lemma key_ok_put_value: "key_ok k \<Longrightarrow> utf8_str n \<Longrightarrow> key_ok (put_value n v k)"
  by (cases k) (auto simp: put_value_def list_all_iff val_name_ok_def dest: set_bt_insert [THEN subsetD])

lemma key_ok_drop_subkey: "key_ok k \<Longrightarrow> key_ok (drop_subkey n k)"
  using set_bt_remove [of n "subkeys k"] by (cases k) (auto simp: drop_subkey_def subs_ok_iff)

section \<open>The hive format\<close>

text \<open>What a line of a hive says, with paths as component lists.\<close>

datatype hive_rec = RK "string list" | RO "string list" u32 | RV "string list" string reg_value

fun rec_path :: "hive_rec \<Rightarrow> string list" where
  "rec_path (RK p) = p"
| "rec_path (RO p u) = p"
| "rec_path (RV p n v) = p"

fun rec_line :: "hive_rec \<Rightarrow> string" where
  "rec_line (RK p) = line_K (join [BSLASH] p)"
| "rec_line (RO p u) = line_O (join [BSLASH] p) u"
| "rec_line (RV p n v) = line_V (join [BSLASH] p) n v"

fun rec_fun :: "hive_rec \<Rightarrow> key \<Rightarrow> key" where
  "rec_fun (RK p) = id"
| "rec_fun (RO p u) = set_owner u"
| "rec_fun (RV p n v) = put_value n v"

definition rec_app :: "hive_rec \<Rightarrow> key \<Rightarrow> key" where
  "rec_app r b = make_with 0 (rec_fun r) b (rec_path r)"

fun rec_under :: "string list \<Rightarrow> hive_rec \<Rightarrow> hive_rec" where
  "rec_under q (RK p) = RK (q @ p)"
| "rec_under q (RO p u) = RO (q @ p) u"
| "rec_under q (RV p n v) = RV (q @ p) n v"

fun recs :: "string list \<Rightarrow> key \<Rightarrow> hive_rec list"
and recs_subs :: "string list \<Rightarrow> (string \<times> key) list \<Rightarrow> hive_rec list" where
  "recs p (Key ss vs uid) =
     (if uid \<noteq> 0 then [RO p uid] else []) @ map (\<lambda>(n, v). RV p n v) vs @ recs_subs p ss"
| "recs_subs p [] = []"
| "recs_subs p ((n, k) # ss) = RK (p @ [n]) # recs (p @ [n]) k @ recs_subs p ss"

definition rec_ok :: "hive_rec \<Rightarrow> bool" where
  "rec_ok r \<longleftrightarrow> list_all key_name_ok (rec_path r) \<and> (rec_path r = [] \<or> hd (rec_path r) \<noteq> ''registry'') \<and>
     (case r of RV _ n _ \<Rightarrow> val_name_ok n | _ \<Rightarrow> True)"

lemma join_snoc:
  "\<forall>x \<in> set p. x \<noteq> [] \<Longrightarrow> join [BSLASH] (p @ [n]) = child_path (join [BSLASH] p) n"
proof (induction p rule: induct_list012)
  case (3 x y zs)
  then show ?case by (cases zs) (auto simp: child_path_def)
qed (auto simp: child_path_def)

lemma walk_recs:
  "list_all key_name_ok p \<Longrightarrow> key_ok k \<Longrightarrow> walk (join [BSLASH] p) k = map rec_line (recs p k)"
  "list_all key_name_ok p \<Longrightarrow> subs_ok ss \<Longrightarrow> walk_subs (join [BSLASH] p) ss = map rec_line (recs_subs p ss)"
proof (induction p k and p ss rule: recs_recs_subs.induct)
  case (3 p n k ss)
  then have "join [BSLASH] (p @ [n]) = child_path (join [BSLASH] p) n"
    by (intro join_snoc) (auto simp: list_all_iff key_name_ok_def)
  with 3 show ?case by (simp del: join.simps)
qed (auto simp del: join.simps)

lemma recs_under:
  "recs (q @ p) k = map (rec_under q) (recs p k)"
  "recs_subs (q @ p) ss = map (rec_under q) (recs_subs p ss)"
  by (induction p k and p ss rule: recs_recs_subs.induct) auto

lemma rec_app_under:
  assumes "map_of ss n = Some x"
  shows "rec_app (rec_under [n] r) (Key ss vs u) = Key (bt_insert n (rec_app r x) ss) vs u"
  using assms by (cases r) (simp_all add: rec_app_def)

lemma bt_insert_same: "bt_sorted m \<Longrightarrow> map_of m k = Some v \<Longrightarrow> bt_insert k v m = m"
  by (rule bt_sorted_eqI) (auto simp: fun_eq_iff)

lemma bt_insert_again: "bt_sorted m \<Longrightarrow> bt_insert k v (bt_insert k w m) = bt_insert k v m"
  by (rule bt_sorted_eqI) (auto simp: fun_eq_iff)

lemma bt_insert_last: "bt_sorted (m @ [(k, w)]) \<Longrightarrow> bt_insert k v m = m @ [(k, v)]"
  by (induction k v m rule: bt_insert.induct) (auto simp: bt_sorted_def)

lemma fold_rec_under:
  "bt_sorted ss \<Longrightarrow> map_of ss n = Some x \<Longrightarrow>
   fold rec_app (map (rec_under [n]) rs) (Key ss vs u) = Key (bt_insert n (fold rec_app rs x) ss) vs u"
proof (induction rs arbitrary: ss x)
  case (Cons r rs)
  then show ?case by (simp add: rec_app_under bt_insert_again)
qed (simp add: bt_insert_same)

text \<open>Replaying a subkey's records after its \<open>K\<close> line adds that subkey at the end.\<close>

lemma fold_rec_sub:
  assumes "bt_sorted (ss @ [(n, k)])" "fold rec_app (recs [] k) key_new = k"
  shows "fold rec_app (RK [n] # recs [n] k) (Key ss vs u) = Key (ss @ [(n, k)]) vs u"
proof -
  have no: "map_of ss n = None"
    using assms(1) by (auto simp: bt_sorted_def sorted_wrt_append map_of_eq_None_iff)
  have so: "bt_sorted ss" using assms(1) by (simp add: bt_sorted_def sorted_wrt_append)
  have "rec_app (RK [n]) (Key ss vs u) = Key (bt_insert n key_new ss) vs u"
    using no by (simp add: rec_app_def key_owned_def key_new_def)
  then have "fold rec_app (RK [n] # recs [n] k) (Key ss vs u)
    = Key (bt_insert n k (bt_insert n key_new ss)) vs u"
    using fold_rec_under [of "bt_insert n key_new ss" n key_new "recs [] k" vs u] assms(2) so
      recs_under(1) [of "[n]" "[]" k] by simp
  also have "bt_insert n k (bt_insert n key_new ss) = ss @ [(n, k)]"
    using bt_insert_again [OF so, of n k key_new] bt_insert_last [OF assms(1), of k] by metis
  finally show ?thesis .
qed

lemma fold_recs:
  "key_ok k \<Longrightarrow> fold rec_app (recs [] k) key_new = k"
  "subs_ok ss \<Longrightarrow> bt_sorted (done @ ss) \<Longrightarrow>
   fold rec_app (recs_subs [] ss) (Key done vs u) = Key (done @ ss) vs u"
proof (induction k and ss arbitrary: and "done" vs u rule: key_ok_subs_ok.induct)
  case (1 ss vs uid)
  have "fold rec_app (map (\<lambda>(n, v). RV [] n v) ws) (Key [] acc u) = Key [] (acc @ ws) u"
    if "bt_sorted (acc @ ws)" "list_all (\<lambda>(n, _). val_name_ok n) ws" for acc ws u
    using that
  proof (induction ws arbitrary: acc)
    case (Cons w ws)
    then have "bt_insert (fst w) (snd w) acc = acc @ [w]"
      by (intro bt_insert_last [of _ _ "snd w", THEN trans]) (auto simp: bt_sorted_def sorted_wrt_append)
    with Cons show ?case by (cases w) (auto simp: rec_app_def put_value_def val_name_ok_def)
  qed simp
  from this [of "[]" vs uid] have "fold rec_app (map (\<lambda>(n, v). RV [] n v) vs) (Key [] [] uid) = Key [] vs uid"
    using 1 by simp
  moreover have "rec_app (RO [] uid) (Key [] [] 0) = Key [] [] uid" by (simp add: rec_app_def set_owner_def)
  moreover have "fold rec_app (recs_subs [] ss) (Key [] vs uid) = Key ss vs uid"
    using 1(1) [of "[]" vs uid] 1(2) by simp
  ultimately show ?case by (cases "uid = 0") (auto simp: key_new_def)
next
  case (3 n k ss)
  have "bt_sorted (done @ [(n, k)])" using 3(4) by (auto simp: bt_sorted_def sorted_wrt_append)
  with 3 show ?case using fold_rec_sub [of "done" n k vs u] by simp
qed simp

lemma unhex_pairs_hex: "unhex_pairs (hex_bytes bs) = Some (Some bs)"
proof (induction bs)
  case (Cons b bs)
  have "\<not> cont (of_char (hd (hex_bytes bs)))" if "hex_bytes bs \<noteq> []"
  proof -
    have "hd (hex_bytes bs) \<in> set hex_chars" using that hex_bytes_chars [OF hd_in_set] by blast
    then show ?thesis by (metis cont_def hex_chars_plain(7) not_less)
  qed
  with Cons show ?case by (auto simp: hex_bytes_def [of "b # bs"] hex_byte_def simp flip: hex_bytes_def)
qed (simp add: hex_bytes_def)

lemma hex_bytes_not_dash: "hex_bytes bs \<noteq> ''-''"
  using length_hex_bytes [of bs] by (metis One_nat_def dvd_triv_left length_Cons list.size(3) odd_one)

lemma unhex_bytes_hex [simp, text_simps]: "unhex_bytes (hex bs) = Some (Some bs)"
proof (cases "bs = []")
  case False
  then have "hex_bytes bs \<noteq> []" using length_hex_bytes [of bs] by (metis length_0_conv mult_eq_0_iff zero_neq_numeral)
  then show ?thesis by (simp add: unhex_bytes_def hex_def hex_bytes_not_dash unhex_pairs_hex)
qed (simp add: unhex_bytes_def hex_def hex_bytes_def)

lemma unhex_string_hex [simp, text_simps]: "utf8_str s \<Longrightarrow> unhex_string (hex (as_bytes s)) = Some (Some s)"
  by (simp add: unhex_string_def)

lemma hex_field:
  "c \<in> set (hex bs) \<Longrightarrow> c \<noteq> CHR '' '' \<and> c \<noteq> NL \<and> c \<noteq> CR \<and> of_char c < (128::nat)"
  using hex_chars_plain hex_bytes_chars [of c bs] by (auto simp: hex_def split: if_splits)

lemma dec_field:
  "c \<in> set (dec_of n) \<Longrightarrow> c \<noteq> CHR '' '' \<and> c \<noteq> NL \<and> c \<noteq> CR \<and> of_char c < (128::nat)"
  using hex_chars_plain dec_of_chars [of c n] by auto

lemma split_fields:
  "fs \<noteq> [] \<Longrightarrow> \<forall>f \<in> set fs. CHR '' '' \<notin> set f \<Longrightarrow>
   split_on (\<lambda>c. c = CHR '' '') (join '' '' fs) = fs"
  by (rule split_on_join) auto

fun rec_fields :: "hive_rec \<Rightarrow> string list" where
  "rec_fields (RK p) = [''K'', hex (as_bytes (join [BSLASH] p))]"
| "rec_fields (RO p u) = [''O'', hex (as_bytes (join [BSLASH] p)), dec_of (unat u)]"
| "rec_fields (RV p n v) = [''V'', hex (as_bytes (join [BSLASH] p)), hex (as_bytes n), dec_of (unat (val_ty v)),
     hex (val_data v)]"

lemma rec_line_fields: "rec_line r = join '' '' (rec_fields r)"
  by (cases r) (simp_all add: line_K_def line_O_def line_V_def)

lemma rec_fields_chars:
  "f \<in> set (rec_fields r) \<Longrightarrow> c \<in> set f \<Longrightarrow> c \<noteq> CHR '' '' \<and> c \<noteq> NL \<and> c \<noteq> CR \<and> of_char c < (128::nat)"
  by (cases r) (auto dest: hex_field dec_field)

lemma rec_line_split: "split_on (\<lambda>c. c = CHR '' '') (rec_line r) = rec_fields r"
  unfolding rec_line_fields using rec_fields_chars [of _ r]
  by (intro split_fields) (cases r, auto)

lemma join_chars: "c \<in> set (join sep xs) \<Longrightarrow> c \<in> set sep \<or> (\<exists>x \<in> set xs. c \<in> set x)"
  by (induction sep xs rule: join.induct) auto

lemma rec_line_chars: "c \<in> set (rec_line r) \<Longrightarrow> c \<noteq> NL \<and> c \<noteq> CR \<and> of_char c < (128::nat)"
  unfolding rec_line_fields using rec_fields_chars [of _ r c] by (auto dest!: join_chars)

lemma path_utf8: "list_all key_name_ok p \<Longrightarrow> utf8_str (join [BSLASH] p)"
  by (rule utf8_str_join) (auto simp: list_all_iff key_name_ok_def intro: utf8_str_ascii)

lemma reg_value_eta: "\<lparr>val_ty = val_ty v, val_data = val_data v\<rparr> = (v :: reg_value)"
  by (cases v) simp

definition rec_names_ok :: "hive_rec \<Rightarrow> bool" where
  "rec_names_ok r \<longleftrightarrow> list_all key_name_ok (rec_path r) \<and> (case r of RV _ n _ \<Rightarrow> val_name_ok n | _ \<Rightarrow> True)"

lemma apply_rec_line:
  "rec_names_ok r \<Longrightarrow>
   apply_line (rec_line r) b = Some (make_with 0 (rec_fun r) b (components (join [BSLASH] (rec_path r))))"
  unfolding apply_line_def rec_line_split
  by (cases r) (simp_all add: rec_names_ok_def next_tok_def path_utf8 val_name_ok_def reg_value_eta del: join.simps)

lemma rec_ok_app:
  "rec_ok r \<Longrightarrow> rec_names_ok r \<and> make_with 0 (rec_fun r) b (components (join [BSLASH] (rec_path r))) = rec_app r b"
  by (cases r) (simp_all add: rec_ok_def rec_names_ok_def components_join rec_app_def del: join.simps)

lemma recs_ok:
  "list_all key_name_ok p \<Longrightarrow> key_ok k \<Longrightarrow> p \<noteq> [] \<Longrightarrow> hd p \<noteq> ''registry'' \<Longrightarrow> \<forall>r \<in> set (recs p k). rec_ok r"
  "list_all key_name_ok p \<Longrightarrow> subs_ok ss \<Longrightarrow> p = [] \<and> ''registry'' \<notin> fst ` set ss \<or> p \<noteq> [] \<and> hd p \<noteq> ''registry'' \<Longrightarrow>
   \<forall>r \<in> set (recs_subs p ss). rec_ok r"
proof (induction p k and p ss rule: recs_recs_subs.induct)
  case (1 p ss vs uid)
  then show ?case by (auto simp: rec_ok_def list_all_iff)
next
  case (3 p n k ss)
  have "hd (p @ [n]) \<noteq> ''registry''" using 3 by (cases p) auto
  with 3 have "\<forall>r \<in> set (recs (p @ [n]) k). rec_ok r" "\<forall>r \<in> set (recs_subs p ss). rec_ok r" by auto
  moreover have "rec_ok (RK (p @ [n]))" using 3 \<open>hd (p @ [n]) \<noteq> ''registry''\<close> by (simp add: rec_ok_def)
  ultimately show ?case by auto
qed simp

lemma root_recs_ok: "key_ok k \<Longrightarrow> ''registry'' \<notin> fst ` set (subkeys k) \<Longrightarrow> \<forall>r \<in> set (recs [] k). rec_ok r"
  using recs_ok(2) [of "[]" "subkeys k"] by (cases k) (auto simp: rec_ok_def list_all_iff)

lemma fold_lines:
  "\<forall>r \<in> set rs. rec_names_ok r \<Longrightarrow>
   fold (\<lambda>l acc. Option.bind acc (apply_line l)) (map rec_line rs) (Some b) =
   Some (fold (\<lambda>r b. make_with 0 (rec_fun r) b (components (join [BSLASH] (rec_path r)))) rs b)"
  by (induction rs arbitrary: b) (auto simp: apply_rec_line)

lemma fold_lines_app:
  "\<forall>r \<in> set rs. rec_ok r \<Longrightarrow>
   fold (\<lambda>r b. make_with 0 (rec_fun r) b (components (join [BSLASH] (rec_path r)))) rs b = fold rec_app rs b"
  by (induction rs arbitrary: b) (auto simp: rec_ok_app)

lemma header_line: "apply_line HIVE_HEADER b = Some b"
  by (simp add: apply_line_def HIVE_HEADER_def)

lemma hive_text:
  assumes "key_ok k"
  shows "from_utf8 (serialize_hive k) = Some (concat (map (\<lambda>l. l @ [NL]) (HIVE_HEADER # map rec_line (recs [] k))))"
    (is "_ = Some ?t")
proof -
  have w: "walk [] k = map rec_line (recs [] k)" using walk_recs(1) [of "[]" k] assms by simp
  have "utf8_str ?t"
  proof (rule utf8_str_ascii, rule ballI)
    fix c assume "c \<in> set ?t"
    then consider "c \<in> set HIVE_HEADER" | "c = NL" | r where "c \<in> set (rec_line r)"
      by (auto split: if_splits)
    then show "of_char c < (128::nat)"
      by cases (auto simp: HIVE_HEADER_def dest: rec_line_chars)
  qed
  then show ?thesis by (simp add: serialize_hive_def w)
qed

lemma deserialize_lines:
  assumes "key_ok k" "\<forall>r \<in> set (recs [] k). rec_names_ok r"
  shows "deserialize_hive key_new (serialize_hive k) =
    Some (fold (\<lambda>r b. make_with 0 (rec_fun r) b (components (join [BSLASH] (rec_path r)))) (recs [] k) key_new)"
proof -
  have "lines (concat (map (\<lambda>l. l @ [NL]) (HIVE_HEADER # map rec_line (recs [] k))))
    = HIVE_HEADER # map rec_line (recs [] k)"
    by (rule lines_records) (auto simp: HIVE_HEADER_def dest: rec_line_chars)
  with hive_text [OF assms(1)] fold_lines [OF assms(2)] show ?thesis
    by (simp add: deserialize_hive_def header_line)
qed

lemma deserialize_serialize:
  assumes "key_ok k" "''registry'' \<notin> fst ` set (subkeys k)"
  shows "deserialize_hive key_new (serialize_hive k) = Some k"
  using deserialize_lines [OF assms(1)] root_recs_ok [OF assms] rec_ok_app fold_recs(1) [OF assms(1)]
  by (simp add: fold_lines_app)

section \<open>Looking up paths\<close>

lemma find_make_with_same [simp]:
  "find_key (make_with uid f k cs) cs = Some (f (case find_key k cs of Some s \<Rightarrow> s | None \<Rightarrow> key_owned uid))"
proof (induction cs arbitrary: k)
  case (Cons c cs)
  then show ?case by (cases cs) (auto simp: key_owned_def split: option.split)
qed simp

lemma find_key_owned: "find_key (key_owned u) p = (if p = [] then Some (key_owned u) else None)"
  by (cases p) (auto simp: key_owned_def)

text \<open>The part of a key that path lookups see besides its subkeys.\<close>

definition info :: "key \<Rightarrow> u32 \<times> (string \<rightharpoonup> reg_value)" where
  "info k = (owner_uid k, map_of (vals k))"

definition key_view :: "key \<Rightarrow> string list \<rightharpoonup> u32 \<times> (string \<rightharpoonup> reg_value)" where
  "key_view k p = map_option info (find_key k p)"

lemma key_view_simps [simp]:
  "key_view k [] = Some (info k)"
  "key_view k (c # cs) = (case map_of (subkeys k) c of None \<Rightarrow> None | Some s \<Rightarrow> key_view s cs)"
  by (auto simp: key_view_def split: option.split)

lemma info_Key [simp]: "info (Key ss vs u) = (u, map_of vs)"
  by (simp add: info_def)

lemma info_cong: "(owner_uid k, map_of (vals k)) = info k"
  by (simp add: info_def)

lemma key_view_owned: "key_view (key_owned u) p = (if p = [] then Some (u, Map.empty) else None)"
  by (simp add: key_view_def find_key_owned) (simp add: key_owned_def)

lemma key_view_make:
  "key_view (make_with uid id k cs) p =
   (if key_view k p = None \<and> prefix p cs then Some (uid, Map.empty) else key_view k p)"
proof (induction cs arbitrary: k p)
  case (Cons c cs)
  show ?case
  proof (cases p)
    case (Cons d q)
    then show ?thesis using Cons.IH by (auto simp: key_view_owned split: option.split)
  qed (simp add: info_cong)
qed auto

lemma key_view_update:
  assumes "\<And>s. subkeys (f s) = subkeys s" "update_at f k cs = Some k'" "find_key k cs = Some s"
  shows "key_view k' = (key_view k)(cs \<mapsto> info (f s))"
  using assms(2,3)
proof (induction cs arbitrary: k k')
  case Nil
  have "key_view (f k) p = ((key_view k)([] \<mapsto> info (f k))) p" for p
    by (cases p) (simp_all add: assms(1))
  with Nil show ?case by auto
next
  case (Cons c cs)
  then obtain t t' where t: "map_of (subkeys k) c = Some t" "update_at f t cs = Some t'" "find_key t cs = Some s"
    "k' = Key (bt_insert c t' (subkeys k)) (vals k) (owner_uid k)"
    by (auto split: option.splits)
  note Cons.IH [OF t(2,3)]
  with t have "key_view k' p = ((key_view k)(c # cs \<mapsto> info (f s))) p" for p
    by (cases p) (auto simp: info_cong split: option.split)
  then show ?case by blast
qed

lemma update_at_None: "update_at f k cs = None \<longleftrightarrow> find_key k cs = None"
  by (induction cs arbitrary: k) (auto split: option.split)

lemma key_view_drop:
  assumes "update_at (drop_subkey leaf) k cs = Some k'"
  shows "key_view k' p = (if prefix (cs @ [leaf]) p then None else key_view k p)"
  using assms
proof (induction cs arbitrary: k k' p)
  case Nil
  then show ?case by (cases p) (auto simp: drop_subkey_def info_cong)
next
  case (Cons c cs)
  then obtain t t' where t: "map_of (subkeys k) c = Some t" "update_at (drop_subkey leaf) t cs = Some t'"
    "k' = Key (bt_insert c t' (subkeys k)) (vals k) (owner_uid k)"
    by (auto split: option.splits)
  with Cons.IH [OF t(2)] show ?case by (cases p) (auto simp: info_cong split: option.split)
qed

section \<open>The registry as a map from paths\<close>

definition view :: "registry \<Rightarrow> string list \<rightharpoonup> u32 \<times> (string \<rightharpoonup> reg_value)" where
  "view r = key_view (root (run r))"

definition spec_create :: "u32 \<Rightarrow> string list \<Rightarrow> (string list \<rightharpoonup> u32 \<times> (string \<rightharpoonup> reg_value))
    \<Rightarrow> string list \<rightharpoonup> u32 \<times> (string \<rightharpoonup> reg_value)" where
  "spec_create uid cs m = (\<lambda>p. if m p = None \<and> prefix p cs then Some (uid, Map.empty) else m p)"

definition spec_set :: "string list \<Rightarrow> string \<Rightarrow> reg_value \<Rightarrow> (string list \<rightharpoonup> u32 \<times> (string \<rightharpoonup> reg_value))
    \<Rightarrow> string list \<rightharpoonup> u32 \<times> (string \<rightharpoonup> reg_value)" where
  "spec_set cs n v m = (case m cs of None \<Rightarrow> m | Some (u, vs) \<Rightarrow> m(cs \<mapsto> (u, vs(n \<mapsto> v))))"

definition spec_delete :: "string list \<Rightarrow> (string list \<rightharpoonup> u32 \<times> (string \<rightharpoonup> reg_value))
    \<Rightarrow> string list \<rightharpoonup> u32 \<times> (string \<rightharpoonup> reg_value)" where
  "spec_delete cs m = (if cs = [] then m else (\<lambda>p. if prefix cs p then None else m p))"

lemma run_idem [simp]: "run (run r) = run r"
  by (simp add: run_def)

lemma seeded_run [simp]: "seeded (run r)"
  by (simp add: run_def)

lemma run_seeded [simp]: "seeded r \<Longrightarrow> run r = r"
  by (simp add: run_def)

lemma view_eq: "seeded r \<Longrightarrow> view r = key_view (root r)"
  by (simp add: view_def)

lemma view_create:
  "view (fst (snd (create_owned p uid r))) =
   (if components p = [] then view r else spec_create uid (components p) (view r))"
  by (auto simp: create_owned_def Let_def view_eq spec_create_def fun_eq_iff key_view_make split: prod.split)
    (simp_all add: view_def)

lemma view_set_value:
  "view (fst (snd (set_value p n t d r))) =
   spec_set (components p) (to_ascii_lowercase n) \<lparr>val_ty = t, val_data = d\<rparr> (view r)"
proof (cases "find_key (root (run r)) (components p)")
  case None
  then have "update_at (put_value n \<lparr>val_ty = t, val_data = d\<rparr>) (root (run r)) (components p) = None"
    by (simp add: update_at_None)
  with None show ?thesis by (simp add: set_value_def Let_def view_def spec_set_def key_view_def)
next
  case (Some s)
  then obtain k where k: "update_at (put_value n \<lparr>val_ty = t, val_data = d\<rparr>) (root (run r)) (components p) = Some k"
    by (metis not_Some_eq option.distinct(1) update_at_None)
  have "key_view k = (key_view (root (run r)))(components p \<mapsto> info (put_value n \<lparr>val_ty = t, val_data = d\<rparr> s))"
    by (rule key_view_update [OF _ k Some]) (simp add: put_value_def)
  with k Some show ?thesis
    by (simp add: set_value_def Let_def view_eq spec_set_def put_value_def split: prod.split)
      (simp add: view_def key_view_def info_def)
qed

lemma find_key_append: "find_key k (a @ b) = Option.bind (find_key k a) (\<lambda>s. find_key s b)"
  by (induction a arbitrary: k) (auto split: option.split)

lemma find_key_snoc: "find_key k (a @ [n]) = Option.bind (find_key k a) (\<lambda>s. map_of (subkeys s) n)"
  by (induction a arbitrary: k) (auto split: option.split)

lemma view_none_under: "key_view k cs = None \<Longrightarrow> prefix cs p \<Longrightarrow> key_view k p = None"
  by (auto simp: key_view_def prefix_def find_key_append)

lemma view_delete:
  "view (fst (snd (delete_key p r))) = spec_delete (components p) (view r)"
proof (cases "components p = []")
  case False
  define cs where "cs = components p"
  have cs: "cs = butlast cs @ [last cs]" using False by (simp add: cs_def)
  have look: "find_key (root (run r)) cs =
    Option.bind (find_key (root (run r)) (butlast cs)) (\<lambda>s. map_of (subkeys s) (last cs))"
    by (subst cs) (rule find_key_snoc)
  show ?thesis
  proof (cases "find_key (root (run r)) cs")
    case None
    then have "fst (snd (delete_key p r)) = run r"
      using look False by (auto simp: delete_key_def Let_def cs_def split: option.split Option.bind_splits)
    moreover have "key_view (root (run r)) cs = None" using None by (simp add: key_view_def)
    ultimately show ?thesis using False view_none_under
      by (auto simp: spec_delete_def view_def fun_eq_iff cs_def)
  next
    case (Some s)
    then obtain q k where q: "find_key (root (run r)) (butlast cs) = Some q" "map_of (subkeys q) (last cs) = Some s"
      "update_at (drop_subkey (last cs)) (root (run r)) (butlast cs) = Some k"
      using look update_at_None [of "drop_subkey (last cs)" "root (run r)" "butlast cs"]
      by (auto simp: bind_eq_Some_conv)
    with key_view_drop [OF q(3)] False show ?thesis
      by (auto simp: delete_key_def Let_def view_eq spec_delete_def fun_eq_iff cs_def split: prod.split)
        (simp_all add: view_def)
  qed
qed (simp add: delete_key_def spec_delete_def)

lemma owner_view: "owner_of p r = map_option fst (view r (components p))"
  by (simp add: owner_of_def view_def key_view_def option.map_comp comp_def info_def)

lemma query_view:
  "query_value p n r =
   Option.bind (view r (components p)) (\<lambda>(u, vs). map_option (\<lambda>v. (val_ty v, val_data v)) (vs (to_ascii_lowercase n)))"
  by (auto simp: query_value_def view_def key_view_def info_def split: Option.bind_splits)

text \<open>C17. The registry refines a map from normalised paths to an owner and a value map, for
  every path, name and state: \<open>create_owned\<close> adds the missing prefixes of the path with
  the caller as owner and leaves every existing key alone, \<open>set_value\<close> changes one value of
  one existing key, \<open>delete_key\<close> removes the key and all below it, and \<open>query_value\<close> and
  \<open>owner_of\<close> read that map.
\<close>
theorem registry_refines_path_map:
  "view (fst (snd (create_owned p uid r))) =
     (if components p = [] then view r else spec_create uid (components p) (view r)) \<and>
   view (fst (snd (set_value p n t d r))) =
     spec_set (components p) (to_ascii_lowercase n) \<lparr>val_ty = t, val_data = d\<rparr> (view r) \<and>
   view (fst (snd (delete_key p r))) = spec_delete (components p) (view r) \<and>
   owner_of p r = map_option fst (view r (components p)) \<and>
   query_value p n r =
     Option.bind (view r (components p))
       (\<lambda>(u, vs). map_option (\<lambda>v. (val_ty v, val_data v)) (vs (to_ascii_lowercase n)))"
  by (intro conjI view_create view_set_value view_delete owner_view query_view)

section \<open>Reloading, owners and watches\<close>

lemma run_key_ok: "key_ok (root r) \<Longrightarrow> key_ok (root (run r))"
proof -
  have "list_all key_name_ok (components h)" if "h \<in> set SEED_ROOTS" for h
    using that by (intro components_ok utf8_str_ascii) (auto simp: SEED_ROOTS_def)
  then have "key_ok k \<Longrightarrow> key_ok (fold (\<lambda>h k. make_with 0 id k (components h)) hs k)"
    if "set hs \<subseteq> set SEED_ROOTS" for hs k
    using that by (induction hs arbitrary: k) (auto intro!: key_ok_make)
  then show "key_ok (root r) \<Longrightarrow> key_ok (root (run r))" by (simp add: run_def)
qed

lemma set_value_cases:
  obtains "set_value p n t d r = (False, run r, [], None)"
      "find_key (root (run r)) (components p) = None"
  | k where "update_at (put_value n \<lparr>val_ty = t, val_data = d\<rparr>) (root (run r)) (components p) = Some k"
      "set_value p n t d r =
         (True, (run r)\<lparr>root := k, watches := snd (fire (components p) (watches r))\<rparr>,
          fst (fire (components p) (watches r)), persist (components p) ((run r)\<lparr>root := k\<rparr>))"
proof (cases "update_at (put_value n \<lparr>val_ty = t, val_data = d\<rparr>) (root (run r)) (components p)")
  case None
  then have "find_key (root (run r)) (components p) = None" by (simp add: update_at_None)
  with None that(1) show ?thesis by (simp add: set_value_def)
next
  case (Some k)
  moreover have "watches (run r) = watches r" by (simp add: run_def)
  ultimately show ?thesis using that(2) by (simp add: set_value_def Let_def case_prod_unfold)
qed

lemma delete_key_cases:
  obtains "delete_key p r = (False, r, [], None)" | "delete_key p r = (False, run r, [], None)"
  | k where "components p \<noteq> []"
      "update_at (drop_subkey (last (components p))) (root (run r)) (butlast (components p)) = Some k"
      "root (fst (snd (delete_key p r))) = k"
proof (cases "components p = [] \<or> \<not> fst (delete_key p r)")
  case True
  then show ?thesis using that(1,2) by (auto simp: delete_key_def Let_def split: option.splits if_splits prod.splits)
next
  case False
  then have "find_key (root (run r)) (butlast (components p)) \<noteq> None"
    by (auto simp: delete_key_def Let_def split: option.splits)
  then obtain k where
    "update_at (drop_subkey (last (components p))) (root (run r)) (butlast (components p)) = Some k"
    using update_at_None by fastforce
  with False show ?thesis using that(3)
    by (auto simp: delete_key_def Let_def case_prod_unfold split: option.splits if_splits)
qed

lemma ops_key_ok:
  assumes "key_ok (root r)" "utf8_str p"
  shows "key_ok (root (fst (snd (create_owned p uid r))))"
    and "utf8_str n \<Longrightarrow> key_ok (root (fst (snd (set_value p n t d r))))"
    and "key_ok (root (fst (snd (delete_key p r))))"
proof -
  note c = components_ok [OF assms(2)]
  note k = run_key_ok [OF assms(1)]
  show "key_ok (root (fst (snd (create_owned p uid r))))"
    using key_ok_make_with [OF _ k c, of id uid] assms(1) by (simp add: create_owned_def Let_def case_prod_unfold)
  show "key_ok (root (fst (snd (set_value p n t d r))))" if "utf8_str n"
    by (rule set_value_cases [of p n t d r])
      (auto simp: k intro: key_ok_update_at [OF key_ok_put_value [OF _ that] k c])
  have "list_all key_name_ok (butlast (components p))"
    using c by (auto simp: list_all_iff dest: in_set_butlastD)
  then show "key_ok (root (fst (snd (delete_key p r))))"
    by (rule_tac delete_key_cases [of p r]) (auto simp: k assms(1) intro: key_ok_update_at [OF key_ok_drop_subkey k])
qed

text \<open>The hive files as disk content: the file a change wrote, and nothing else.\<close>

definition only_file :: "string \<Rightarrow> byte list \<Rightarrow> string \<Rightarrow> byte list option" where
  "only_file path bytes p = (if p = path then Some bytes else None)"

lemma persist_cases:
  assumes "persist cs r = Some (path, bytes)"
  obtains rt k where "(rt, path) \<in> set HIVES" "under_hive cs rt" "find_key (root r) rt = Some k"
    "bytes = serialize_hive k"
proof -
  obtain rt where f: "List.find (\<lambda>h. under_hive cs (fst h)) HIVES = Some (rt, path)"
    and k: "map_option serialize_hive (find_key (root r) rt) = Some bytes"
    using assms by (auto simp: persist_def split: option.splits)
  from f obtain i where "i < length HIVES" "HIVES ! i = (rt, path)" "under_hive cs rt"
    unfolding find_Some_iff by (metis fst_conv)
  with k that show thesis using nth_mem [of i HIVES] by auto
qed

lemma load_each_absent:
  "path \<notin> snd ` set hs \<Longrightarrow> load_each (only_file path bytes) hs r = Some (0, r)"
  by (induction hs arbitrary: r) (auto simp: only_file_def)

lemma load_each_only:
  "(rt, path) \<in> set hs \<Longrightarrow> distinct (map snd hs) \<Longrightarrow> deserialize_hive key_new bytes = Some k \<Longrightarrow>
   load_each (only_file path bytes) hs r =
     Some (1, (run r)\<lparr>root := make_with 0 (\<lambda>_. k) (root (run r)) rt\<rparr>)"
proof (induction hs)
  case (Cons h hs)
  show ?case
  proof (cases "h = (rt, path)")
    case True
    then have "path \<notin> snd ` set hs" using Cons.prems by auto
    with True Cons.prems show ?thesis by (simp add: only_file_def [of path bytes path] load_each_absent Let_def)
  next
    case False
    then have "snd h \<noteq> path" using Cons.prems by (auto simp: image_iff)
    then have "only_file path bytes (snd h) = None" by (simp add: only_file_def)
    with False Cons show ?thesis by (cases h) auto
  qed
qed simp

lemma load_only:
  assumes "(rt, path) \<in> set HIVES" "deserialize_hive key_new bytes = Some k"
  shows "\<exists>r1. load_hives (only_file path bytes) registry_static = Some (1, r1) \<and> find_key (root r1) rt = Some k"
proof -
  have "distinct (map snd HIVES)" by (simp add: HIVES_def)
  from load_each_only [OF assms(1) this assms(2)] show ?thesis
    by (simp add: load_hives_def registry_static_def)
qed

lemma fire_filter:
  "fire cs ws = (map w_event (filter (\<lambda>w. watch_matches (w_path w) (w_tree w) cs) ws),
     filter (\<lambda>w. \<not> watch_matches (w_path w) (w_tree w) cs) ws)"
  by (induction ws) auto

lemma watch_matches_iff:
  "watch_matches w tree cs \<longleftrightarrow> (\<exists>rest. cs = w @ rest \<and> (length rest \<le> 1 \<or> tree))"
proof
  assume m: "watch_matches w tree cs"
  then have "cs = w @ drop (length w) cs" "length (drop (length w) cs) \<le> 1 \<or> tree"
    by (auto simp: watch_matches_def Let_def split: if_splits) (metis append_take_drop_id)+
  then show "\<exists>rest. cs = w @ rest \<and> (length rest \<le> 1 \<or> tree)" by blast
next
  assume "\<exists>rest. cs = w @ rest \<and> (length rest \<le> 1 \<or> tree)"
  then obtain rest where "cs = w @ rest" "length rest \<le> 1 \<or> tree" by blast
  then have "cs = w @ rest" "length rest = 0 \<or> length rest = 1 \<or> tree" by linarith+
  then show "watch_matches w tree cs" by (auto simp: watch_matches_def)
qed

lemma create_write_ok_from_iff:
  "\<exists>i \<le> length cs. \<exists>k. find_key (root (run r)) (take i cs) = Some k \<and>
     (\<forall>j. i < j \<and> j \<le> length cs \<longrightarrow> find_key (root (run r)) (take j cs) = None) \<and>
     create_write_ok_from cs uid r = write_ok (owner_uid k) uid"
proof (induction cs uid r rule: create_write_ok_from.induct)
  case (1 cs uid r)
  show ?case
  proof (cases "find_key (root (run r)) cs")
    case None
    then have ne: "cs \<noteq> []" by auto
    obtain i k where i: "i \<le> length (butlast cs)" "find_key (root (run r)) (take i (butlast cs)) = Some k"
      "\<And>j. i < j \<and> j \<le> length (butlast cs) \<Longrightarrow> find_key (root (run r)) (take j (butlast cs)) = None"
      "create_write_ok_from (butlast cs) uid r = write_ok (owner_uid k) uid"
      using 1 [OF None] by blast
    have "find_key (root (run r)) (take j cs) = None" if "i < j" "j \<le> length cs" for j
    proof (cases "j = length cs")
      case False
      then have "take j (butlast cs) = take j cs" using that by (simp add: take_butlast)
      with i(3) [of j] that False show ?thesis by simp
    qed (simp add: None)
    moreover have "take i (butlast cs) = take i cs"
      using i(1) ne by (cases cs rule: rev_cases) auto
    moreover have "create_write_ok_from cs uid r = create_write_ok_from (butlast cs) uid r"
      using None by (subst create_write_ok_from.simps) simp
    ultimately show ?thesis using i ne by (intro exI [of _ i]) auto
  next
    case (Some k)
    then show ?thesis by (intro exI [of _ "length cs"]) (simp add: create_write_ok_from.simps)
  qed
qed

text \<open>Well-formedness is kept: creating, setting and deleting keys and values with any
  UTF-8 path and name keeps every map of the tree sorted and every name normalised.
\<close>
theorem registry_ops_keep_key_ok:
  assumes "key_ok (root r)" "utf8_str p" "utf8_str n"
  shows "key_ok (root (fst (snd (create_owned p uid r)))) \<and>
    key_ok (root (fst (snd (set_value p n t d r)))) \<and> key_ok (root (fst (snd (delete_key p r))))"
  using ops_key_ok [OF assms(1,2)] assms(3) by blast

theorem registry_ops_keep_key_ok_witness:
  "key_ok (root registry_static) \<and>
   key_ok (root (fst (snd (set_value ''machine'' ''Name'' 1 [7] registry_static))))"
proof -
  have "key_ok (root registry_static)" by (simp add: registry_static_def key_new_def bt_sorted_def)
  moreover have "utf8_str ''machine''" "utf8_str ''Name''" by (auto intro!: utf8_str_ascii)
  ultimately show ?thesis using registry_ops_keep_key_ok [of registry_static "''machine''" "''Name''" 5 1 "[7]"] by simp
qed

text \<open>C18. What a change writes to disk is what the next boot reads: when a change under
  \<open>cs\<close> rewrites a hive file of a well-formed registry, loading that file into an empty
  registry rebuilds the hive's subtree exactly, with every subkey, value, type and owner,
  provided no key directly under the hive root is named \<open>registry\<close>.
\<close>
theorem hive_reload:
  assumes "key_ok (root r)" "persist cs r = Some (path, bytes)"
    and "\<forall>rt k. (rt, path) \<in> set HIVES \<and> find_key (root r) rt = Some k \<longrightarrow> ''registry'' \<notin> fst ` set (subkeys k)"
  shows "\<exists>rt k r1. (rt, path) \<in> set HIVES \<and> under_hive cs rt \<and> find_key (root r) rt = Some k \<and>
    load_hives (only_file path bytes) registry_static = Some (1, r1) \<and> find_key (root r1) rt = Some k"
proof -
  obtain rt k where k: "(rt, path) \<in> set HIVES" "under_hive cs rt" "find_key (root r) rt = Some k"
    "bytes = serialize_hive k"
    by (rule persist_cases [OF assms(2)])
  have "key_ok s" if "key_ok t" "find_key t q = Some s" for s t q
    using that by (induction q arbitrary: t) (auto split: option.splits dest: key_ok_sub)
  with k assms(1,3) have "deserialize_hive key_new bytes = Some k" by (simp add: deserialize_serialize)
  with load_only [OF k(1)] k show ?thesis by blast
qed

theorem hive_reload_witness:
  "\<exists>r path bytes. persist [''user''] r = Some (path, bytes) \<and>
     query_value ''user'' ''X'' r = Some (3, [1, 2]) \<and>
     (\<exists>r1. load_hives (only_file path bytes) registry_static = Some (1, r1) \<and>
        find_key (root r1) [''user''] = Some (Key [] [(''x'', \<lparr>val_ty = 3, val_data = [1, 2]\<rparr>)] 5))"
proof -
  define k where "k = Key [] [(''x'', \<lparr>val_ty = 3, val_data = [1, 2]\<rparr>)] (5 :: u32)"
  define r where "r = \<lparr>root = Key [(''user'', k)] [] 0, seeded = True, watches = [], hives_loaded = True\<rparr>"
  have ok: "key_ok (root r)"
    by (auto simp: r_def k_def bt_sorted_def key_name_ok_def val_name_ok_def is_sep_def to_ascii_lowercase_def
        lower_char_def intro!: utf8_str_ascii)
  have p: "persist [''user''] r = Some (''/etc/thos/registry/user.hiv'', serialize_hive k)"
    by (simp add: persist_def HIVES_def under_hive_def r_def)
  have q: "query_value ''user'' ''X'' r = Some (3, [1, 2])"
    by (simp add: query_value_def r_def k_def run_def components_def is_sep_def to_ascii_lowercase_def lower_char_def char_of_eq_iff)
  have n: "\<forall>rt k. (rt, ''/etc/thos/registry/user.hiv'') \<in> set HIVES \<and> find_key (root r) rt = Some k
      \<longrightarrow> ''registry'' \<notin> fst ` set (subkeys k)"
    by (auto simp: HIVES_def r_def k_def)
  from hive_reload [OF ok p n] obtain r1 where
    "load_hives (only_file ''/etc/thos/registry/user.hiv'' (serialize_hive k)) registry_static = Some (1, r1)"
    "find_key (root r1) [''user''] = Some k"
    by (auto simp: HIVES_def r_def)
  with p q show ?thesis unfolding k_def by blast
qed

text \<open>The proviso is needed: a key named \<open>registry\<close> directly under a hive root is dropped
  by the reader, because \<open>components\<close> strips a leading \<open>registry\<close> also from the relative paths of
  a hive, and its values land on the hive root itself.
\<close>
theorem hive_loses_registry_subkey:
  "deserialize_hive key_new
     (serialize_hive (Key [(''registry'', Key [] [(''v'', \<lparr>val_ty = 1, val_data = []\<rparr>)] 0)] [] 0))
   = Some (Key [] [(''v'', \<lparr>val_ty = 1, val_data = []\<rparr>)] 0)"
proof -
  define k where "k = Key [(''registry'', Key [] [(''v'', \<lparr>val_ty = 1, val_data = []\<rparr>)] (0 :: u32))] [] (0 :: u32)"
  have ok: "key_ok k"
    by (auto simp: k_def bt_sorted_def key_name_ok_def val_name_ok_def is_sep_def to_ascii_lowercase_def
        lower_char_def intro!: utf8_str_ascii)
  have c: "components ''registry'' = []"
    by (simp add: components_def is_sep_def to_ascii_lowercase_def lower_char_def)
  have "\<forall>r \<in> set (recs [] k). rec_names_ok r"
    using ok by (auto simp: k_def rec_names_ok_def)
  moreover have "fold (\<lambda>r b. make_with 0 (rec_fun r) b (components (join [BSLASH] (rec_path r)))) (recs [] k) key_new
    = Key [] [(''v'', \<lparr>val_ty = 1, val_data = []\<rparr>)] 0"
    by (simp add: k_def c key_new_def put_value_def to_ascii_lowercase_def lower_char_def)
  ultimately show ?thesis using deserialize_lines [OF ok] by (simp add: k_def)
qed

text \<open>Who may create a key: the walk up from the path always ends, at the deepest
  existing prefix of the path, and the answer is the write check on that key's owner.
\<close>
theorem create_write_ok_nearest:
  "\<exists>i \<le> length (components p). \<exists>k. find_key (root (run r)) (take i (components p)) = Some k \<and>
     (\<forall>j. i < j \<and> j \<le> length (components p) \<longrightarrow> find_key (root (run r)) (take j (components p)) = None) \<and>
     create_write_ok p uid r = write_ok (owner_uid k) uid"
  unfolding create_write_ok_def by (rule create_write_ok_from_iff)

theorem create_write_ok_nearest_witness:
  "create_write_ok ''user/a/b'' 7 registry_static = write_ok 0 7 \<and> owner_of ''user'' registry_static = Some 0"
proof -
  have c: "components ''user/a/b'' = [''user'', ''a'', ''b'']" "components ''user'' = [''user'']"
    by (simp_all add: components_def is_sep_def to_ascii_lowercase_def lower_char_def)
  have v: "map_option owner_uid (find_key (root (run registry_static)) cs) =
      (if cs = [''user''] then Some 0 else map_option owner_uid (find_key (root (run registry_static)) cs))"
    "find_key (root (run registry_static)) [''user'', ''a''] = None"
    "find_key (root (run registry_static)) [''user'', ''a'', ''b''] = None" for cs
    by (auto simp: run_def registry_static_def SEED_ROOTS_def components_def is_sep_def to_ascii_lowercase_def
        lower_char_def key_new_def key_owned_def)
  obtain i k where i: "i \<le> 3" "find_key (root (run registry_static)) (take i [''user'', ''a'', ''b'']) = Some k"
    "\<And>j. i < j \<and> j \<le> 3 \<Longrightarrow> find_key (root (run registry_static)) (take j [''user'', ''a'', ''b'']) = None"
    "create_write_ok ''user/a/b'' 7 registry_static = write_ok (owner_uid k) 7"
    using create_write_ok_nearest [of "''user/a/b''" registry_static 7, unfolded c]
    by (auto simp: numeral_3_eq_3 simp del: find_key.simps)
  have "i \<noteq> 0" using i(3) [of 1] v(1) [of "[''user'']"] by (cases "i = 0") (auto simp del: find_key.simps)
  moreover have "i \<noteq> 2" "i \<noteq> 3" using i(2) v(2,3) by (auto simp del: find_key.simps)
  ultimately have "i = 1" using i(1) by linarith
  with i v(1) [of "[''user'']"] c show ?thesis by (auto simp: owner_of_def simp del: find_key.simps)
qed

text \<open>Watches: a successful \<open>set_value\<close> signals, in registration order, exactly the
  watches whose path is the changed key or its parent, or any ancestor for a tree watch;
  those watches are gone afterwards and all others stay armed, so setting the value again
  signals nothing.  A watch without \<open>watch_tree\<close> thus also fires for a value change on a
  direct subkey.
\<close>
theorem set_value_fires_watches:
  assumes "set_value p n t d r = (True, r1, evs, hive)"
  shows "evs = map w_event (filter (\<lambda>w. \<exists>rest. components p = w_path w @ rest \<and> (length rest \<le> 1 \<or> w_tree w)) (watches r)) \<and>
    watches r1 = filter (\<lambda>w. \<nexists>rest. components p = w_path w @ rest \<and> (length rest \<le> 1 \<or> w_tree w)) (watches r) \<and>
    fst (snd (snd (set_value p n' t' d' r1))) = []"
proof -
  have f: "fire (components p) (watches r) = (evs, watches r1)"
    by (rule set_value_cases [of p n t d r]) (use assms in auto)
  have "fst (fire (components p) (watches r1)) = []"
    using f by (simp add: fire_filter filter_empty_conv) (metis (mono_tags, lifting) mem_Collect_eq set_filter)
  then have "fst (snd (snd (set_value p n' t' d' r1))) = []"
    by (rule_tac set_value_cases [of p n' t' d' r1]) simp_all
  with f show ?thesis by (auto simp: fire_filter watch_matches_iff)
qed

theorem set_value_fires_watches_witness:
  "\<exists>r r1 hive. set_value ''user/a'' ''v'' 1 [] r = (True, r1, [9], hive) \<and>
     watches r = [\<lparr>w_path = [''user''], w_tree = False, w_event = 9\<rparr>] \<and> watches r1 = []"
proof -
  define r where "r = \<lparr>root = Key [(''user'', Key [(''a'', key_new)] [] 0)] [] 0, seeded = True,
    watches = [\<lparr>w_path = [''user''], w_tree = False, w_event = 9\<rparr>], hives_loaded = True\<rparr>"
  have c: "components ''user/a'' = [''user'', ''a'']" by code_simp
  have "fst (set_value ''user/a'' ''v'' 1 [] r)" unfolding r_def by code_simp
  then obtain r1 evs hive where s: "set_value ''user/a'' ''v'' 1 [] r = (True, r1, evs, hive)"
    by (cases "set_value ''user/a'' ''v'' 1 [] r") auto
  from set_value_fires_watches [OF s] have "evs = [9]" "watches r1 = []" by (simp_all add: c r_def)
  moreover have "watches r = [\<lparr>w_path = [''user''], w_tree = False, w_event = 9\<rparr>]" by (simp add: r_def)
  ultimately show ?thesis using s by blast
qed

end
