(* ===== verification/Ext2.thy ===== *)
theory Ext2
  imports Rust_Text "HOL-Library.Monad_Syntax"
begin

unbundle bit_operations_syntax

text \<open>
  The ext2 file system (\<open>kernel/src/ext2.rs\<close>) over a disk of bytes.  Disk sectors are
  read and written through the driver, whose failure is a panic of the kernel and is
  not modelled: every sector of the disk can be read and written.  The other panics of
  the code are: an operation returns \<open>None\<close> when an index or a slice is out of range or a
  divisor is zero.  Operations that write return the new disk.
\<close>

section \<open>The disk\<close>

type_synonym disk = "nat \<Rightarrow> byte"

definition SECTOR :: nat where "SECTOR = 512"
definition SB_OFFSET :: nat where "SB_OFFSET = 1024"
definition EXT2_MAGIC :: u16 where "EXT2_MAGIC = 0xEF53"
definition ROOT_INO :: u32 where "ROOT_INO = 2"

definition ahci_read :: "disk \<Rightarrow> nat \<Rightarrow> nat \<Rightarrow> byte list" where
  "ahci_read d lba n = map d [lba * SECTOR ..< (lba + n) * SECTOR]"

definition ahci_write :: "nat \<Rightarrow> byte list \<Rightarrow> disk \<Rightarrow> disk" where
  "ahci_write lba bs d =
     (\<lambda>a. if lba * SECTOR \<le> a \<and> a < lba * SECTOR + length bs then bs ! (a - lba * SECTOR) else d a)"

text \<open>The driver is called for at most 64 sectors at a time.\<close>

function read_sectors :: "disk \<Rightarrow> nat \<Rightarrow> nat \<Rightarrow> nat \<Rightarrow> byte list \<Rightarrow> byte list" where
  "read_sectors d start sectors cur raw =
     (if cur < sectors
      then let n = min (sectors - cur) 64
           in read_sectors d start sectors (cur + n) (splice (cur * SECTOR) (ahci_read d (start + cur) n) raw)
      else raw)"
  by pat_completeness auto
termination
  by (relation "measure (\<lambda>(d, start, sectors, cur, raw). sectors - cur)") auto

declare read_sectors.simps [simp del]

function write_sectors :: "nat \<Rightarrow> nat \<Rightarrow> nat \<Rightarrow> byte list \<Rightarrow> disk \<Rightarrow> disk" where
  "write_sectors start sectors cur raw d =
     (if cur < sectors
      then let n = min (sectors - cur) 64
           in write_sectors start sectors (cur + n) raw
                (ahci_write (start + cur) (take (n * SECTOR) (drop (cur * SECTOR) raw)) d)
      else d)"
  by pat_completeness auto
termination
  by (relation "measure (\<lambda>(start, sectors, cur, raw, d). sectors - cur)") auto

declare write_sectors.simps [simp del]

definition disk_range :: "disk \<Rightarrow> nat \<Rightarrow> nat \<Rightarrow> byte list" where
  "disk_range d off len =
     (let start_lba = off div SECTOR; end_lba = (off + len + SECTOR - 1) div SECTOR;
          sectors = end_lba - start_lba;
          raw = read_sectors d start_lba sectors 0 (replicate (sectors * SECTOR) 0);
          skip = off - start_lba * SECTOR
      in take len (drop skip raw))"

definition disk_write :: "nat \<Rightarrow> byte list \<Rightarrow> disk \<Rightarrow> disk" where
  "disk_write off dat d =
     (if dat = [] then d
      else let start_lba = off div SECTOR; end_lba = (off + length dat + SECTOR - 1) div SECTOR;
               sectors = end_lba - start_lba;
               raw = read_sectors d start_lba sectors 0 (replicate (sectors * SECTOR) 0);
               skip = off - start_lba * SECTOR
           in write_sectors start_lba sectors 0 (splice skip dat raw) d)"

text \<open>Integer fields at an offset; the callers write out the range check where it can fail.\<close>

definition le32_at :: "byte list \<Rightarrow> nat \<Rightarrow> u32" where
  "le32_at b off = of_nat (le_val (take 4 (drop off b)))"

definition le16_at :: "byte list \<Rightarrow> nat \<Rightarrow> u16" where
  "le16_at b off = of_nat (le_val (take 2 (drop off b)))"

definition b32 :: "u32 \<Rightarrow> byte list" where "b32 v = le_bytes 4 (unat v)"
definition b16 :: "u16 \<Rightarrow> byte list" where "b16 v = le_bytes 2 (unat v)"

text \<open>\<open>blk[off..off + n].copy_from_slice(ys)\<close>, with its range check.\<close>

definition wr :: "nat \<Rightarrow> byte list \<Rightarrow> byte list \<Rightarrow> byte list option" where
  "wr off ys xs = (if off + length ys \<le> length xs then Some (splice off ys xs) else None)"

section \<open>Superblock and inodes\<close>

record ext2 =
  block_size :: u32
  inode_size :: u32
  inodes_per_group :: u32
  first_data_block :: u32
  blocks_per_group :: u32
  block_count :: u32
  filetype :: bool
  sparse_super :: bool

record inode =
  i_mode :: u16
  i_size :: nat
  i_block :: "u32 list"
  i_uid :: u32
  i_gid :: u32

definition access_ok :: "inode \<Rightarrow> u32 \<Rightarrow> u32 \<Rightarrow> bool \<Rightarrow> bool" where
  "access_ok node uid gid want_write =
     (if uid = 0 then True
      else let perm = i_mode node AND 0x1FF;
               bits = (if uid = i_uid node then drop_bit 6 perm AND 7
                       else if gid = i_gid node then drop_bit 3 perm AND 7
                       else perm AND 7);
               need = (if want_write then 2 else 4)
           in bits AND need = need)"

definition ext2_open :: "disk \<Rightarrow> (string, ext2) result" where
  "ext2_open d =
     (let sb = disk_range d SB_OFFSET 1024
      in if le16_at sb 56 \<noteq> EXT2_MAGIC then Inl ''ext2 magic not found''
         else Inr \<lparr>block_size = push_bit (unat (le32_at sb 24) mod 32) 1024,
                   inode_size = (if 1 \<le> le32_at sb 76 then ucast (le16_at sb 88) else 128),
                   inodes_per_group = le32_at sb 40, first_data_block = le32_at sb 20,
                   blocks_per_group = le32_at sb 32, block_count = le32_at sb 4,
                   filetype = (le32_at sb 96 AND 2 \<noteq> 0), sparse_super = (le32_at sb 100 AND 1 \<noteq> 0)\<rparr>)"

definition round4 :: "nat \<Rightarrow> nat" where
  "round4 n = (n + 3) div 4 * 4"

definition trim_end :: "char \<Rightarrow> string \<Rightarrow> string" where
  "trim_end c s = rev (dropWhile (\<lambda>x. x = c) (rev s))"

definition rfind :: "char \<Rightarrow> string \<Rightarrow> nat option" where
  "rfind c s =
     (if c \<in> set s then Some (length s - 1 - length (takeWhile (\<lambda>x. x \<noteq> c) (rev s))) else None)"

definition split_parent :: "string \<Rightarrow> (string \<times> string) option" where
  "split_parent path0 =
     (let path = trim_end (CHR ''/'') path0
      in case rfind (CHR ''/'') path of
           None \<Rightarrow> None
         | Some idx \<Rightarrow>
             let name = drop (idx + 1) path
             in if name = [] then None else Some (if idx = 0 then ''/'' else take idx path, name))"

definition bs :: "ext2 \<Rightarrow> nat" where
  "bs fs = unat (block_size fs)"

definition block :: "ext2 \<Rightarrow> disk \<Rightarrow> u32 \<Rightarrow> byte list" where
  "block fs d n = disk_range d (unat n * bs fs) (bs fs)"

definition write_block :: "ext2 \<Rightarrow> u32 \<Rightarrow> byte list \<Rightarrow> disk \<Rightarrow> disk" where
  "write_block fs n dat d = disk_write (unat n * bs fs) dat d"

definition bgd_off :: "ext2 \<Rightarrow> u32 \<Rightarrow> nat" where
  "bgd_off fs g = unat (first_data_block fs + 1) * bs fs + unat g * 32"

definition read_bgd :: "ext2 \<Rightarrow> disk \<Rightarrow> u32 \<Rightarrow> byte list" where
  "read_bgd fs d g = disk_range d (bgd_off fs g) 32"

definition inode_off :: "ext2 \<Rightarrow> disk \<Rightarrow> u32 \<Rightarrow> nat option" where
  "inode_off fs d ino =
     (if inodes_per_group fs = 0 then None
      else let group = (ino - 1) div inodes_per_group fs; idx = (ino - 1) mod inodes_per_group fs;
               table = le32_at (read_bgd fs d group) 8
           in Some (unat table * bs fs + unat idx * unat (inode_size fs)))"

text \<open>The fields \<open>read_inode\<close> takes from a raw inode; the last one read ends at byte 100.\<close>

definition decode_inode :: "byte list \<Rightarrow> inode option" where
  "decode_inode raw =
     (if length raw < 100 then None
      else Some \<lparr>i_mode = le16_at raw 0, i_size = unat (le32_at raw 4),
                 i_block = map (\<lambda>i. le32_at raw (40 + i * 4)) [0..<15],
                 i_uid = ucast (le16_at raw 2), i_gid = ucast (le16_at raw 24)\<rparr>)"

definition read_inode :: "ext2 \<Rightarrow> disk \<Rightarrow> u32 \<Rightarrow> inode option" where
  "read_inode fs d ino =
     do { off \<leftarrow> inode_off fs d ino; decode_inode (disk_range d off (unat (inode_size fs))) }"

text \<open>\<open>set_inode\<close> writes the managed fields of a raw inode; it needs 100 bytes.\<close>

definition set_inode :: "u16 \<Rightarrow> u32 \<Rightarrow> u32 \<Rightarrow> nat \<Rightarrow> u16 \<Rightarrow> u32 \<Rightarrow> u32 list \<Rightarrow> byte list \<Rightarrow> byte list option" where
  "set_inode mode uid gid sz links blocks512 blk raw =
     do { raw \<leftarrow> wr 0 (b16 mode) raw;
          raw \<leftarrow> wr 2 (b16 (ucast uid)) raw;
          raw \<leftarrow> wr 4 (b32 (of_nat sz)) raw;
          raw \<leftarrow> wr 24 (b16 (ucast gid)) raw;
          raw \<leftarrow> wr 26 (b16 links) raw;
          raw \<leftarrow> wr 28 (b32 blocks512) raw;
          fold (\<lambda>i acc. acc \<bind> wr (40 + i * 4) (b32 (blk ! i))) [0..<length blk] (Some raw) }"

section \<open>Reading files\<close>

fun chunks4 :: "byte list \<Rightarrow> u32 list" where
  "chunks4 (a # b # c # d # r) = of_nat (le_val [a, b, c, d]) # chunks4 r"
| "chunks4 _ = []"

definition div_ceil :: "nat \<Rightarrow> nat \<Rightarrow> nat" where
  "div_ceil a b = (a + b - 1) div b"

definition single :: "ext2 \<Rightarrow> disk \<Rightarrow> nat \<Rightarrow> u32 \<Rightarrow> u32 list \<Rightarrow> u32 list" where
  "single fs d nblocks bn out =
     (if nblocks \<le> length out then out
      else let tk = min (bs fs div 4) (nblocks - length out)
           in if bn = 0 then out @ replicate tk 0
              else out @ take tk (chunks4 (block fs d bn)))"

fun singles :: "ext2 \<Rightarrow> disk \<Rightarrow> nat \<Rightarrow> u32 list \<Rightarrow> u32 list \<Rightarrow> u32 list" where
  "singles fs d nblocks [] out = out"
| "singles fs d nblocks (bn # bns) out =
     (if nblocks \<le> length out then out else singles fs d nblocks bns (single fs d nblocks bn out))"

definition block_map :: "ext2 \<Rightarrow> disk \<Rightarrow> inode \<Rightarrow> u32 list option" where
  "block_map fs d node =
     (if bs fs = 0 then None
      else let per = bs fs div 4; nblocks = max (div_ceil (i_size node) (bs fs)) 1;
               out0 = take (min 12 nblocks) (i_block node);
               out1 = (if 12 < nblocks then single fs d nblocks (i_block node ! 12) out0 else out0);
               out2 = (if length out1 < nblocks
                       then if i_block node ! 13 = 0 then singles fs d nblocks (replicate per 0) out1
                            else singles fs d nblocks (chunks4 (block fs d (i_block node ! 13))) out1
                       else out1)
           in Some out2)"

text \<open>The length of the run of consecutive block numbers that starts a list.\<close>

fun run_len :: "u32 list \<Rightarrow> nat" where
  "run_len (b # c # r) = (if c = b + 1 then Suc (run_len (c # r)) else 1)"
| "run_len _ = 1"

function read_runs :: "ext2 \<Rightarrow> disk \<Rightarrow> u32 list \<Rightarrow> byte list" where
  "read_runs fs d [] = []"
| "read_runs fs d (b # r) =
     (if b = 0
      then let n = length (takeWhile (\<lambda>x. x = 0) (b # r))
           in replicate (n * bs fs) 0 @ read_runs fs d (drop n (b # r))
      else let n = run_len (b # r)
           in disk_range d (unat b * bs fs) (n * bs fs) @ read_runs fs d (drop n (b # r)))"
  by pat_completeness auto
termination
proof (relation "measure (\<lambda>(fs, d, l). length l)", goal_cases)
  case (3 fs d b r n)
  then show ?case by (cases r) auto
qed auto

declare read_runs.simps [simp del]

definition read_file :: "ext2 \<Rightarrow> disk \<Rightarrow> inode \<Rightarrow> byte list option" where
  "read_file fs d node =
     do { blocks \<leftarrow> block_map fs d node; Some (take (i_size node) (read_runs fs d blocks)) }"

section \<open>Directories\<close>

function dir_find :: "byte list \<Rightarrow> string \<Rightarrow> nat \<Rightarrow> u32 option" where
  "dir_find dat name off =
     (if off + 8 \<le> length dat
      then let ino = le32_at dat off; rec_len = unat (le16_at dat (off + 4)); name_len = unat (dat ! (off + 6))
           in if rec_len = 0 then None
              else if ino \<noteq> 0 \<and> off + 8 + name_len \<le> length dat \<and>
                      take name_len (drop (off + 8) dat) = as_bytes name
              then Some ino
              else dir_find dat name (off + rec_len)
      else None)"
  by pat_completeness auto
termination
  by (relation "measure (\<lambda>(dat, name, off). length dat - off)") auto

declare dir_find.simps [simp del]

definition lookup :: "ext2 \<Rightarrow> disk \<Rightarrow> u32 \<Rightarrow> string \<Rightarrow> u32 option option" where
  "lookup fs d dir_ino name =
     do { node \<leftarrow> read_inode fs d dir_ino; dat \<leftarrow> read_file fs d node; Some (dir_find dat name 0) }"

definition dtype_of :: "ext2 \<Rightarrow> disk \<Rightarrow> u32 \<Rightarrow> byte \<Rightarrow> byte option" where
  "dtype_of fs d ino ftype =
     (if ftype = 1 then Some 8 else if ftype = 2 then Some 4 else if ftype = 3 then Some 2
      else if ftype = 4 then Some 6 else if ftype = 5 then Some 1 else if ftype = 6 then Some 12
      else if ftype = 7 then Some 10
      else map_option (\<lambda>n. ucast (drop_bit 12 (i_mode n))) (read_inode fs d ino))"

function dir_list :: "ext2 \<Rightarrow> disk \<Rightarrow> byte list \<Rightarrow> nat \<Rightarrow> (u32 \<times> byte \<times> string) list option" where
  "dir_list fs d dat off =
     (if off + 8 \<le> length dat
      then let ino = le32_at dat off; rec_len = unat (le16_at dat (off + 4)); name_len = unat (dat ! (off + 6));
               ftype = dat ! (off + 7)
           in if rec_len = 0 then Some []
              else do {
                here \<leftarrow> (if ino \<noteq> 0 \<and> off + 8 + name_len \<le> length dat
                        then case from_utf8 (take name_len (drop (off + 8) dat)) of
                               None \<Rightarrow> Some []
                             | Some name \<Rightarrow> map_option (\<lambda>dt. [(ino, dt, name)]) (dtype_of fs d ino ftype)
                        else Some []);
                rest \<leftarrow> dir_list fs d dat (off + rec_len);
                Some (here @ rest) }
      else Some [])"
  by pat_completeness auto
termination
  by (relation "measure (\<lambda>(fs, d, dat, off). length dat - off)") auto

declare dir_list.simps [simp del]

definition read_dir :: "ext2 \<Rightarrow> disk \<Rightarrow> u32 \<Rightarrow> (u32 \<times> byte \<times> string) list option" where
  "read_dir fs d dir_ino =
     do { node \<leftarrow> read_inode fs d dir_ino; dat \<leftarrow> read_file fs d node; dir_list fs d dat 0 }"

fun lookup_comps :: "ext2 \<Rightarrow> disk \<Rightarrow> u32 \<Rightarrow> string list \<Rightarrow> u32 option option" where
  "lookup_comps fs d ino [] = Some (Some ino)"
| "lookup_comps fs d ino (c # cs) =
     do { r \<leftarrow> lookup fs d ino c;
          case r of None \<Rightarrow> Some None | Some i \<Rightarrow> lookup_comps fs d i cs }"

definition path_lookup :: "ext2 \<Rightarrow> disk \<Rightarrow> string \<Rightarrow> u32 option option" where
  "path_lookup fs d path =
     lookup_comps fs d ROOT_INO (filter (\<lambda>s. s \<noteq> []) (split_on (\<lambda>c. c = CHR ''/'') path))"

definition read_path :: "ext2 \<Rightarrow> disk \<Rightarrow> string \<Rightarrow> byte list option option" where
  "read_path fs d path =
     do { r \<leftarrow> path_lookup fs d path;
          case r of
            None \<Rightarrow> Some None
          | Some ino \<Rightarrow> do { node \<leftarrow> read_inode fs d ino; map_option Some (read_file fs d node) } }"

end
