(* ===== verification/Ext2_Write.thy ===== *)
theory Ext2_Write
  imports Ext2
begin

text \<open>
  The write side of \<open>kernel/src/ext2.rs\<close>: bitmaps, block and inode allocation, laying
  out file data, directory records, and the path operations.  As in \<open>Ext2\<close>, \<open>None\<close> is a
  panic; an error string of the source is an \<open>Inl\<close> value beside the disk as it is then.
\<close>

section \<open>Counts and bitmaps\<close>

definition group_count :: "ext2 \<Rightarrow> nat option" where
  "group_count fs =
     (if blocks_per_group fs = 0 then None
      else Some (div_ceil (unat (block_count fs - first_data_block fs)) (unat (blocks_per_group fs))))"

definition sb_add32 :: "nat \<Rightarrow> int \<Rightarrow> disk \<Rightarrow> disk" where
  "sb_add32 off delta d =
     (let cur = uint (le32_at (disk_range d (SB_OFFSET + off) 4) 0)
      in disk_write (SB_OFFSET + off) (b32 (of_int (cur + delta))) d)"

definition bgd_add16 :: "ext2 \<Rightarrow> u32 \<Rightarrow> nat \<Rightarrow> int \<Rightarrow> disk \<Rightarrow> disk" where
  "bgd_add16 fs g off delta d =
     (let o' = bgd_off fs g + off; cur = uint (le16_at (disk_range d o' 2) 0)
      in disk_write o' (b16 (of_int (cur + delta))) d)"

definition bit_mask :: "nat \<Rightarrow> byte" where
  "bit_mask i = push_bit (i mod 8) 1"

fun take_bit_loop :: "byte list \<Rightarrow> nat list \<Rightarrow> (nat \<times> byte list) option option" where
  "take_bit_loop bm [] = Some None"
| "take_bit_loop bm (i # is) =
     (if length bm \<le> i div 8 then None
      else if bm ! (i div 8) AND bit_mask i = 0
      then Some (Some (i, bm[i div 8 := bm ! (i div 8) OR bit_mask i]))
      else take_bit_loop bm is)"

definition take_bit_in :: "ext2 \<Rightarrow> u32 \<Rightarrow> u32 \<Rightarrow> disk \<Rightarrow> (u32 option \<times> disk) option" where
  "take_bit_in fs bitmap_blk cnt d =
     do { r \<leftarrow> take_bit_loop (block fs d bitmap_blk) [0..<unat cnt];
          Some (case r of
                  None \<Rightarrow> (None, d)
                | Some (i, bm) \<Rightarrow> (Some (of_nat i), write_block fs bitmap_blk bm d)) }"

fun alloc_block_in :: "ext2 \<Rightarrow> nat \<Rightarrow> nat list \<Rightarrow> disk \<Rightarrow> (u32 option \<times> disk) option" where
  "alloc_block_in fs groups [] d = Some (None, d)"
| "alloc_block_in fs groups (g # gs) d =
     (let bgd = read_bgd fs d (of_nat g)
      in if le16_at bgd 12 = 0 then alloc_block_in fs groups gs d
         else let in_group = (if g = groups - 1
                              then block_count fs - first_data_block fs - of_nat g * blocks_per_group fs
                              else blocks_per_group fs)
              in do { (r, d1) \<leftarrow> take_bit_in fs (le32_at bgd 0) in_group d;
                      case r of
                        None \<Rightarrow> alloc_block_in fs groups gs d1
                      | Some i \<Rightarrow>
                          let d2 = bgd_add16 fs (of_nat g) 12 (- 1) d1; d3 = sb_add32 12 (- 1) d2;
                              bno = first_data_block fs + of_nat g * blocks_per_group fs + i;
                              d4 = write_block fs bno (replicate (bs fs) 0) d3
                          in Some (Some bno, d4) })"

definition alloc_block :: "ext2 \<Rightarrow> disk \<Rightarrow> (u32 option \<times> disk) option" where
  "alloc_block fs d = do { groups \<leftarrow> group_count fs; alloc_block_in fs groups [0..<groups] d }"

definition clear_bit :: "nat \<Rightarrow> byte list \<Rightarrow> byte list" where
  "clear_bit i bm = bm[i div 8 := bm ! (i div 8) AND NOT (bit_mask i)]"

definition free_block :: "ext2 \<Rightarrow> u32 \<Rightarrow> disk \<Rightarrow> disk option" where
  "free_block fs bno d =
     (if blocks_per_group fs = 0 then None
      else let rel = bno - first_data_block fs; g = rel div blocks_per_group fs;
               i = unat (rel mod blocks_per_group fs);
               bmb = le32_at (read_bgd fs d g) 0; bm = block fs d bmb
           in if length bm \<le> i div 8 then None
              else if bm ! (i div 8) AND bit_mask i \<noteq> 0
              then Some (sb_add32 12 1 (bgd_add16 fs g 12 1 (write_block fs bmb (clear_bit i bm) d)))
              else Some d)"

section \<open>Inodes\<close>

definition patch_inode :: "ext2 \<Rightarrow> u32 \<Rightarrow> (byte list \<Rightarrow> byte list option) \<Rightarrow> disk \<Rightarrow> disk option" where
  "patch_inode fs ino f d =
     do { off \<leftarrow> inode_off fs d ino;
          raw \<leftarrow> f (disk_range d off (unat (inode_size fs)));
          Some (disk_write off raw d) }"

fun alloc_inode_in :: "ext2 \<Rightarrow> bool \<Rightarrow> nat list \<Rightarrow> disk \<Rightarrow> (u32 option \<times> disk) option" where
  "alloc_inode_in fs is_dir [] d = Some (None, d)"
| "alloc_inode_in fs is_dir (g # gs) d =
     (let bgd = read_bgd fs d (of_nat g)
      in if le16_at bgd 14 = 0 then alloc_inode_in fs is_dir gs d
         else do { (r, d1) \<leftarrow> take_bit_in fs (le32_at bgd 4) (inodes_per_group fs) d;
                   case r of
                     None \<Rightarrow> alloc_inode_in fs is_dir gs d1
                   | Some i \<Rightarrow>
                       let d2 = sb_add32 16 (- 1) (bgd_add16 fs (of_nat g) 14 (- 1) d1);
                           d3 = (if is_dir then bgd_add16 fs (of_nat g) 16 1 d2 else d2);
                           ino = of_nat g * inodes_per_group fs + i + 1
                       in do { d4 \<leftarrow> patch_inode fs ino (\<lambda>raw. Some (replicate (length raw) 0)) d3;
                               Some (Some ino, d4) } })"

definition alloc_inode :: "ext2 \<Rightarrow> bool \<Rightarrow> disk \<Rightarrow> (u32 option \<times> disk) option" where
  "alloc_inode fs is_dir d = do { groups \<leftarrow> group_count fs; alloc_inode_in fs is_dir [0..<groups] d }"

definition bump_links :: "ext2 \<Rightarrow> u32 \<Rightarrow> int \<Rightarrow> disk \<Rightarrow> disk option" where
  "bump_links fs ino delta d =
     patch_inode fs ino
       (\<lambda>raw. if length raw < 28 then None
              else wr 26 (b16 (of_int (uint (le16_at raw 26) + delta))) raw) d"

fun free_list :: "ext2 \<Rightarrow> u32 list \<Rightarrow> disk \<Rightarrow> disk option" where
  "free_list fs [] d = Some d"
| "free_list fs (b # bl) d = (if b = 0 then free_list fs bl d else free_block fs b d \<bind> free_list fs bl)"

text \<open>The blocks under one indirect block, then the indirect block itself.\<close>

definition free_indirect :: "ext2 \<Rightarrow> u32 \<Rightarrow> disk \<Rightarrow> disk option" where
  "free_indirect fs b d = do { d1 \<leftarrow> free_list fs (chunks4 (block fs d b)) d; free_block fs b d1 }"

fun free_indirects :: "ext2 \<Rightarrow> u32 list \<Rightarrow> disk \<Rightarrow> disk option" where
  "free_indirects fs [] d = Some d"
| "free_indirects fs (b # bl) d =
     (if b = 0 then free_indirects fs bl d else free_indirect fs b d \<bind> free_indirects fs bl)"

definition free_all_blocks :: "ext2 \<Rightarrow> inode \<Rightarrow> disk \<Rightarrow> disk option" where
  "free_all_blocks fs node d =
     do { d1 \<leftarrow> free_list fs (take 12 (i_block node)) d;
          d2 \<leftarrow> (if i_block node ! 12 \<noteq> 0 then free_indirect fs (i_block node ! 12) d1 else Some d1);
          if i_block node ! 13 \<noteq> 0
          then do { d3 \<leftarrow> free_indirects fs (chunks4 (block fs d2 (i_block node ! 13))) d2;
                    free_block fs (i_block node ! 13) d3 }
          else Some d2 }"

definition free_inode :: "ext2 \<Rightarrow> u32 \<Rightarrow> bool \<Rightarrow> disk \<Rightarrow> disk option" where
  "free_inode fs ino is_dir d =
     (if inodes_per_group fs = 0 then None
      else let g = (ino - 1) div inodes_per_group fs; i = unat ((ino - 1) mod inodes_per_group fs);
               bmb = le32_at (read_bgd fs d g) 4; bm = block fs d bmb
           in if length bm \<le> i div 8 then None
              else let d1 = (if bm ! (i div 8) AND bit_mask i \<noteq> 0
                             then let e = sb_add32 16 1 (bgd_add16 fs g 14 1 (write_block fs bmb (clear_bit i bm) d))
                                  in if is_dir then bgd_add16 fs g 16 (- 1) e else e
                             else d)
                   in patch_inode fs ino
                        (\<lambda>raw. do { raw \<leftarrow> wr 26 (b16 0) raw; raw \<leftarrow> wr 20 (b32 1735689600) raw; wr 28 (b32 0) raw }) d1)"

section \<open>Laying out data\<close>

definition chunk :: "ext2 \<Rightarrow> byte list \<Rightarrow> nat \<Rightarrow> byte list" where
  "chunk fs dat i =
     (let v = take (bs fs) (drop (i * bs fs) dat) in v @ replicate (bs fs - length v) 0)"

text \<open>
  Allocate and fill \<open>n\<close> data blocks from number \<open>bi\<close> on; the list of their numbers, or
  \<open>None\<close> when the disk is full (blocks taken so far stay taken).
\<close>

fun lay_blocks :: "ext2 \<Rightarrow> byte list \<Rightarrow> nat \<Rightarrow> nat \<Rightarrow> disk \<Rightarrow> (u32 list option \<times> disk) option" where
  "lay_blocks fs dat bi 0 d = Some (Some [], d)"
| "lay_blocks fs dat bi (Suc n) d =
     do { (r, d1) \<leftarrow> alloc_block fs d;
          case r of
            None \<Rightarrow> Some (None, d1)
          | Some b \<Rightarrow>
              do { (rs, d2) \<leftarrow> lay_blocks fs dat (Suc bi) n (write_block fs b (chunk fs dat bi) d1);
                   Some (map_option ((#) b) rs, d2) } }"

text \<open>An indirect block filled with pointers from its start.\<close>

definition ptr_block :: "ext2 \<Rightarrow> u32 list \<Rightarrow> byte list" where
  "ptr_block fs ps = splice 0 (concat (map b32 ps)) (replicate (bs fs) 0)"

definition lay_indirect :: "ext2 \<Rightarrow> byte list \<Rightarrow> nat \<Rightarrow> nat \<Rightarrow> disk \<Rightarrow> ((u32 \<times> nat) option \<times> disk) option" where
  "lay_indirect fs dat nblocks bi d =
     do { (r, d1) \<leftarrow> alloc_block fs d;
          case r of
            None \<Rightarrow> Some (None, d1)
          | Some ind \<Rightarrow>
              let n = min (nblocks - bi) (bs fs div 4)
              in do { (rs, d2) \<leftarrow> lay_blocks fs dat bi n d1;
                      case rs of
                        None \<Rightarrow> Some (None, d2)
                      | Some ps \<Rightarrow> Some (Some (ind, bi + n), write_block fs ind (ptr_block fs ps) d2) } }"

fun lay_indirects :: "ext2 \<Rightarrow> byte list \<Rightarrow> nat \<Rightarrow> nat \<Rightarrow> nat \<Rightarrow> disk \<Rightarrow> ((u32 list \<times> nat) option \<times> disk) option" where
  "lay_indirects fs dat nblocks bi 0 d = Some (Some ([], bi), d)"
| "lay_indirects fs dat nblocks bi (Suc j) d =
     (if bi < nblocks
      then do { (r, d1) \<leftarrow> lay_indirect fs dat nblocks bi d;
                case r of
                  None \<Rightarrow> Some (None, d1)
                | Some (ind, bi') \<Rightarrow>
                    do { (rs, d2) \<leftarrow> lay_indirects fs dat nblocks bi' j d1;
                         Some (map_option (map_prod ((#) ind) id) rs, d2) } }
      else Some (Some ([], bi), d))"

definition lay_out_data :: "ext2 \<Rightarrow> byte list \<Rightarrow> disk \<Rightarrow> ((u32 list \<times> u32) option \<times> disk) option" where
  "lay_out_data fs dat d =
     (if bs fs = 0 then None
      else let per = bs fs div 4; nblocks = div_ceil (length dat) (bs fs); n0 = min nblocks 12
           in do { (r0, d0) \<leftarrow> lay_blocks fs dat 0 n0 d;
                   case r0 of
                     None \<Rightarrow> Some (None, d0)
                   | Some direct \<Rightarrow>
                       do { (r1, d1) \<leftarrow> (if n0 < nblocks
                                         then do { (r, e) \<leftarrow> lay_indirect fs dat nblocks n0 d0;
                                                   Some (map_option (\<lambda>(ind, bi). (ind, bi, 1 :: nat)) r, e) }
                                         else Some (Some (0, n0, 0), d0));
                            case r1 of
                              None \<Rightarrow> Some (None, d1)
                            | Some (ind, bi1, meta1) \<Rightarrow>
                                do { (r2, d2) \<leftarrow>
                                       (if bi1 < nblocks
                                        then do { (r, e) \<leftarrow> alloc_block fs d1;
                                                  case r of
                                                    None \<Rightarrow> Some (None, e)
                                                  | Some dind \<Rightarrow>
                                                      do { (rs, e2) \<leftarrow> lay_indirects fs dat nblocks bi1 per e;
                                                           case rs of
                                                             None \<Rightarrow> Some (None, e2)
                                                           | Some (inds, bi) \<Rightarrow>
                                                               Some (Some (dind, bi, Suc (length inds)),
                                                                     write_block fs dind (ptr_block fs inds) e2) } }
                                        else Some (Some (0, bi1, 0), d1));
                                     case r2 of
                                       None \<Rightarrow> Some (None, d2)
                                     | Some (dind, bi2, meta2) \<Rightarrow>
                                         if bi2 < nblocks then Some (None, d2)
                                         else Some (Some (direct @ replicate (12 - n0) 0 @ [ind, dind, 0],
                                                    (of_nat nblocks + of_nat (meta1 + meta2)) * (block_size fs div 512)), d2) } } })"

section \<open>Directory records\<close>

text \<open>\<open>rec_len - used\<close> on machine words: it wraps when a record is shorter than its name needs.\<close>

definition avail :: "nat \<Rightarrow> nat \<Rightarrow> nat" where
  "avail rec_len used = (if used \<le> rec_len then rec_len - used else 2 ^ 64 + rec_len - used)"

definition put_record :: "nat \<Rightarrow> u32 \<Rightarrow> nat \<Rightarrow> string \<Rightarrow> byte \<Rightarrow> byte list \<Rightarrow> byte list option" where
  "put_record no child nrec name ft blk =
     do { blk \<leftarrow> wr no (b32 child) blk;
          blk \<leftarrow> wr (no + 4) (b16 (of_nat nrec)) blk;
          blk \<leftarrow> wr (no + 6) [of_nat (length name)] blk;
          blk \<leftarrow> wr (no + 7) [ft] blk;
          wr (no + 8) (as_bytes name) blk }"

text \<open>
  The scan of one directory block for a gap: \<open>Some None\<close> when there is none, and the
  changed block otherwise.
\<close>

function insert_in :: "string \<Rightarrow> u32 \<Rightarrow> byte \<Rightarrow> byte list \<Rightarrow> nat \<Rightarrow> byte list option option" where
  "insert_in name child ft blk off =
     (if off + 8 \<le> length blk
      then let ino = le32_at blk off; rec_len = unat (le16_at blk (off + 4)); name_len = unat (blk ! (off + 6))
           in if rec_len = 0 \<or> length blk < off + rec_len then Some None
              else let used = (if ino = 0 then 0 else round4 (8 + name_len))
                   in if round4 (8 + length name) \<le> avail rec_len used
                      then do { blk1 \<leftarrow> (if used \<noteq> 0 then wr (off + 4) (b16 (of_nat used)) blk else Some blk);
                                blk2 \<leftarrow> put_record (off + used) child (avail rec_len used) name ft blk1;
                                Some (Some blk2) }
                      else insert_in name child ft blk (off + rec_len)
      else Some None)"
  by pat_completeness auto
termination
  by (relation "measure (\<lambda>(name, child, ft, blk, off). length blk - off)") auto

declare insert_in.simps [simp del]

fun insert_slots :: "ext2 \<Rightarrow> string \<Rightarrow> u32 \<Rightarrow> byte \<Rightarrow> u32 list \<Rightarrow> disk \<Rightarrow> disk option option" where
  "insert_slots fs name child ft [] d = Some None"
| "insert_slots fs name child ft (bno # bl) d =
     (if bno = 0 then insert_slots fs name child ft bl d
      else do { r \<leftarrow> insert_in name child ft (block fs d bno) 0;
                case r of
                  None \<Rightarrow> insert_slots fs name child ft bl d
                | Some blk \<Rightarrow> Some (Some (write_block fs bno blk d)) })"

definition file_type :: "ext2 \<Rightarrow> bool \<Rightarrow> byte" where
  "file_type fs is_dir = (if \<not> filetype fs then 0 else if is_dir then 2 else 1)"

definition grow_dir :: "ext2 \<Rightarrow> inode \<Rightarrow> nat \<Rightarrow> u32 \<Rightarrow> byte list \<Rightarrow> byte list option" where
  "grow_dir fs dir slot bno raw =
     (if length raw < 100 then None
      else do { raw \<leftarrow> wr 4 (b32 (le32_at raw 4 + block_size fs)) raw;
                raw \<leftarrow> wr 28 (b32 (le32_at raw 28 + block_size fs div 512)) raw;
                let nb = (i_block dir)[slot := bno]
                in fold (\<lambda>i acc. acc \<bind> wr (40 + i * 4) (b32 (nb ! i))) [0..<length nb] (Some raw) })"

definition dir_insert :: "ext2 \<Rightarrow> u32 \<Rightarrow> string \<Rightarrow> u32 \<Rightarrow> bool \<Rightarrow> disk \<Rightarrow> ((string, unit) result \<times> disk) option" where
  "dir_insert fs dir_ino name child is_dir d =
     do { dir \<leftarrow> read_inode fs d dir_ino;
          r \<leftarrow> insert_slots fs name child (file_type fs is_dir) (take 12 (i_block dir)) d;
          case r of
            Some d1 \<Rightarrow> Some (Inr (), d1)
          | None \<Rightarrow>
              (case List.find (\<lambda>s. i_block dir ! s = 0) [0..<12] of
                 None \<Rightarrow> Some (Inl ''directory full'', d)
               | Some slot \<Rightarrow>
                   do { (rb, d1) \<leftarrow> alloc_block fs d;
                        case rb of
                          None \<Rightarrow> Some (Inl ''no free block for dir'', d1)
                        | Some bno \<Rightarrow>
                            do { blk \<leftarrow> put_record 0 child (bs fs) name (file_type fs is_dir) (replicate (bs fs) 0);
                                 d2 \<leftarrow> patch_inode fs dir_ino (grow_dir fs dir slot bno) (write_block fs bno blk d1);
                                 Some (Inr (), d2) } }) }"

text \<open>
  The scan of one block for the record to remove: the inode it named and the changed
  block.  \<open>prev\<close> is the offset of the record before.
\<close>

function remove_in :: "string \<Rightarrow> byte list \<Rightarrow> nat option \<Rightarrow> nat \<Rightarrow> (u32 \<times> byte list) option option" where
  "remove_in name blk prev off =
     (if off + 8 \<le> length blk
      then let ino = le32_at blk off; rec_len = unat (le16_at blk (off + 4)); name_len = unat (blk ! (off + 6))
           in if rec_len = 0 \<or> length blk < off + rec_len then Some None
              else if ino \<noteq> 0 \<and> name_len = length name \<and> length blk < off + 8 + name_len then None
              else if ino \<noteq> 0 \<and> name_len = length name \<and> take name_len (drop (off + 8) blk) = as_bytes name
              then do { blk1 \<leftarrow> (case prev of
                                   Some p \<Rightarrow> wr (p + 4) (b16 (of_nat (unat (le16_at blk (p + 4)) + rec_len))) blk
                                 | None \<Rightarrow> wr off (b32 0) blk);
                        Some (Some (ino, blk1)) }
              else remove_in name blk (Some off) (off + rec_len)
      else Some None)"
  by pat_completeness auto
termination
  by (relation "measure (\<lambda>(name, blk, prev, off). length blk - off)") auto

declare remove_in.simps [simp del]

fun remove_slots :: "ext2 \<Rightarrow> string \<Rightarrow> u32 list \<Rightarrow> disk \<Rightarrow> (u32 option \<times> disk) option" where
  "remove_slots fs name [] d = Some (None, d)"
| "remove_slots fs name (bno # bl) d =
     (if bno = 0 then remove_slots fs name bl d
      else do { r \<leftarrow> remove_in name (block fs d bno) None 0;
                case r of
                  None \<Rightarrow> remove_slots fs name bl d
                | Some (ino, blk) \<Rightarrow> Some (Some ino, write_block fs bno blk d) })"

definition dir_remove :: "ext2 \<Rightarrow> u32 \<Rightarrow> string \<Rightarrow> disk \<Rightarrow> (u32 option \<times> disk) option" where
  "dir_remove fs dir_ino name d =
     do { dir \<leftarrow> read_inode fs d dir_ino; remove_slots fs name (take 12 (i_block dir)) d }"

section \<open>Backups\<close>

definition U32_MAX :: nat where "U32_MAX = 2 ^ 32 - 1"

text \<open>The powers of \<open>base\<close> in turn; \<open>checked_mul\<close> ends the search on overflow.\<close>

function power_search :: "nat \<Rightarrow> nat \<Rightarrow> nat \<Rightarrow> bool" where
  "power_search base g p =
     (if p < g \<and> 1 < base \<and> 0 < p
      then if U32_MAX < p * base then False else power_search base g (p * base)
      else p = g)"
  by pat_completeness auto
termination
proof (relation "measure (\<lambda>(base, g, p). g - p)", goal_cases)
  case (2 base g p)
  then show ?case using diff_less_mono2 [of p "p * base" g] by auto
qed simp

declare power_search.simps [simp del]

definition has_backup :: "ext2 \<Rightarrow> u32 \<Rightarrow> bool" where
  "has_backup fs g =
     (if \<not> sparse_super fs \<or> g \<le> 1 then True
      else list_ex (\<lambda>base. power_search base (unat g) base) [3, 5, 7])"

definition sync_group :: "ext2 \<Rightarrow> byte list \<Rightarrow> byte list \<Rightarrow> nat \<Rightarrow> disk \<Rightarrow> disk" where
  "sync_group fs sb gdt g d =
     (if \<not> has_backup fs (of_nat g) then d
      else let sb_blk = first_data_block fs + of_nat g * blocks_per_group fs;
               sbc = splice 90 (b16 (of_nat g)) sb
           in disk_write (unat (sb_blk + 1) * bs fs) gdt (disk_write (unat sb_blk * bs fs) sbc d))"

definition sync_backups :: "ext2 \<Rightarrow> disk \<Rightarrow> disk option" where
  "sync_backups fs d =
     do { groups \<leftarrow> group_count fs;
          if groups \<le> 1 then Some d
          else let sb = disk_range d SB_OFFSET 1024; gdt = disk_range d (bgd_off fs 0) (groups * 32)
               in Some (fold (sync_group fs sb gdt) [1..<groups] d) }"

section \<open>Path operations\<close>

type_synonym op_result = "((string, unit) result \<times> disk) option"

definition write_path_owned :: "ext2 \<Rightarrow> string \<Rightarrow> byte list \<Rightarrow> u32 \<Rightarrow> u32 \<Rightarrow> disk \<Rightarrow> op_result" where
  "write_path_owned fs path dat uid gid d =
     (case split_parent path of
        None \<Rightarrow> Some (Inl ''bad path'', d)
      | Some (parent, name) \<Rightarrow>
          do { rp \<leftarrow> path_lookup fs d parent;
               case rp of
                 None \<Rightarrow> Some (Inl ''parent dir missing'', d)
               | Some parent_ino \<Rightarrow>
                   if 255 < length name then Some (Inl ''name too long'', d)
                   else do { (rl, d1) \<leftarrow> lay_out_data fs dat d;
                             case rl of
                               None \<Rightarrow> Some (Inl ''no space / file too large'', d1)
                             | Some (blk, blocks512) \<Rightarrow>
                                 do { rc \<leftarrow> lookup fs d1 parent_ino name;
                                      case rc of
                                        Some ino \<Rightarrow>
                                          do { old \<leftarrow> read_inode fs d1 ino;
                                               d2 \<leftarrow> patch_inode fs ino
                                                       (\<lambda>raw. set_inode (i_mode old) (i_uid old) (i_gid old) (length dat)
                                                                (le16_at raw 26) blocks512 blk raw) d1;
                                               d3 \<leftarrow> free_all_blocks fs old d2;
                                               d4 \<leftarrow> sync_backups fs d3;
                                               Some (Inr (), d4) }
                                      | None \<Rightarrow>
                                          do { (ri, d2) \<leftarrow> alloc_inode fs False d1;
                                               case ri of
                                                 None \<Rightarrow> Some (Inl ''no free inode'', d2)
                                               | Some ino \<Rightarrow>
                                                   do { d3 \<leftarrow> patch_inode fs ino
                                                                (set_inode 0x81A4 uid gid (length dat) 1 blocks512 blk) d2;
                                                        (r, d4) \<leftarrow> dir_insert fs parent_ino name ino False d3;
                                                        case r of
                                                          Inl e \<Rightarrow> Some (Inl e, d4)
                                                        | Inr _ \<Rightarrow> do { d5 \<leftarrow> sync_backups fs d4; Some (Inr (), d5) } } } } } })"

definition write_path :: "ext2 \<Rightarrow> string \<Rightarrow> byte list \<Rightarrow> disk \<Rightarrow> op_result" where
  "write_path fs path dat d = write_path_owned fs path dat 0 0 d"

text \<open>The first block of a new directory, with its own and its parent's record.\<close>

definition mkdir_block :: "ext2 \<Rightarrow> u32 \<Rightarrow> u32 \<Rightarrow> byte list option" where
  "mkdir_block fs ino parent_ino =
     (let dft = (if filetype fs then 2 else 0)
      in do { blk \<leftarrow> wr 0 (b32 ino) (replicate (bs fs) 0);
              blk \<leftarrow> wr 4 (b16 12) blk;
              blk \<leftarrow> wr 6 [1, dft, 0x2E] blk;
              blk \<leftarrow> wr 12 (b32 parent_ino) blk;
              blk \<leftarrow> wr 16 (b16 (of_nat (bs fs - 12))) blk;
              wr 18 [2, dft, 0x2E, 0x2E] blk })"

definition mkdir_path_owned :: "ext2 \<Rightarrow> string \<Rightarrow> u32 \<Rightarrow> u32 \<Rightarrow> disk \<Rightarrow> op_result" where
  "mkdir_path_owned fs path uid gid d =
     (case split_parent path of
        None \<Rightarrow> Some (Inl ''bad path'', d)
      | Some (parent, name) \<Rightarrow>
          do { rp \<leftarrow> path_lookup fs d parent;
               case rp of
                 None \<Rightarrow> Some (Inl ''parent dir missing'', d)
               | Some parent_ino \<Rightarrow>
                   do { rc \<leftarrow> lookup fs d parent_ino name;
                        if rc \<noteq> None then Some (Inl ''already exists'', d)
                        else do { (ri, d1) \<leftarrow> alloc_inode fs True d;
                                  case ri of
                                    None \<Rightarrow> Some (Inl ''no free inode'', d1)
                                  | Some ino \<Rightarrow>
                                      do { (rb, d2) \<leftarrow> alloc_block fs d1;
                                           case rb of
                                             None \<Rightarrow> Some (Inl ''no free block'', d2)
                                           | Some bno \<Rightarrow>
                                               do { blk \<leftarrow> mkdir_block fs ino parent_ino;
                                                    d3 \<leftarrow> patch_inode fs ino
                                                            (set_inode 0x41ED uid gid (bs fs) 2 (block_size fs div 512)
                                                               (bno # replicate 14 0)) (write_block fs bno blk d2);
                                                    (r, d4) \<leftarrow> dir_insert fs parent_ino name ino True d3;
                                                    case r of
                                                      Inl e \<Rightarrow> Some (Inl e, d4)
                                                    | Inr _ \<Rightarrow>
                                                        do { d5 \<leftarrow> bump_links fs parent_ino 1 d4;
                                                             d6 \<leftarrow> sync_backups fs d5;
                                                             Some (Inr (), d6) } } } } } })"

definition mkdir_path :: "ext2 \<Rightarrow> string \<Rightarrow> disk \<Rightarrow> op_result" where
  "mkdir_path fs path d = mkdir_path_owned fs path 0 0 d"

definition chmod_path :: "ext2 \<Rightarrow> string \<Rightarrow> u16 \<Rightarrow> disk \<Rightarrow> op_result" where
  "chmod_path fs path perm d =
     do { r \<leftarrow> path_lookup fs d path;
          case r of
            None \<Rightarrow> Some (Inl ''no such file'', d)
          | Some ino \<Rightarrow>
              do { node \<leftarrow> read_inode fs d ino;
                   d1 \<leftarrow> patch_inode fs ino (wr 0 (b16 ((i_mode node AND 0xF000) OR (perm AND 0xFFF)))) d;
                   Some (Inr (), d1) } }"

definition chown_path :: "ext2 \<Rightarrow> string \<Rightarrow> u32 \<Rightarrow> u32 \<Rightarrow> disk \<Rightarrow> op_result" where
  "chown_path fs path uid gid d =
     do { r \<leftarrow> path_lookup fs d path;
          case r of
            None \<Rightarrow> Some (Inl ''no such file'', d)
          | Some ino \<Rightarrow>
              do { d1 \<leftarrow> patch_inode fs ino
                           (\<lambda>raw. do { raw \<leftarrow> wr 2 (b16 (ucast uid)) raw; wr 24 (b16 (ucast gid)) raw }) d;
                   Some (Inr (), d1) } }"

definition is_dir_mode :: "inode \<Rightarrow> bool" where
  "is_dir_mode node \<longleftrightarrow> i_mode node AND 0xF000 = 0x4000"

definition unlink_path :: "ext2 \<Rightarrow> string \<Rightarrow> disk \<Rightarrow> op_result" where
  "unlink_path fs path d =
     (case split_parent path of
        None \<Rightarrow> Some (Inl ''bad path'', d)
      | Some (parent, name) \<Rightarrow>
          do { rp \<leftarrow> path_lookup fs d parent;
               case rp of
                 None \<Rightarrow> Some (Inl ''parent dir missing'', d)
               | Some parent_ino \<Rightarrow>
                   do { rc \<leftarrow> lookup fs d parent_ino name;
                        case rc of
                          None \<Rightarrow> Some (Inl ''no such file'', d)
                        | Some ino \<Rightarrow>
                            do { node \<leftarrow> read_inode fs d ino;
                                 if is_dir_mode node then Some (Inl ''is a directory'', d)
                                 else do { (rr, d1) \<leftarrow> dir_remove fs parent_ino name d;
                                           case rr of
                                             None \<Rightarrow> Some (Inl ''dirent vanished'', d1)
                                           | Some _ \<Rightarrow>
                                               do { off \<leftarrow> inode_off fs d1 ino;
                                                    d2 \<leftarrow> (if le16_at (disk_range d1 (off + 26) 2) 0 \<le> 1
                                                          then free_all_blocks fs node d1 \<bind> free_inode fs ino False
                                                          else bump_links fs ino (- 1) d1);
                                                    d3 \<leftarrow> sync_backups fs d2;
                                                    Some (Inr (), d3) } } } } })"

text \<open>The scan for an entry besides the two a fresh directory has.\<close>

function dir_busy :: "byte list \<Rightarrow> nat \<Rightarrow> bool" where
  "dir_busy dat off =
     (if off + 8 \<le> length dat
      then let e_ino = le32_at dat off; rl = unat (le16_at dat (off + 4)); nl = unat (dat ! (off + 6));
               nm = take nl (drop (off + 8) dat)
           in if rl = 0 then False
              else if e_ino \<noteq> 0 \<and> nm \<noteq> as_bytes ''.'' \<and> nm \<noteq> as_bytes ''..'' then True
              else dir_busy dat (off + rl)
      else False)"
  by pat_completeness auto
termination
  by (relation "measure (\<lambda>(dat, off). length dat - off)") auto

declare dir_busy.simps [simp del]

definition rmdir_path :: "ext2 \<Rightarrow> string \<Rightarrow> disk \<Rightarrow> op_result" where
  "rmdir_path fs path d =
     (case split_parent path of
        None \<Rightarrow> Some (Inl ''bad path'', d)
      | Some (parent, name) \<Rightarrow>
          do { rp \<leftarrow> path_lookup fs d parent;
               case rp of
                 None \<Rightarrow> Some (Inl ''parent dir missing'', d)
               | Some parent_ino \<Rightarrow>
                   do { rc \<leftarrow> lookup fs d parent_ino name;
                        case rc of
                          None \<Rightarrow> Some (Inl ''no such directory'', d)
                        | Some ino \<Rightarrow>
                            do { node \<leftarrow> read_inode fs d ino;
                                 if \<not> is_dir_mode node then Some (Inl ''not a directory'', d)
                                 else do { dat \<leftarrow> read_file fs d node;
                                           if dir_busy dat 0 then Some (Inl ''directory not empty'', d)
                                           else do { (rr, d1) \<leftarrow> dir_remove fs parent_ino name d;
                                                     case rr of
                                                       None \<Rightarrow> Some (Inl ''dirent vanished'', d1)
                                                     | Some _ \<Rightarrow>
                                                         do { d2 \<leftarrow> free_all_blocks fs node d1;
                                                              d3 \<leftarrow> free_inode fs ino True d2;
                                                              d4 \<leftarrow> bump_links fs parent_ino (- 1) d3;
                                                              d5 \<leftarrow> sync_backups fs d4;
                                                              Some (Inr (), d5) } } } } } })"

end
