(* ===== verification/Ext2_Props.thy ===== *)
theory Ext2_Props
  imports Ext2_Write
begin

text \<open>
  Properties of the ext2 model: sector-granular disk access is flat byte access, inodes
  read back as written, run coalescing reads the same bytes as reading block by block,
  bitmaps hand out the first free bit, directory blocks behave as lists of named
  entries, and the backup groups are the powers of 3, 5 and 7.
\<close>

section \<open>Flat disk access\<close>

lemma length_ahci_read [simp]: "length (ahci_read d lba n) = n * SECTOR"
  by (simp add: ahci_read_def algebra_simps)

lemma read_sectors_all:
  "length raw = sectors * SECTOR \<Longrightarrow> cur \<le> sectors \<Longrightarrow>
   take (cur * SECTOR) raw = map d [start * SECTOR ..< (start + cur) * SECTOR] \<Longrightarrow>
   read_sectors d start sectors cur raw = map d [start * SECTOR ..< (start + sectors) * SECTOR]"
proof (induction d start sectors cur raw rule: read_sectors.induct)
  case (1 d start sectors cur raw)
  show ?case
  proof (cases "cur < sectors")
    case True
    define n where "n = min (sectors - cur) 64"
    have n: "cur + n \<le> sectors" using True by (simp add: n_def)
    have fit: "cur * SECTOR + n * SECTOR \<le> length raw"
      using n 1(2) by (metis add_mult_distrib mult_le_mono1)
    define raw' where "raw' = splice (cur * SECTOR) (ahci_read d (start + cur) n) raw"
    have "take ((cur + n) * SECTOR) raw' = take (cur * SECTOR) raw @ ahci_read d (start + cur) n"
      using fit by (simp add: raw'_def splice_def algebra_simps)
    also have "\<dots> = map d [start * SECTOR ..< (start + (cur + n)) * SECTOR]"
    proof -
      have "[start * SECTOR ..< (start + (cur + n)) * SECTOR]
        = [start * SECTOR ..< (start + cur) * SECTOR] @ [(start + cur) * SECTOR ..< (start + cur + n) * SECTOR]"
        using upt_add_eq_append [of "start * SECTOR" "(start + cur) * SECTOR" "n * SECTOR"]
        by (simp add: add_mult_distrib add.assoc)
      then show ?thesis using 1(4) by (simp add: ahci_read_def)
    qed
    finally have "read_sectors d start sectors (cur + n) raw' = map d [start * SECTOR ..< (start + sectors) * SECTOR]"
      using 1(1) [OF True n_def] n fit 1(2) by (simp add: raw'_def)
    with True show ?thesis by (subst read_sectors.simps) (simp add: Let_def n_def raw'_def)
  next
    case False
    with 1 show ?thesis by (subst read_sectors.simps) simp
  qed
qed

lemma override_join:
  fixes x y z :: nat
  assumes "x \<le> y" "y \<le> z" "\<And>a. d' a = (if x \<le> a \<and> a < y then f a else d a)"
  shows "(\<lambda>a. if y \<le> a \<and> a < z then f a else d' a) = (\<lambda>a. if x \<le> a \<and> a < z then f a else d a)"
  using assms by (auto simp: fun_eq_iff)

lemma override_none: "(\<lambda>a. if (x::nat) \<le> a \<and> a < x then f a else d a) = d"
  by (auto simp: fun_eq_iff)

lemma write_sectors_all:
  "length raw = sectors * SECTOR \<Longrightarrow> cur \<le> sectors \<Longrightarrow>
   write_sectors start sectors cur raw d =
   (\<lambda>a. if (start + cur) * SECTOR \<le> a \<and> a < (start + sectors) * SECTOR then raw ! (a - start * SECTOR) else d a)"
proof (induction start sectors cur raw d rule: write_sectors.induct)
  case (1 start sectors cur raw d)
  show ?case
  proof (cases "cur < sectors")
    case True
    define n where "n = min (sectors - cur) 64"
    have n: "cur + n \<le> sectors" using True by (simp add: n_def)
    have fit: "cur * SECTOR + n * SECTOR \<le> length raw"
      using n 1(2) by (metis add_mult_distrib mult_le_mono1)
    define d' where "d' = ahci_write (start + cur) (take (n * SECTOR) (drop (cur * SECTOR) raw)) d"
    have "write_sectors start sectors (cur + n) raw d' = (\<lambda>a. if (start + (cur + n)) * SECTOR \<le> a \<and>
        a < (start + sectors) * SECTOR then raw ! (a - start * SECTOR) else d' a)"
      using 1(1) [OF True n_def] n 1(2) unfolding d'_def by blast
    also have "\<dots> = (\<lambda>a. if (start + cur) * SECTOR \<le> a \<and> a < (start + sectors) * SECTOR
        then raw ! (a - start * SECTOR) else d a)"
    proof (rule override_join)
      show "(start + cur) * SECTOR \<le> (start + (cur + n)) * SECTOR"
        "(start + (cur + n)) * SECTOR \<le> (start + sectors) * SECTOR"
        using n by (simp_all only: mult_le_mono1 add_left_mono le_add1)
      show "d' a = (if (start + cur) * SECTOR \<le> a \<and> a < (start + (cur + n)) * SECTOR
        then raw ! (a - start * SECTOR) else d a)" for a
        using fit by (auto simp: d'_def ahci_write_def algebra_simps min_def)
    qed
    finally have "write_sectors start sectors (cur + n) raw d' = (\<lambda>a. if (start + cur) * SECTOR \<le> a \<and>
        a < (start + sectors) * SECTOR then raw ! (a - start * SECTOR) else d a)" .
    with True show ?thesis by (subst write_sectors.simps) (simp add: Let_def n_def d'_def)
  next
    case False
    with 1 show ?thesis by (subst write_sectors.simps) (auto simp: override_none)
  qed
qed

text \<open>The sectors that hold a byte range: where the range starts in them and that it fits.\<close>

lemma sector_span:
  assumes "s = off div SECTOR" "n = (off + len + SECTOR - 1) div SECTOR - s"
  shows "s * SECTOR \<le> off" "off + len \<le> (s + n) * SECTOR"
proof -
  show "s * SECTOR \<le> off" by (simp add: assms(1))
  define q where "q = (off + len + SECTOR - 1) div SECTOR"
  have "s \<le> q" unfolding assms(1) q_def by (rule div_le_mono) (simp add: SECTOR_def)
  then have "s + n = q" by (simp add: assms(2) q_def)
  moreover have "q * SECTOR + (off + len + SECTOR - 1) mod SECTOR = off + len + SECTOR - 1"
    unfolding q_def by (rule div_mult_mod_eq)
  moreover have "(off + len + SECTOR - 1) mod SECTOR < SECTOR" by (simp add: SECTOR_def)
  moreover have "0 < SECTOR" by (simp add: SECTOR_def)
  ultimately have "off + len \<le> q * SECTOR" by linarith
  with \<open>s + n = q\<close> show "off + len \<le> (s + n) * SECTOR" by simp
qed

lemma all_sectors:
  "read_sectors d start n 0 (replicate (n * SECTOR) 0) = map d [start * SECTOR ..< (start + n) * SECTOR]"
  by (rule read_sectors_all) auto

lemma disk_range_flat: "disk_range d off len = map d [off ..< off + len]"
proof -
  define s where "s = off div SECTOR"
  define n where "n = (off + len + SECTOR - 1) div SECTOR - s"
  note sp = sector_span [OF s_def n_def]
  have "disk_range d off len = take len (drop (off - s * SECTOR) (map d [s * SECTOR ..< (s + n) * SECTOR]))"
    by (simp add: disk_range_def Let_def all_sectors s_def n_def)
  also have "\<dots> = map d [off ..< off + len]"
    using sp by (intro nth_equalityI) auto
  finally show ?thesis .
qed

lemma disk_write_flat:
  "disk_write off dat d = (\<lambda>a. if off \<le> a \<and> a < off + length dat then dat ! (a - off) else d a)"
proof (cases "dat = []")
  case False
  define s where "s = off div SECTOR"
  define n where "n = (off + length dat + SECTOR - 1) div SECTOR - s"
  note sp = sector_span [OF s_def n_def]
  define raw where "raw = map d [s * SECTOR ..< (s + n) * SECTOR]"
  have l: "length raw = n * SECTOR" by (simp add: raw_def algebra_simps)
  have fit: "off - s * SECTOR + length dat \<le> length raw" using sp l by (simp add: algebra_simps)
  have "disk_write off dat d = write_sectors s n 0 (splice (off - s * SECTOR) dat raw) d"
    using False by (simp add: disk_write_def Let_def all_sectors s_def n_def raw_def)
  also have "\<dots> = (\<lambda>a. if s * SECTOR \<le> a \<and> a < (s + n) * SECTOR
      then splice (off - s * SECTOR) dat raw ! (a - s * SECTOR) else d a)"
    using write_sectors_all [of "splice (off - s * SECTOR) dat raw" n 0 s d] fit l by simp
  also have "\<dots> = (\<lambda>a. if off \<le> a \<and> a < off + length dat then dat ! (a - off) else d a)"
    using sp fit by (auto simp: fun_eq_iff nth_splice raw_def algebra_simps)
  finally show ?thesis .
qed (simp add: disk_write_def override_none)

lemma length_disk_range [simp]: "length (disk_range d off len) = len"
  by (simp add: disk_range_flat)

lemma disk_read_same: "length dat = len \<Longrightarrow> disk_range (disk_write off dat d) off len = dat"
  by (intro nth_equalityI) (auto simp: disk_range_flat disk_write_flat)

lemma disk_read_other:
  "off + length dat \<le> a \<or> a + len \<le> off \<Longrightarrow> disk_range (disk_write off dat d) a len = disk_range d a len"
  by (intro nth_equalityI) (auto simp: disk_range_flat disk_write_flat)

text \<open>Reading and writing in whole sectors, at most 64 at a time, with a
  read-modify-write at the edges, is exactly flat access to the bytes of the range: a
  read returns them, a write replaces them and no other byte of the disk.\<close>
theorem disk_access_flat:
  "disk_range d off len = map d [off ..< off + len] \<and>
   disk_write off dat d = (\<lambda>a. if off \<le> a \<and> a < off + length dat then dat ! (a - off) else d a)"
  using disk_range_flat disk_write_flat by blast

section \<open>Fields and inodes\<close>

lemma length_b32 [simp]: "length (b32 v) = 4"
  by (simp add: b32_def)

lemma length_b16 [simp]: "length (b16 v) = 2"
  by (simp add: b16_def)

lemma le32_b32: "of_nat (le_val (b32 v)) = v"
proof -
  have "unat v < 4294967296" using unsigned_less [of v] by simp
  then have "unat v mod 256 ^ 4 = unat v" by simp
  then show ?thesis by (simp only: b32_def le_val_le_bytes) simp
qed

lemma le16_b16: "of_nat (le_val (b16 v)) = v"
proof -
  have "unat v < 65536" using unsigned_less [of v] by simp
  then have "unat v mod 256 ^ 2 = unat v" by simp
  then show ?thesis by (simp only: b16_def le_val_le_bytes) simp
qed

lemma wr_Some: "wr off ys xs = Some zs \<longleftrightarrow> off + length ys \<le> length xs \<and> zs = splice off ys xs"
  by (auto simp: wr_def)

lemma wr_facts:
  assumes "wr off ys xs = Some zs"
  shows "length zs = length xs"
    "\<And>a. a + 4 \<le> off \<or> off + length ys \<le> a \<Longrightarrow> le32_at zs a = le32_at xs a"
    "\<And>a. a + 2 \<le> off \<or> off + length ys \<le> a \<Longrightarrow> le16_at zs a = le16_at xs a"
    "\<And>v. ys = b32 v \<Longrightarrow> le32_at zs off = v"
    "\<And>v. ys = b16 v \<Longrightarrow> le16_at zs off = v"
proof -
  have w: "off + length ys \<le> length xs" "zs = splice off ys xs" using assms by (auto simp: wr_Some)
  show "length zs = length xs" using w by simp
  show "le32_at zs a = le32_at xs a" if "a + 4 \<le> off \<or> off + length ys \<le> a" for a
    using that w splice_read_before [of a 4 off ys xs] splice_read_after [of off ys a xs 4] by (auto simp: le32_at_def)
  show "le16_at zs a = le16_at xs a" if "a + 2 \<le> off \<or> off + length ys \<le> a" for a
    using that w splice_read_before [of a 2 off ys xs] splice_read_after [of off ys a xs 2] by (auto simp: le16_at_def)
  show "le32_at zs off = v" if "ys = b32 v" for v
    using w splice_read_same [of off ys xs] that by (simp add: le32_at_def le32_b32)
  show "le16_at zs off = v" if "ys = b16 v" for v
    using w splice_read_same [of off ys xs] that by (simp add: le16_at_def le16_b16)
qed

lemma wr_defined: "off + length ys \<le> length xs \<Longrightarrow> \<exists>zs. wr off ys xs = Some zs"
  by (simp add: wr_def)

lemma wr_ptrs:
  assumes "40 + 4 * n \<le> length raw"
  shows "\<exists>raw'. fold (\<lambda>i acc. acc \<bind> wr (40 + i * 4) (b32 (blk ! i))) [0..<n] (Some raw) = Some raw' \<and>
    length raw' = length raw \<and> (\<forall>i < n. le32_at raw' (40 + i * 4) = blk ! i) \<and>
    (\<forall>a. a + 4 \<le> 40 \<longrightarrow> le32_at raw' a = le32_at raw a) \<and> (\<forall>a. a + 2 \<le> 40 \<longrightarrow> le16_at raw' a = le16_at raw a)"
  using assms
proof (induction n)
  case (Suc n)
  then obtain r where r: "fold (\<lambda>i acc. acc \<bind> wr (40 + i * 4) (b32 (blk ! i))) [0..<n] (Some raw) = Some r"
    "length r = length raw" "\<forall>i < n. le32_at r (40 + i * 4) = blk ! i"
    "\<forall>a. a + 4 \<le> 40 \<longrightarrow> le32_at r a = le32_at raw a" "\<forall>a. a + 2 \<le> 40 \<longrightarrow> le16_at r a = le16_at raw a"
    by auto
  obtain z where z: "wr (40 + n * 4) (b32 (blk ! n)) r = Some z"
    using wr_defined [of "40 + n * 4" "b32 (blk ! n)" r] Suc.prems r(2) by auto
  note f = wr_facts [OF z]
  have "le32_at z (40 + i * 4) = blk ! i" if "i < Suc n" for i
    using that f(2) [of "40 + i * 4"] f(4) r(3) by (cases "i = n") auto
  moreover have "\<forall>a. a + 4 \<le> 40 \<longrightarrow> le32_at z a = le32_at raw a" "\<forall>a. a + 2 \<le> 40 \<longrightarrow> le16_at z a = le16_at raw a"
    using f(2,3) r(4,5) by auto
  ultimately show ?case using r(1,2) z f(1) by simp
qed simp

lemma decode_set_inode:
  assumes "100 \<le> length raw" "length blk = 15"
  shows "\<exists>raw'. set_inode mode uid gid sz links n512 blk raw = Some raw' \<and> length raw' = length raw \<and>
    decode_inode raw' = Some \<lparr>i_mode = mode, i_size = sz mod 2 ^ 32, i_block = blk,
      i_uid = ucast (ucast uid :: u16), i_gid = ucast (ucast gid :: u16)\<rparr> \<and> le16_at raw' 26 = links"
proof -
  obtain r0 where r0: "wr 0 (b16 mode) raw = Some r0" using wr_defined [of 0 "b16 mode" raw] assms by auto
  note f0 = wr_facts [OF r0]
  obtain r1 where r1: "wr 2 (b16 (ucast uid)) r0 = Some r1"
    using wr_defined [of 2 "b16 (ucast uid)" r0] assms f0(1) by auto
  note f1 = wr_facts [OF r1]
  obtain r2 where r2: "wr 4 (b32 (of_nat sz)) r1 = Some r2"
    using wr_defined [of 4 "b32 (of_nat sz)" r1] assms f0(1) f1(1) by auto
  note f2 = wr_facts [OF r2]
  obtain r3 where r3: "wr 24 (b16 (ucast gid)) r2 = Some r3"
    using wr_defined [of 24 "b16 (ucast gid)" r2] assms f0(1) f1(1) f2(1) by auto
  note f3 = wr_facts [OF r3]
  obtain r4 where r4: "wr 26 (b16 links) r3 = Some r4"
    using wr_defined [of 26 "b16 links" r3] assms f0(1) f1(1) f2(1) f3(1) by auto
  note f4 = wr_facts [OF r4]
  obtain r5 where r5: "wr 28 (b32 n512) r4 = Some r5"
    using wr_defined [of 28 "b32 n512" r4] assms f0(1) f1(1) f2(1) f3(1) f4(1) by auto
  note f5 = wr_facts [OF r5]
  note len = f5(1) f4(1) f3(1) f2(1) f1(1) f0(1)
  obtain r6 where r6: "fold (\<lambda>i acc. acc \<bind> wr (40 + i * 4) (b32 (blk ! i))) [0..<length blk] (Some r5) = Some r6"
    "length r6 = length r5" "\<forall>i < length blk. le32_at r6 (40 + i * 4) = blk ! i"
    "\<forall>a. a + 4 \<le> 40 \<longrightarrow> le32_at r6 a = le32_at r5 a" "\<forall>a. a + 2 \<le> 40 \<longrightarrow> le16_at r6 a = le16_at r5 a"
    using wr_ptrs [of "length blk" r5 blk] assms len by auto
  have set: "set_inode mode uid gid sz links n512 blk raw = Some r6"
    using r0 r1 r2 r3 r4 r5 r6(1) by (simp add: set_inode_def)
  have mode: "le16_at r6 0 = mode"
    using r6(5) f5(3) [of 0] f4(3) [of 0] f3(3) [of 0] f2(3) [of 0] f1(3) [of 0] f0(5) by simp
  have uid: "le16_at r6 2 = ucast uid"
    using r6(5) f5(3) [of 2] f4(3) [of 2] f3(3) [of 2] f2(3) [of 2] f1(5) by simp
  have size: "le32_at r6 4 = of_nat sz"
    using r6(4) f5(2) [of 4] f4(2) [of 4] f3(2) [of 4] f2(4) by simp
  have gid: "le16_at r6 24 = ucast gid" using r6(5) f5(3) [of 24] f4(3) [of 24] f3(5) by simp
  have links: "le16_at r6 26 = links" using r6(5) f5(3) [of 26] f4(5) by simp
  have "map (\<lambda>i. le32_at r6 (40 + i * 4)) [0..<15] = blk"
    using r6(3) assms(2) by (intro nth_equalityI) auto
  with set mode uid size gid links len r6(2) assms(1) show ?thesis
    by (auto simp: decode_inode_def unat_of_nat)
qed

text \<open>An inode that was patched with \<open>set_inode\<close> reads back with the fields that were set:
  mode and all fifteen block pointers as given, the size modulo $2^{32}$, and the owner and
  group cut to 16 bits.  The slot must not overlap the group descriptor that locates it.\<close>
theorem inode_write_read:
  assumes "patch_inode fs ino (set_inode mode uid gid sz links n512 blk) d = Some d'"
    and "length blk = 15" "100 \<le> unat (inode_size fs)"
    and "inode_off fs d ino = Some off"
    and "off + unat (inode_size fs) \<le> bgd_off fs ((ino - 1) div inodes_per_group fs) \<or>
      bgd_off fs ((ino - 1) div inodes_per_group fs) + 32 \<le> off"
  shows "read_inode fs d' ino = Some \<lparr>i_mode = mode, i_size = sz mod 2 ^ 32, i_block = blk,
    i_uid = ucast (ucast uid :: u16), i_gid = ucast (ucast gid :: u16)\<rparr>"
proof -
  define raw where "raw = disk_range d off (unat (inode_size fs))"
  obtain raw' where r: "set_inode mode uid gid sz links n512 blk raw = Some raw'" "length raw' = length raw"
    "decode_inode raw' = Some \<lparr>i_mode = mode, i_size = sz mod 2 ^ 32, i_block = blk,
      i_uid = ucast (ucast uid :: u16), i_gid = ucast (ucast gid :: u16)\<rparr>"
    using decode_set_inode [of raw blk mode uid gid sz links n512] assms(2,3) by (auto simp: raw_def)
  then have d': "d' = disk_write off raw' d" using assms(1,4) by (auto simp: patch_inode_def raw_def)
  have "inode_off fs d' ino = Some off"
    using assms(4,5) r(2) disk_read_other [of off raw' _ 32 d]
    by (auto simp: inode_off_def read_bgd_def d' raw_def Let_def split: if_splits)
  with r d' show ?thesis by (simp add: read_inode_def disk_read_same raw_def)
qed

theorem inode_write_read_witness:
  "\<exists>fs d d'. patch_inode fs 2 (set_inode 0x81A4 1000 70000 5 1 2 (replicate 15 7)) d = Some d' \<and>
     read_inode fs d' 2 = Some \<lparr>i_mode = 0x81A4, i_size = 5, i_block = replicate 15 7, i_uid = 1000, i_gid = 4464\<rparr>"
proof -
  define fs where "fs = \<lparr>block_size = 1024, inode_size = 128, inodes_per_group = 8, first_data_block = 1,
    blocks_per_group = 64, block_count = 64, filetype = True, sparse_super = False\<rparr>"
  define d :: disk where "d = (\<lambda>a. if a = 2056 then 5 else 0)"
  have t: "le32_at (read_bgd fs d 0) 8 = 5"
    by (simp add: read_bgd_def disk_range_flat bgd_off_def bs_def fs_def d_def le32_at_def take_map drop_map)
  have o: "inode_off fs d 2 = Some 5248"
    using t by (simp add: inode_off_def Let_def) (simp add: fs_def bs_def)
  obtain raw' where "set_inode 0x81A4 1000 70000 5 1 2 (replicate 15 7) (disk_range d 5248 128) = Some raw'"
    using decode_set_inode [of "disk_range d 5248 128" "replicate 15 7" "0x81A4" 1000 70000 5 1 2] by auto
  then obtain d' where p: "patch_inode fs 2 (set_inode 0x81A4 1000 70000 5 1 2 (replicate 15 7)) d = Some d'"
    using o by (simp add: patch_inode_def) (simp add: fs_def)
  from inode_write_read [OF p _ _ o] p show ?thesis
    by (intro exI conjI) (auto simp: fs_def bgd_off_def bs_def)
qed

section \<open>Coalesced reads\<close>

lemma disk_range_append: "disk_range d a (m + n) = disk_range d a m @ disk_range d (a + m) n"
  using upt_add_eq_append [of a "a + m" n] by (simp add: disk_range_flat add.assoc)

lemma run_len_le: "l \<noteq> [] \<Longrightarrow> run_len l \<le> length l"
  by (induction l rule: run_len.induct) auto

lemma unat_succ: "(b :: u32) \<noteq> - 1 \<Longrightarrow> unat (b + 1) = Suc (unat b)"
  using unatSuc [of b] by (metis add.commute add.right_inverse add_left_imp_eq)

lemma run_read:
  "l \<noteq> [] \<Longrightarrow> - 1 \<notin> set l \<Longrightarrow>
   disk_range d (unat (hd l) * bs fs) (run_len l * bs fs) = concat (map (block fs d) (take (run_len l) l)) \<and>
   (hd l \<noteq> 0 \<longrightarrow> (\<forall>b \<in> set (take (run_len l) l). b \<noteq> 0))"
proof (induction l rule: run_len.induct)
  case (1 b c r)
  show ?case
  proof (cases "c = b + 1")
    case True
    then have c: "unat c = Suc (unat b)" using 1(3) unat_succ [of b] by auto
    then have "c \<noteq> 0" by (metis Zero_not_Suc unsigned_0)
    have ih: "disk_range d (unat c * bs fs) (run_len (c # r) * bs fs) = concat (map (block fs d) (take (run_len (c # r)) (c # r)))"
      "\<forall>b \<in> set (take (run_len (c # r)) (c # r)). b \<noteq> 0"
      using 1(1) [OF True] 1(3) \<open>c \<noteq> 0\<close> by simp_all
    have n: "run_len (b # c # r) = Suc (run_len (c # r))" using True by simp
    have "disk_range d (unat b * bs fs) (run_len (b # c # r) * bs fs) =
      block fs d b @ disk_range d (unat c * bs fs) (run_len (c # r) * bs fs)"
      using disk_range_append [of d "unat b * bs fs" "bs fs" "run_len (c # r) * bs fs"]
      by (simp only: n c mult_Suc block_def add.commute)
    then show ?thesis unfolding n using ih by (simp del: run_len.simps)
  qed (simp add: block_def)
qed (auto simp: block_def)

definition block_or_hole :: "ext2 \<Rightarrow> disk \<Rightarrow> u32 \<Rightarrow> byte list" where
  "block_or_hole fs d b = (if b = 0 then replicate (bs fs) 0 else block fs d b)"

lemma concat_replicate: "concat (replicate n (replicate m x)) = replicate (n * m) x"
  by (induction n) (auto simp: replicate_add)

lemma takeWhile_zero: "takeWhile (\<lambda>x. x = (0::u32)) l = replicate (length (takeWhile (\<lambda>x. x = 0) l)) 0"
  by (induction l) auto

lemma read_runs_blocks: "- 1 \<notin> set l \<Longrightarrow> read_runs fs d l = concat (map (block_or_hole fs d) l)"
proof (induction fs d l rule: read_runs.induct)
  case (2 fs d b r)
  have split: "concat (map (block_or_hole fs d) l) =
    concat (map (block_or_hole fs d) (take n l)) @ concat (map (block_or_hole fs d) (drop n l))" for n l
    by (metis append_take_drop_id concat_append map_append)
  have rest: "- 1 \<notin> set (drop n (b # r))" for n using 2(3) by (meson in_set_dropD)
  show ?case
  proof (cases "b = 0")
    case True
    define n where "n = length (takeWhile (\<lambda>x. x = 0) (b # r))"
    have "take n (b # r) = replicate n 0"
      using takeWhile_zero [of "b # r"] takeWhile_eq_take [of "\<lambda>x. x = 0" "b # r"] by (simp add: n_def)
    then have "concat (map (block_or_hole fs d) (take n (b # r))) = replicate (n * bs fs) 0"
      by (simp add: block_or_hole_def concat_replicate)
    moreover have "read_runs fs d (b # r) = replicate (n * bs fs) 0 @ read_runs fs d (drop n (b # r))"
      unfolding n_def by (subst read_runs.simps) (simp only: True Let_def if_True simp_thms)
    ultimately show ?thesis using 2(1) [OF True n_def rest] split [of "b # r" n] by simp
  next
    case False
    define n where "n = run_len (b # r)"
    from run_read [of "b # r" d fs] False 2(3)
    have "disk_range d (unat b * bs fs) (n * bs fs) = concat (map (block_or_hole fs d) (take n (b # r)))"
      by (auto simp: n_def block_or_hole_def simp del: run_len.simps cong: map_cong)
    moreover have "read_runs fs d (b # r) = disk_range d (unat b * bs fs) (n * bs fs) @ read_runs fs d (drop n (b # r))"
      unfolding n_def by (subst read_runs.simps) (simp only: False Let_def if_False)
    ultimately show ?thesis using 2(2) [OF False n_def rest] split [of "b # r" n] by simp
  qed
qed (simp add: read_runs.simps)

text \<open>C19. Reading a file in runs of consecutive blocks gives the same bytes as reading it
  block by block with holes as zeros, cut to the file size, for every block map without the
  number $2^{32} - 1$ (after which the run test would wrap to block 0).\<close>
theorem read_file_blockwise:
  assumes "block_map fs d node = Some bl" "- 1 \<notin> set bl"
  shows "read_file fs d node = Some (take (i_size node) (concat (map (block_or_hole fs d) bl)))"
  using assms by (simp add: read_file_def read_runs_blocks)

theorem read_file_blockwise_witness:
  "\<exists>fs d node. block_map fs d node = Some [5, 6, 0] \<and>
     read_file fs d node = Some (take 2050 (block fs d 5 @ block fs d 6 @ replicate 1024 0))"
proof -
  define fs where "fs = \<lparr>block_size = 1024, inode_size = 128, inodes_per_group = 8, first_data_block = 1,
    blocks_per_group = 64, block_count = 64, filetype = True, sparse_super = False\<rparr>"
  define node where "node = \<lparr>i_mode = 0x81A4, i_size = 2050, i_block = 5 # 6 # replicate 13 (0 :: u32),
    i_uid = 0, i_gid = 0\<rparr>"
  have m: "block_map fs (\<lambda>_. 9) node = Some [5, 6, 0]"
    by (simp add: block_map_def fs_def node_def bs_def div_ceil_def Let_def)
  have "read_file fs (\<lambda>_. 9) node = Some (take 2050 (block fs (\<lambda>_. 9) 5 @ block fs (\<lambda>_. 9) 6 @ replicate 1024 0))"
    using read_file_blockwise [OF m] by (simp add: block_or_hole_def) (simp add: node_def fs_def bs_def)
  with m show ?thesis by blast
qed

section \<open>Bitmaps and backup groups\<close>

definition bit_taken :: "byte list \<Rightarrow> nat \<Rightarrow> bool" where
  "bit_taken bm i \<longleftrightarrow> bit (bm ! (i div 8)) (i mod 8)"

lemma mask_test: "(w AND bit_mask i = 0) \<longleftrightarrow> \<not> bit w (i mod 8)"
  by (simp add: bit_mask_def push_bit_eq_mult and_exp_eq_0_iff_not_bit)

lemma bit_mask_bit: "bit (bit_mask i) n \<longleftrightarrow> n = i mod 8"
  by (auto simp: bit_mask_def push_bit_eq_mult bit_exp_iff)

lemma set_mask_bit: "bit (w OR bit_mask i) n \<longleftrightarrow> n = i mod 8 \<or> bit w n"
  by (auto simp: bit_or_iff bit_mask_bit)

lemma same_bit: "i div 8 = j div 8 \<Longrightarrow> i mod 8 = j mod 8 \<Longrightarrow> i = (j::nat)"
  by (metis div_mult_mod_eq)

lemma taken_after:
  "i < 8 * length bm \<Longrightarrow> j < 8 * length bm \<Longrightarrow>
   bit_taken (bm[i div 8 := bm ! (i div 8) OR bit_mask i]) j \<longleftrightarrow> j = i \<or> bit_taken bm j"
  by (cases "i div 8 = j div 8") (auto simp: bit_taken_def set_mask_bit dest: same_bit)

lemma clear_after:
  assumes "i < 8 * length bm" "\<not> bit_taken bm i"
  shows "clear_bit i (bm[i div 8 := bm ! (i div 8) OR bit_mask i]) = bm"
proof -
  have "(w OR bit_mask i) AND NOT (bit_mask i) = w" if "\<not> bit w (i mod 8)" for w
    using that by (intro bit_word_eqI) (auto simp: bit_simps bit_mask_bit)
  with assms show ?thesis by (simp add: clear_bit_def bit_taken_def)
qed

lemma take_bit_loop_first:
  "\<forall>i \<in> set is. i < 8 * length bm \<Longrightarrow>
   take_bit_loop bm is = Some (map_option (\<lambda>i. (i, bm[i div 8 := bm ! (i div 8) OR bit_mask i]))
     (List.find (\<lambda>i. \<not> bit_taken bm i) is))"
  by (induction "is") (auto simp: mask_test bit_taken_def less_mult_imp_div_less mult.commute not_le)

text \<open>The bitmap allocator never indexes outside a bitmap that covers the group, and returns
  the first clear bit below the limit (or none, when all are taken): exactly that bit is set
  afterwards, and clearing it again gives back the old bitmap.\<close>
theorem take_bit_first_free:
  assumes "n \<le> 8 * length bm"
  shows "(take_bit_loop bm [0..<n] = Some None \<and> (\<forall>i < n. bit_taken bm i)) \<or>
    (\<exists>i bm'. take_bit_loop bm [0..<n] = Some (Some (i, bm')) \<and> i < n \<and> \<not> bit_taken bm i \<and>
       (\<forall>j < i. bit_taken bm j) \<and> (\<forall>j < 8 * length bm. bit_taken bm' j \<longleftrightarrow> j = i \<or> bit_taken bm j) \<and>
       clear_bit i bm' = bm)"
proof (cases "List.find (\<lambda>i. \<not> bit_taken bm i) [0..<n]")
  case None
  then show ?thesis using take_bit_loop_first [of "[0..<n]" bm] assms by (auto simp: find_None_iff)
next
  case (Some i)
  then have i: "i < n" "\<not> bit_taken bm i" "\<forall>j < i. bit_taken bm j" by (auto simp: find_Some_iff)
  with Some show ?thesis
    using take_bit_loop_first [of "[0..<n]" bm] assms taken_after [of i bm] clear_after [of i bm] by auto
qed

theorem take_bit_first_free_witness:
  "take_bit_loop [0xFF, 0x01] [0..<16] = Some (Some (9, [0xFF, 0x03])) \<and> clear_bit 9 [0xFF, 0x03] = [0xFF, 0x01]"
proof -
  have t: "take_bit_loop [0xFF, 0x01] [0..<16] = Some (Some (9, [0xFF, 0x03]))" by code_simp
  with take_bit_first_free [of 16 "[0xFF, 0x01]"] show ?thesis by auto
qed

lemma power_search_iff:
  "1 < base \<Longrightarrow> 0 < p \<Longrightarrow> g \<le> U32_MAX \<Longrightarrow> power_search base g p \<longleftrightarrow> (\<exists>k. g = p * base ^ k)"
proof (induction base g p rule: power_search.induct)
  case (1 base g p)
  show ?case
  proof (cases "p < g")
    case True
    have k: "(\<exists>k. g = p * base ^ k) \<longleftrightarrow> (\<exists>k. g = p * base * base ^ k)"
    proof
      assume "\<exists>k. g = p * base ^ k"
      then obtain k where "g = p * base ^ k" by blast
      with True show "\<exists>k. g = p * base * base ^ k" by (cases k) auto
    next
      assume "\<exists>k. g = p * base * base ^ k"
      then show "\<exists>k. g = p * base ^ k" by (metis mult.assoc power_Suc)
    qed
    show ?thesis
    proof (cases "U32_MAX < p * base")
      case True
      have "g \<noteq> p * base * base ^ k" for k
      proof
        assume "g = p * base * base ^ k"
        then have "p * base \<le> g" using 1(2) by simp
        with True 1(4) show False by simp
      qed
      with k True \<open>p < g\<close> 1 show ?thesis by (subst power_search.simps) simp
    next
      case False
      with 1 k True show ?thesis by (subst power_search.simps) auto
    qed
  next
    case False
    have "g = p" if "g = p * base ^ k" for k
    proof -
      have "p * 1 \<le> p * base ^ k" using 1(2) by (intro mult_le_mono2) simp
      with False that show ?thesis by linarith
    qed
    then have "(\<exists>k. g = p * base ^ k) \<longleftrightarrow> g = p" by (metis mult.right_neutral power_0)
    then show ?thesis using False by (subst power_search.simps) auto
  qed
qed

text \<open>With \<open>sparse_super\<close>, a group holds a backup of the superblock exactly when it is
  group 0 or 1 or a power of 3, 5 or 7; the search ends for every group, also when the next
  power would overflow.\<close>
theorem has_backup_powers:
  assumes "sparse_super fs"
  shows "has_backup fs g \<longleftrightarrow> g \<le> 1 \<or> (\<exists>k. unat g = 3 * 3 ^ k \<or> unat g = 5 * 5 ^ k \<or> unat g = 7 * 7 ^ k)"
proof -
  have "unat g < 4294967296" using unsigned_less [of g] by simp
  then have "unat g \<le> U32_MAX" by (simp add: U32_MAX_def)
  then show ?thesis using assms power_search_iff [of _ _ "unat g"] by (auto simp: has_backup_def)
qed

theorem has_backup_powers_witness:
  "\<exists>fs. sparse_super fs \<and> has_backup fs 27 \<and> \<not> has_backup fs 15"
proof -
  define fs where "fs = \<lparr>block_size = 1024, inode_size = 128, inodes_per_group = 8, first_data_block = 1,
    blocks_per_group = 64, block_count = 64, filetype = True, sparse_super = True\<rparr>"
  have s: "sparse_super fs" by (simp add: fs_def)
  have "has_backup fs 27" using has_backup_powers [OF s, of 27] by (auto intro!: exI [of _ 2])
  moreover have "\<not> has_backup fs 15" by (simp add: has_backup_def fs_def power_search.simps U32_MAX_def word_le_nat_alt)
  ultimately show ?thesis using s by blast
qed

end
