(* ===== verification/Ext2_Dir.thy ===== *)
theory Ext2_Dir
  imports Ext2_Props
begin

text \<open>
  Directory blocks as lists of entries: a well-formed block is a chain of records that
  tiles it, the lookup is the first match in the list of its live entries, inserting adds
  one entry, and removing drops the first match.
\<close>

section \<open>Well-formed blocks\<close>

definition rec_ino :: "byte list \<Rightarrow> nat \<Rightarrow> u32" where
  "rec_ino blk off = le32_at blk off"

definition rec_len :: "byte list \<Rightarrow> nat \<Rightarrow> nat" where
  "rec_len blk off = unat (le16_at blk (off + 4))"

definition rec_name :: "byte list \<Rightarrow> nat \<Rightarrow> byte list" where
  "rec_name blk off = take (unat (blk ! (off + 6))) (drop (off + 8) blk)"

definition rec_ok :: "byte list \<Rightarrow> nat \<Rightarrow> bool" where
  "rec_ok blk off \<longleftrightarrow> 8 \<le> rec_len blk off \<and> rec_len blk off mod 4 = 0 \<and> off + rec_len blk off \<le> length blk \<and>
     (rec_ino blk off \<noteq> 0 \<longrightarrow> round4 (8 + unat (blk ! (off + 6))) \<le> rec_len blk off)"

function dir_ok :: "byte list \<Rightarrow> nat \<Rightarrow> bool" where
  "dir_ok blk off =
     (if off = length blk then True
      else if rec_ok blk off then dir_ok blk (off + rec_len blk off) else False)"
  by pat_completeness auto
termination
  by (relation "measure (\<lambda>(blk, off). length blk - off)") (auto simp: rec_ok_def)

declare dir_ok.simps [simp del]

definition live :: "byte list \<Rightarrow> nat \<Rightarrow> (byte list \<times> u32) list" where
  "live blk off = (if rec_ino blk off \<noteq> 0 then [(rec_name blk off, rec_ino blk off)] else [])"

function entries :: "byte list \<Rightarrow> nat \<Rightarrow> (byte list \<times> u32) list" where
  "entries blk off =
     (if off < length blk \<and> rec_ok blk off then live blk off @ entries blk (off + rec_len blk off) else [])"
  by pat_completeness auto
termination
  by (relation "measure (\<lambda>(blk, off). length blk - off)") (auto simp: rec_ok_def)

declare entries.simps [simp del]

lemma dir_ok_step:
  "dir_ok blk off \<Longrightarrow> off \<noteq> length blk \<Longrightarrow> rec_ok blk off \<and> dir_ok blk (off + rec_len blk off)"
  by (subst (asm) dir_ok.simps) (auto split: if_splits)

lemma dir_ok_le: "dir_ok blk off \<Longrightarrow> off \<le> length blk"
  by (subst (asm) dir_ok.simps) (auto simp: rec_ok_def split: if_splits)

lemma entries_step:
  "dir_ok blk off \<Longrightarrow> off \<noteq> length blk \<Longrightarrow> entries blk off = live blk off @ entries blk (off + rec_len blk off)"
  using dir_ok_step [of blk off] dir_ok_le [of blk off] by (subst entries.simps) auto

lemma entries_end [simp]: "entries blk (length blk) = []"
  by (subst entries.simps) simp

lemma dir_okI: "rec_ok blk off \<Longrightarrow> dir_ok blk (off + rec_len blk off) \<Longrightarrow> dir_ok blk off"
  by (subst dir_ok.simps) simp

lemma rec_ok_bounds:
  assumes "rec_ok blk off"
  shows "off + 8 \<le> length blk" "0 < rec_len blk off" "off < length blk"
    "rec_ino blk off \<noteq> 0 \<Longrightarrow> off + 8 + unat (blk ! (off + 6)) \<le> length blk"
  using assms unfolding rec_ok_def round4_def by linarith+

text \<open>Two blocks that agree on a range have the same records there.\<close>

definition agree :: "nat \<Rightarrow> nat \<Rightarrow> byte list \<Rightarrow> byte list \<Rightarrow> bool" where
  "agree a b xs ys \<longleftrightarrow> length xs = length ys \<and> (\<forall>i. a \<le> i \<and> i < b \<longrightarrow> xs ! i = ys ! i)"

lemma agree_take:
  "agree a b xs ys \<Longrightarrow> a \<le> off \<Longrightarrow> off + n \<le> b \<Longrightarrow> off + n \<le> length xs \<Longrightarrow> take n (drop off xs) = take n (drop off ys)"
  by (intro nth_equalityI) (auto simp: agree_def)

lemma agree_rec:
  assumes "agree a b xs ys" "a \<le> off" "off + rec_len xs off \<le> b" "rec_ok xs off"
  shows "rec_ino ys off = rec_ino xs off \<and> rec_len ys off = rec_len xs off \<and> rec_ok ys off \<and> live ys off = live xs off"
proof -
  note r = rec_ok_bounds [OF assms(4)] assms(4) [unfolded rec_ok_def]
  have l: "length ys = length xs" using assms(1) by (simp add: agree_def)
  have e8: "off + 8 \<le> b" using r assms(3) by linarith
  have ino: "rec_ino ys off = rec_ino xs off"
    using agree_take [OF assms(1,2), of 4] r e8 by (simp add: rec_ino_def le32_at_def)
  have len: "rec_len ys off = rec_len xs off"
    using agree_take [OF assms(1), of "off + 4" 2] assms(2) r e8 by (simp add: rec_len_def le16_at_def)
  have nl: "ys ! (off + 6) = xs ! (off + 6)" using assms(1,2) e8 by (simp add: agree_def)
  have "rec_name ys off = rec_name xs off" if "rec_ino xs off \<noteq> 0"
  proof -
    have "off + 8 + unat (xs ! (off + 6)) \<le> b" using r assms(3) that unfolding round4_def by linarith
    then show ?thesis
      using agree_take [OF assms(1), of "off + 8" "unat (xs ! (off + 6))"] assms(2) r(4) [OF that] nl
      by (simp add: rec_name_def)
  qed
  with ino len nl l assms(4) show ?thesis by (auto simp: live_def rec_ok_def)
qed

lemma agree_entries:
  "dir_ok xs off \<Longrightarrow> agree off (length xs) xs ys \<Longrightarrow> dir_ok ys off \<and> entries ys off = entries xs off"
proof (induction xs off rule: dir_ok.induct)
  case (1 xs off)
  have l: "length ys = length xs" using 1(3) by (simp add: agree_def)
  show ?case
  proof (cases "off = length xs")
    case False
    with 1(2) have ok: "rec_ok xs off" "dir_ok xs (off + rec_len xs off)" by (auto dest: dir_ok_step)
    then have a: "rec_len ys off = rec_len xs off" "rec_ok ys off" "live ys off = live xs off"
      using agree_rec [OF 1(3), of off] by (auto simp: rec_ok_def)
    have "agree (off + rec_len xs off) (length xs) xs ys" using 1(3) by (simp add: agree_def)
    with 1(1) [OF False ok(1) ok(2)] have
      ih: "dir_ok ys (off + rec_len xs off)" "entries ys (off + rec_len xs off) = entries xs (off + rec_len xs off)" by auto
    with a have "dir_ok ys off" by (auto intro: dir_okI)
    with ih a False l 1(2) show ?thesis by (simp add: entries_step)
  next
    case True
    then show ?thesis using l by (metis dir_ok.simps entries_end)
  qed
qed

lemma dir_find_entries: "dir_ok dat off \<Longrightarrow> dir_find dat name off = map_of (entries dat off) (as_bytes name)"
proof (induction dat off rule: dir_ok.induct)
  case (1 dat off)
  show ?case
  proof (cases "off = length dat")
    case False
    with 1(2) have ok: "rec_ok dat off" "dir_ok dat (off + rec_len dat off)" by (auto dest: dir_ok_step)
    note r = rec_ok_bounds [OF ok(1)]
    show ?thesis
      unfolding entries_step [OF 1(2) False] using 1(1) [OF False ok(1) ok(2)] r
      by (subst dir_find.simps) (auto simp: Let_def live_def rec_ino_def rec_name_def rec_len_def)
  qed (simp add: dir_find.simps)
qed

section \<open>Inserting\<close>

lemma splice_splice:
  "off + length xs + length ys \<le> length zs \<Longrightarrow>
   splice (off + length xs) ys (splice off xs zs) = splice off (xs @ ys) zs"
  by (simp add: splice_def ac_simps)

definition enc_rec :: "u32 \<Rightarrow> nat \<Rightarrow> string \<Rightarrow> byte \<Rightarrow> byte list" where
  "enc_rec child nrec name ft = b32 child @ b16 (of_nat nrec) @ [of_nat (length name), ft] @ as_bytes name"

lemma length_enc_rec [simp]: "length (enc_rec child nrec name ft) = 8 + length name"
  by (simp add: enc_rec_def)

lemma put_record_splice:
  assumes "no + 8 + length name \<le> length blk"
  shows "put_record no child nrec name ft blk = Some (splice no (enc_rec child nrec name ft) blk)"
proof -
  have "wr (no + 4) (b16 (of_nat nrec)) (splice no (b32 child) blk) = Some (splice no (b32 child @ b16 (of_nat nrec)) blk)"
    using assms splice_splice [of no "b32 child" "b16 (of_nat nrec)" blk] by (simp add: wr_def)
  moreover have "wr (no + 6) [of_nat (length name)] (splice no (b32 child @ b16 (of_nat nrec)) blk) =
    Some (splice no (b32 child @ b16 (of_nat nrec) @ [of_nat (length name)]) blk)"
    using assms splice_splice [of no "b32 child @ b16 (of_nat nrec)" "[of_nat (length name)]" blk] by (simp add: wr_def)
  moreover have "wr (no + 7) [ft] (splice no (b32 child @ b16 (of_nat nrec) @ [of_nat (length name)]) blk) =
    Some (splice no (b32 child @ b16 (of_nat nrec) @ [of_nat (length name), ft]) blk)"
    using assms splice_splice [of no "b32 child @ b16 (of_nat nrec) @ [of_nat (length name)]" "[ft]" blk] by (simp add: wr_def)
  moreover have "wr (no + 8) (as_bytes name) (splice no (b32 child @ b16 (of_nat nrec) @ [of_nat (length name), ft]) blk) =
    Some (splice no (enc_rec child nrec name ft) blk)"
    using assms splice_splice [of no "b32 child @ b16 (of_nat nrec) @ [of_nat (length name), ft]" "as_bytes name" blk]
    by (simp add: wr_def enc_rec_def)
  ultimately show ?thesis using assms by (simp add: put_record_def wr_def [of no])
qed

lemma splice_part:
  "off + length ys \<le> length xs \<Longrightarrow> j + k \<le> length ys \<Longrightarrow>
   take k (drop (off + j) (splice off ys xs)) = take k (drop j ys)"
  by (intro nth_equalityI) (auto simp: nth_splice)

lemma new_record:
  assumes "no + 8 + length name \<le> length blk" "length name \<le> 255" "nrec < 2 ^ 16"
    and b: "blk' = splice no (enc_rec child nrec name ft) blk"
  shows "rec_ino blk' no = child" "rec_len blk' no = nrec" "blk' ! (no + 6) = of_nat (length name)"
    "rec_name blk' no = as_bytes name"
proof -
  note p = splice_part [of no "enc_rec child nrec name ft" blk, folded b]
  have len: "length blk' = length blk" using assms(1) b by simp
  show "rec_ino blk' no = child"
    using p [of 0 4] assms(1) by (simp add: rec_ino_def le32_at_def enc_rec_def le32_b32)
  have "unat (of_nat nrec :: u16) = nrec" using assms(3) by (simp add: unat_of_nat)
  then show "rec_len blk' no = nrec"
    using p [of 4 2] assms(1) by (simp add: rec_len_def le16_at_def enc_rec_def le16_b16)
  show nl: "blk' ! (no + 6) = of_nat (length name)"
    using nth_splice [of no "enc_rec child nrec name ft" blk "no + 6"] assms(1)
    by (simp add: b enc_rec_def nth_append b32_def b16_def)
  have "unat (of_nat (length name) :: byte) = length name" using assms(2) by simp
  then show "rec_name blk' no = as_bytes name"
    using p [of 8 "length name"] assms(1) nl by (simp add: rec_name_def enc_rec_def)
qed

lemma agree_splice:
  "off + length ys \<le> length xs \<Longrightarrow> b \<le> off \<or> off + length ys \<le> a \<Longrightarrow> b \<le> length xs \<Longrightarrow> agree a b xs (splice off ys xs)"
  by (auto simp: agree_def nth_splice)

lemma agree_trans: "agree a b xs ys \<Longrightarrow> agree a b ys zs \<Longrightarrow> agree a b xs zs"
  by (simp add: agree_def)

lemma agree_sub: "agree a b xs ys \<Longrightarrow> a \<le> a' \<Longrightarrow> b' \<le> b \<Longrightarrow> agree a' b' xs ys"
  by (auto simp: agree_def)

lemma round4_facts: "round4 n mod 4 = 0" "n \<le> round4 n"
  unfolding round4_def by simp linarith

lemma rec_len_less: "rec_len blk off < 2 ^ 16"
  unfolding rec_len_def using unsigned_less [of "le16_at blk (off + 4)"] by simp

text \<open>A free record is taken over whole.\<close>

lemma insert_free:
  assumes "dir_ok blk off" "off \<noteq> length blk" "rec_ino blk off = 0" "child \<noteq> 0" "length name \<le> 255"
    and need: "round4 (8 + length name) \<le> rec_len blk off"
    and b: "blk' = splice off (enc_rec child (rec_len blk off) name ft) blk"
  shows "agree 0 off blk blk' \<and> dir_ok blk' off \<and>
    entries blk' off = (as_bytes name, child) # entries blk (off + rec_len blk off)"
proof -
  have ok: "rec_ok blk off" "dir_ok blk (off + rec_len blk off)" using dir_ok_step assms(1,2) by blast+
  note r = rec_ok_bounds [OF ok(1)] ok(1) [unfolded rec_ok_def]
  have fit: "off + 8 + length name \<le> length blk" using need round4_facts(2) [of "8 + length name"] r by linarith
  note new = new_record [OF fit assms(5) rec_len_less b]
  have len: "length blk' = length blk" using b fit by simp
  have "unat (of_nat (length name) :: byte) = length name" using assms(5) by simp
  then have ok': "rec_ok blk' off" using new r need len by (simp add: rec_ok_def)
  have "agree (off + rec_len blk off) (length blk) blk blk'"
    unfolding b using fit need round4_facts(2) [of "8 + length name"] r by (intro agree_splice) auto
  with agree_entries [OF ok(2)] have rest: "dir_ok blk' (off + rec_len blk off)"
    "entries blk' (off + rec_len blk off) = entries blk (off + rec_len blk off)" by auto
  have "dir_ok blk' off" using ok' rest new by (auto intro: dir_okI)
  moreover have "entries blk' off = (as_bytes name, child) # entries blk (off + rec_len blk off)"
    using calculation assms(2,4) len new rest by (simp add: entries_step live_def)
  moreover have "agree 0 off blk blk'" unfolding b using fit by (intro agree_splice) auto
  ultimately show ?thesis by blast
qed

text \<open>Writing a new length into a record keeps its entry as long as the name still fits.\<close>

lemma resized_record:
  assumes "rec_ok blk off" "length blk' = length blk" "len < 2 ^ 16"
    and keep: "\<And>o' n. o' + n \<le> off + 4 \<or> off + 6 \<le> o' \<Longrightarrow> off \<le> o' \<Longrightarrow> o' + n \<le> off + len \<Longrightarrow>
      take n (drop o' blk') = take n (drop o' blk)"
    and f: "take 2 (drop (off + 4) blk') = b16 (of_nat len)"
    and fits: "8 \<le> len" "len mod 4 = 0" "off + len \<le> length blk"
      "rec_ino blk off \<noteq> 0 \<Longrightarrow> round4 (8 + unat (blk ! (off + 6))) \<le> len"
  shows "rec_ok blk' off" "rec_len blk' off = len" "live blk' off = live blk off"
proof -
  note r = rec_ok_bounds [OF assms(1)]
  have ino: "rec_ino blk' off = rec_ino blk off" using keep [of off 4] fits by (simp add: rec_ino_def le32_at_def)
  have "unat (of_nat len :: u16) = len" using assms(3) by (simp add: unat_of_nat)
  with f show rl: "rec_len blk' off = len" by (simp add: rec_len_def le16_at_def le16_b16)
  have "take 1 (drop (off + 6) blk') = take 1 (drop (off + 6) blk)" using keep [of "off + 6" 1] fits by simp
  then have nl: "blk' ! (off + 6) = blk ! (off + 6)"
    using r(1) assms(2) by (simp add: take_Suc_conv_app_nth hd_drop_conv_nth take_Suc)
  have "rec_name blk' off = rec_name blk off" if "rec_ino blk off \<noteq> 0"
    using keep [of "off + 8" "unat (blk ! (off + 6))"] fits(4) [OF that]
      round4_facts(2) [of "8 + unat (blk ! (off + 6))"] nl by (simp add: rec_name_def)
  with ino show "live blk' off = live blk off" by (simp add: live_def)
  show "rec_ok blk' off" using ino rl nl fits assms(2) by (simp add: rec_ok_def)
qed

text \<open>A live record with slack is cut to its used part, and the new record takes the rest.\<close>

lemma insert_slack:
  assumes "dir_ok blk off" "off \<noteq> length blk" "rec_ino blk off \<noteq> 0" "child \<noteq> 0" "length name \<le> 255"
    and used: "used = round4 (8 + unat (blk ! (off + 6)))"
    and need: "round4 (8 + length name) \<le> rec_len blk off - used"
    and b1: "blk1 = splice (off + 4) (b16 (of_nat used)) blk"
    and b: "blk' = splice (off + used) (enc_rec child (rec_len blk off - used) name ft) blk1"
  shows "agree 0 off blk blk' \<and> dir_ok blk' off \<and>
    entries blk' off = live blk off @ (as_bytes name, child) # entries blk (off + rec_len blk off)"
proof -
  have ok: "rec_ok blk off" "dir_ok blk (off + rec_len blk off)" using dir_ok_step assms(1,2) by blast+
  note r = rec_ok_bounds [OF ok(1)] ok(1) [unfolded rec_ok_def]
  have u: "used \<le> rec_len blk off" "used mod 4 = 0" "8 + unat (blk ! (off + 6)) \<le> used"
    using r(5) assms(3) round4_facts used by auto
  have l1: "length blk1 = length blk" using r(1) by (simp add: b1)
  have n8: "8 + length name \<le> rec_len blk off - used" using need round4_facts(2) [of "8 + length name"] by linarith
  have fit: "off + used + 8 + length name \<le> length blk1" using n8 r l1 by linarith
  have nrec: "rec_len blk off - used < 2 ^ 16" using rec_len_less [of blk off] by linarith
  note new = new_record [OF fit assms(5) nrec b]
  have len: "length blk' = length blk" using b fit l1 by simp
  have a1: "agree (off + used) (length blk) blk blk1" unfolding b1 using r(1) u by (intro agree_splice) auto
  have a2: "agree 0 (off + used) blk1 blk'" unfolding b using fit by (intro agree_splice) auto
  \<comment> \<open>the shortened record\<close>
  have u16: "used < 2 ^ 16" using u(1) rec_len_less [of blk off] by linarith
  have keep: "take n (drop o' blk') = take n (drop o' blk)"
    if o: "o' + n \<le> off + 4 \<or> off + 6 \<le> o'" "o' + n \<le> off + used" for o' n
  proof -
    have "take n (drop o' blk') = take n (drop o' blk1)" using agree_take [OF a2, of o' n] o fit by simp
    also have "\<dots> = take n (drop o' blk)"
      using o r(1) splice_read_before [of o' n "off + 4" "b16 (of_nat used)" blk]
        splice_read_after [of "off + 4" "b16 (of_nat used)" o' blk n] by (auto simp: b1)
    finally show ?thesis .
  qed
  have "take 2 (drop (off + 4) blk') = take 2 (drop (off + 4) blk1)"
    using agree_take [OF a2, of "off + 4" 2] u fit by simp
  also have "\<dots> = b16 (of_nat used)"
    using splice_read_same [of "off + 4" "b16 (of_nat used)" blk] r(1) by (simp add: b1)
  finally have f: "take 2 (drop (off + 4) blk') = b16 (of_nat used)" .
  have "off + used \<le> length blk" "8 \<le> used" using fit l1 u by linarith+
  note ok0 = resized_record [OF ok(1) len u16 keep f this(2) u(2) this(1) eq_refl [OF used [symmetric]]]
  \<comment> \<open>the new record\<close>
  have "unat (of_nat (length name) :: byte) = length name" using assms(5) by simp
  moreover have "(rec_len blk off - used) mod 4 = 0" using u r by (metis dvd_diff_nat mod_0_imp_dvd mod_eq_0_iff_dvd)
  ultimately have ok1: "rec_ok blk' (off + used)"
    using new need n8 u r len by (simp add: rec_ok_def)
  \<comment> \<open>the rest\<close>
  have "agree (off + rec_len blk off) (length blk) blk1 blk'"
    unfolding b using fit n8 l1 r by (intro agree_splice) auto
  then have "agree (off + rec_len blk off) (length blk) blk blk'"
    using a1 u by (blast intro: agree_trans agree_sub le_add1 add_left_mono order_refl)
  with agree_entries [OF ok(2)] have rest: "dir_ok blk' (off + rec_len blk off)"
    "entries blk' (off + rec_len blk off) = entries blk (off + rec_len blk off)" by auto
  have nxt: "off + used + rec_len blk' (off + used) = off + rec_len blk off" using new(2) u by simp
  have d1: "dir_ok blk' (off + used)" using ok1 rest(1) nxt by (metis dir_okI)
  have d0: "dir_ok blk' off" using ok0(1,2) d1 by (metis dir_okI)
  have "off + used \<noteq> length blk'" using fit l1 len by linarith
  then have "entries blk' (off + used) = (as_bytes name, child) # entries blk (off + rec_len blk off)"
    using entries_step [OF d1] nxt rest(2) new assms(4) by (simp add: live_def)
  then have "entries blk' off = live blk off @ (as_bytes name, child) # entries blk (off + rec_len blk off)"
    using entries_step [OF d0] len assms(2) ok0 by simp
  moreover have "agree 0 off blk blk1" unfolding b1 using r(1) by (intro agree_splice) auto
  then have "agree 0 off blk blk'" using a2 by (blast intro: agree_trans agree_sub le_add1 order_refl)
  ultimately show ?thesis using d0 by blast
qed

lemma insert_in_entries:
  assumes "length name \<le> 255" "child \<noteq> 0"
  shows "dir_ok blk off \<Longrightarrow> insert_in name child ft blk off = Some None \<or>
    (\<exists>blk' a b. insert_in name child ft blk off = Some (Some blk') \<and> agree 0 off blk blk' \<and> dir_ok blk' off \<and>
       entries blk off = a @ b \<and> entries blk' off = a @ (as_bytes name, child) # b)"
proof (induction blk off rule: dir_ok.induct)
  case (1 blk off)
  show ?case
  proof (cases "off = length blk")
    case False
    with 1(2) have ok: "rec_ok blk off" "dir_ok blk (off + rec_len blk off)" by (auto dest: dir_ok_step)
    note r = rec_ok_bounds [OF ok(1)] ok(1) [unfolded rec_ok_def]
    define used where "used = (if rec_ino blk off = 0 then 0 else round4 (8 + unat (blk ! (off + 6))))"
    have u: "used \<le> rec_len blk off" using r by (simp add: used_def)
    have step: "insert_in name child ft blk off =
      (if round4 (8 + length name) \<le> rec_len blk off - used
       then do { blk1 \<leftarrow> (if used \<noteq> 0 then wr (off + 4) (b16 (of_nat used)) blk else Some blk);
                 blk2 \<leftarrow> put_record (off + used) child (rec_len blk off - used) name ft blk1;
                 Some (Some blk2) }
       else insert_in name child ft blk (off + rec_len blk off))"
      using r u by (subst insert_in.simps) (simp add: Let_def avail_def used_def rec_ino_def rec_len_def)
    show ?thesis
    proof (cases "round4 (8 + length name) \<le> rec_len blk off - used")
      case need: True
      have fit: "off + used + 8 + length name \<le> length blk"
        using need round4_facts(2) [of "8 + length name"] r u by linarith
      show ?thesis
      proof (cases "rec_ino blk off = 0")
        case True
        with fit step need insert_free [OF 1(2) False True assms(2,1) _ refl, of ft] entries_step [OF 1(2) False]
        show ?thesis
          by (intro disjI2, rule_tac exI, rule_tac exI [of _ "[]"], rule_tac exI [of _ "entries blk (off + rec_len blk off)"])
            (auto simp: used_def put_record_splice live_def)
      next
        case live: False
        have u8: "used \<noteq> 0" "used = round4 (8 + unat (blk ! (off + 6)))"
          using live round4_facts(2) [of "8 + unat (blk ! (off + 6))"] by (auto simp: used_def)
        with fit step need r(1) insert_slack [OF 1(2) False live assms(2,1) u8(2) need refl refl, of ft]
          entries_step [OF 1(2) False]
        show ?thesis by (auto simp: put_record_splice wr_def)
      qed
    next
      case no: False
      from 1(1) [OF False ok] show ?thesis
      proof
        assume "insert_in name child ft blk (off + rec_len blk off) = Some None"
        then show ?thesis using step no by simp
      next
        assume "\<exists>blk' a b. insert_in name child ft blk (off + rec_len blk off) = Some (Some blk') \<and>
          agree 0 (off + rec_len blk off) blk blk' \<and> dir_ok blk' (off + rec_len blk off) \<and>
          entries blk (off + rec_len blk off) = a @ b \<and>
          entries blk' (off + rec_len blk off) = a @ (as_bytes name, child) # b"
        then obtain blk' a b where i: "insert_in name child ft blk (off + rec_len blk off) = Some (Some blk')"
          "agree 0 (off + rec_len blk off) blk blk'" "dir_ok blk' (off + rec_len blk off)"
          "entries blk (off + rec_len blk off) = a @ b"
          "entries blk' (off + rec_len blk off) = a @ (as_bytes name, child) # b" by blast
        have same: "rec_len blk' off = rec_len blk off" "rec_ok blk' off" "live blk' off = live blk off"
          using agree_rec [OF i(2) _ _ ok(1)] by auto
        then have d: "dir_ok blk' off" using i(3) by (metis dir_okI)
        have "length blk' = length blk" using i(2) by (simp add: agree_def)
        then have "entries blk' off = (live blk off @ a) @ (as_bytes name, child) # b"
          using entries_step [OF d] same i(5) False by simp
        moreover have "entries blk off = (live blk off @ a) @ b" using entries_step [OF 1(2) False] i(4) by simp
        moreover have "agree 0 off blk blk'" using i(2) by (rule agree_sub) auto
        ultimately show ?thesis using step no i(1) d by (metis (no_types, lifting))
      qed
    qed
  qed (simp add: insert_in.simps)
qed

section \<open>Removing\<close>

fun del_first :: "'k \<Rightarrow> ('k \<times> 'v) list \<Rightarrow> ('k \<times> 'v) list" where
  "del_first k [] = []"
| "del_first k (e # es) = (if fst e = k then es else e # del_first k es)"

lemma del_first_none: "map_of es k = None \<Longrightarrow> del_first k es = es"
  by (induction es) (auto split: if_splits)

lemma del_first_append: "k \<notin> fst ` set xs \<Longrightarrow> del_first k (xs @ ys) = xs @ del_first k ys"
  by (induction xs) auto

text \<open>The record does not hold the name; the scan goes on past it.\<close>

definition misses :: "byte list \<Rightarrow> nat \<Rightarrow> string \<Rightarrow> bool" where
  "misses blk off name \<longleftrightarrow> as_bytes name \<notin> fst ` set (live blk off)"

text \<open>The scan has come to \<open>off\<close> with \<open>prev\<close> the record before it.\<close>

definition scan_pos :: "string \<Rightarrow> byte list \<Rightarrow> nat option \<Rightarrow> nat \<Rightarrow> bool" where
  "scan_pos name blk prev off \<longleftrightarrow>
     (case prev of None \<Rightarrow> True
      | Some p \<Rightarrow> rec_ok blk p \<and> p + rec_len blk p = off \<and> misses blk p name)"

definition scan_start :: "nat option \<Rightarrow> nat \<Rightarrow> nat" where
  "scan_start prev off = (case prev of None \<Rightarrow> off | Some p \<Rightarrow> p)"

lemma merge_record:
  assumes "rec_ok blk p" "off = p + rec_len blk p" "rec_ok blk off" "dir_ok blk (off + rec_len blk off)"
    "length blk < 2 ^ 16"
    and b: "blk' = splice (p + 4) (b16 (of_nat (rec_len blk p + rec_len blk off))) blk"
  shows "agree 0 p blk blk' \<and> dir_ok blk' p \<and> entries blk' p = live blk p @ entries blk (off + rec_len blk off)"
proof -
  define m where "m = rec_len blk p + rec_len blk off"
  note r = rec_ok_bounds [OF assms(1)] assms(1) [unfolded rec_ok_def]
  note q = assms(3) [unfolded rec_ok_def]
  have stop: "off + rec_len blk off = p + m" using assms(2) by (simp add: m_def)
  have fit: "p + 4 + 2 \<le> length blk" using r by linarith
  have len: "length blk' = length blk" using b fit by simp
  have m: "m < 2 ^ 16" "8 \<le> m" "m mod 4 = 0" "p + m \<le> length blk"
  proof -
    show "8 \<le> m" "p + m \<le> length blk" using r q stop by (auto simp: m_def)
    then show "m < 2 ^ 16" using assms(5) by linarith
    have "rec_len blk p mod 4 = 0" "rec_len blk off mod 4 = 0" using r(5) q by blast+
    then show "m mod 4 = 0" unfolding m_def by presburger
  qed
  have keep: "take n (drop o' blk') = take n (drop o' blk)" if "o' + n \<le> p + 4 \<or> p + 6 \<le> o'" for o' n
    using that fit splice_read_before [of o' n "p + 4" "b16 (of_nat m)" blk]
      splice_read_after [of "p + 4" "b16 (of_nat m)" o' blk n] by (auto simp: b m_def)
  have f: "take 2 (drop (p + 4) blk') = b16 (of_nat m)"
    using splice_read_same [of "p + 4" "b16 (of_nat m)" blk] fit by (simp add: b m_def)
  have fits: "rec_ino blk p \<noteq> 0 \<Longrightarrow> round4 (8 + unat (blk ! (p + 6))) \<le> m" using r by (auto simp: m_def)
  note k = resized_record [OF assms(1) len m(1) keep f m(2,3,4) fits]
  have "agree (p + m) (length blk) blk blk'" unfolding b using fit m by (intro agree_splice) auto
  with agree_entries [OF assms(4)] stop have rest: "dir_ok blk' (p + m)" "entries blk' (p + m) = entries blk (p + m)" by auto
  have d: "dir_ok blk' p" using k(1,2) rest(1) by (metis dir_okI)
  have "p \<noteq> length blk'" using fit len by linarith
  then have "entries blk' p = live blk p @ entries blk (p + m)" using entries_step [OF d] k rest(2) by simp
  moreover have "agree 0 p blk blk'" unfolding b using fit by (intro agree_splice) auto
  ultimately show ?thesis using d stop by simp
qed

lemma tombstone_record:
  assumes "rec_ok blk off" "dir_ok blk (off + rec_len blk off)" and b: "blk' = splice off (b32 0) blk"
  shows "agree 0 off blk blk' \<and> dir_ok blk' off \<and> entries blk' off = entries blk (off + rec_len blk off)"
proof -
  note r = rec_ok_bounds [OF assms(1)] assms(1) [unfolded rec_ok_def]
  have len: "length blk' = length blk" using b r(1) by simp
  have ino: "rec_ino blk' off = 0"
    using splice_read_same [of off "b32 0" blk] r(1) by (simp add: rec_ino_def le32_at_def b le32_b32)
  have rl: "rec_len blk' off = rec_len blk off"
    using splice_read_after [of off "b32 0" "off + 4" blk 2] r(1) by (simp add: rec_len_def le16_at_def b)
  have ok: "rec_ok blk' off" using ino rl r len by (simp add: rec_ok_def)
  have "agree (off + rec_len blk off) (length blk) blk blk'" unfolding b using r by (intro agree_splice) auto
  with agree_entries [OF assms(2)] have rest: "dir_ok blk' (off + rec_len blk off)"
    "entries blk' (off + rec_len blk off) = entries blk (off + rec_len blk off)" by auto
  have d: "dir_ok blk' off" using ok rl rest(1) by (metis dir_okI)
  have "off \<noteq> length blk'" using r(1) len by linarith
  then have "entries blk' off = entries blk (off + rec_len blk off)"
    using entries_step [OF d] rl rest(2) ino by (simp add: live_def)
  moreover have "agree 0 off blk blk'" unfolding b using r(1) by (intro agree_splice) auto
  ultimately show ?thesis using d by blast
qed

text \<open>One step of the scan, on a well-formed record.\<close>

lemma remove_in_step:
  assumes "rec_ok blk off"
  shows "remove_in name blk prev off =
    (if misses blk off name then remove_in name blk (Some off) (off + rec_len blk off)
     else do { blk1 \<leftarrow> (case prev of
                          Some p \<Rightarrow> wr (p + 4) (b16 (of_nat (rec_len blk p + rec_len blk off))) blk
                        | None \<Rightarrow> wr off (b32 0) blk);
               Some (Some (rec_ino blk off, blk1)) })"
proof -
  note r = rec_ok_bounds [OF assms] assms [unfolded rec_ok_def]
  have "length (rec_name blk off) = unat (blk ! (off + 6))" if "rec_ino blk off \<noteq> 0"
    using r(4) [OF that] by (simp add: rec_name_def)
  then have l: "unat (blk ! (off + 6)) = length name"
    if "rec_ino blk off \<noteq> 0" "rec_name blk off = as_bytes name"
    using that by (metis length_as_bytes)
  have m: "misses blk off name \<longleftrightarrow> \<not> (rec_ino blk off \<noteq> 0 \<and> unat (blk ! (off + 6)) = length name \<and>
      take (unat (blk ! (off + 6))) (drop (off + 8) blk) = as_bytes name)"
    using l by (auto simp: misses_def live_def rec_name_def)
  show ?thesis unfolding m using r
    by (subst remove_in.simps) (auto simp: Let_def rec_ino_def rec_len_def split: option.split)
qed

lemma remove_in_entries:
  assumes "length blk < 2 ^ 16"
  shows "dir_ok blk off \<Longrightarrow> scan_pos name blk prev off \<Longrightarrow>
    (case map_of (entries blk off) (as_bytes name) of
       None \<Rightarrow> remove_in name blk prev off = Some None
     | Some ino \<Rightarrow> \<exists>blk'. remove_in name blk prev off = Some (Some (ino, blk')) \<and>
         agree 0 (scan_start prev off) blk blk' \<and> dir_ok blk' (scan_start prev off) \<and>
         entries blk' (scan_start prev off) = del_first (as_bytes name) (entries blk (scan_start prev off)))"
  using assms
proof (induction blk off arbitrary: prev rule: dir_ok.induct)
  case (1 blk off)
  show ?case
  proof (cases "off = length blk")
    case False
    with 1(2) have ok: "rec_ok blk off" "dir_ok blk (off + rec_len blk off)" by (auto dest: dir_ok_step)
    have es: "entries blk off = live blk off @ entries blk (off + rec_len blk off)"
      by (rule entries_step [OF 1(2) False])
    have whole: "entries blk (scan_start prev off) = (case prev of None \<Rightarrow> [] | Some p \<Rightarrow> live blk p) @ entries blk off"
      "scan_start prev off \<le> off" "dir_ok blk (scan_start prev off)"
    proof -
      have "dir_ok blk p \<and> p \<noteq> length blk" if "prev = Some p" for p
        using 1(2,3) that rec_ok_bounds [of blk p] by (auto simp: scan_pos_def intro: dir_okI)
      then show "entries blk (scan_start prev off) = (case prev of None \<Rightarrow> [] | Some p \<Rightarrow> live blk p) @ entries blk off"
        "scan_start prev off \<le> off" "dir_ok blk (scan_start prev off)"
        using 1(2,3) entries_step [of blk] by (auto simp: scan_start_def scan_pos_def split: option.splits)
    qed
    have pre: "as_bytes name \<notin> fst ` set (case prev of None \<Rightarrow> [] | Some p \<Rightarrow> live blk p)"
      using 1(3) by (auto simp: scan_pos_def misses_def split: option.splits)
    show ?thesis
    proof (cases "misses blk off name")
      case True
      have look: "map_of (entries blk off) (as_bytes name) = map_of (entries blk (off + rec_len blk off)) (as_bytes name)"
        using True es by (auto simp: misses_def live_def)
      have "scan_pos name blk (Some off) (off + rec_len blk off)" using ok(1) True by (simp add: scan_pos_def)
      note ih = 1(1) [OF False ok(1) ok(2) this 1(4)]
      show ?thesis
      proof (cases "map_of (entries blk (off + rec_len blk off)) (as_bytes name)")
        case None
        with ih look True remove_in_step [OF ok(1)] show ?thesis by simp
      next
        case (Some ino)
        with ih obtain blk' where i: "remove_in name blk (Some off) (off + rec_len blk off) = Some (Some (ino, blk'))"
          "agree 0 off blk blk'" "dir_ok blk' off" "entries blk' off = del_first (as_bytes name) (entries blk off)"
          by (auto simp: scan_start_def)
        have "agree 0 (scan_start prev off) blk blk' \<and> dir_ok blk' (scan_start prev off) \<and>
          entries blk' (scan_start prev off) = del_first (as_bytes name) (entries blk (scan_start prev off))"
        proof (cases prev)
          case (Some p)
          with 1(3) have p: "rec_ok blk p" "p + rec_len blk p = off" by (auto simp: scan_pos_def)
          then have same: "rec_len blk' p = rec_len blk p" "rec_ok blk' p" "live blk' p = live blk p"
            using agree_rec [OF i(2) _ _ p(1)] by auto
          have d: "dir_ok blk' p" using same p(2) i(3) by (metis dir_okI)
          have "p \<noteq> length blk'" using rec_ok_bounds [OF same(2)] by simp
          then have "entries blk' p = live blk p @ del_first (as_bytes name) (entries blk off)"
            using entries_step [OF d] same p(2) i(4) by simp
          moreover have "agree 0 p blk blk'" by (rule agree_sub [OF i(2)]) (use p(2) in simp_all)
          ultimately show ?thesis using Some whole(1) pre d by (simp add: scan_start_def del_first_append)
        qed (use i in \<open>simp add: scan_start_def\<close>)
        with i(1) look Some True remove_in_step [OF ok(1)] show ?thesis by simp
      qed
    next
      case hit: False
      then have l: "live blk off = [(as_bytes name, rec_ino blk off)]" by (auto simp: misses_def live_def split: if_splits)
      have del: "del_first (as_bytes name) (entries blk (scan_start prev off)) =
        (case prev of None \<Rightarrow> [] | Some p \<Rightarrow> live blk p) @ entries blk (off + rec_len blk off)"
        using whole(1) pre es l by (simp add: del_first_append)
      show ?thesis
      proof (cases prev)
        case None
        have "wr off (b32 0) blk = Some (splice off (b32 0) blk)" using rec_ok_bounds [OF ok(1)] by (simp add: wr_def)
        with None hit es l del remove_in_step [OF ok(1)] tombstone_record [OF ok refl] show ?thesis
          by (auto simp: scan_start_def)
      next
        case (Some p)
        with 1(3) have p: "rec_ok blk p" "off = p + rec_len blk p" by (auto simp: scan_pos_def)
        define blk' where "blk' = splice (p + 4) (b16 (of_nat (rec_len blk p + rec_len blk off))) blk"
        have w: "wr (p + 4) (b16 (of_nat (rec_len blk p + rec_len blk off))) blk = Some blk'"
          using rec_ok_bounds [OF p(1)] by (simp add: wr_def blk'_def)
        from remove_in_step [OF ok(1), of name prev] hit Some w
        have "remove_in name blk prev off = Some (Some (rec_ino blk off, blk'))" by simp
        with Some es l del merge_record [OF p ok 1(4) blk'_def] show ?thesis by (simp add: scan_start_def)
      qed
    qed
  qed (simp add: remove_in.simps)
qed

lemma map_of_insert_mid:
  "k \<notin> fst ` set a \<Longrightarrow> map_of (a @ (k, v) # b) x = (if x = k then Some v else map_of (a @ b) x)"
  by (induction a) auto

text \<open>C20. A directory block behaves as a list of named entries.  On a well-formed block, inserting
  a name of at most 255 bytes that it does not hold never panics; when there is room, the block
  stays well formed, the name is found with its inode, and every other name is found as before.
  Removing it again returns that inode and gives back every lookup of the old block.\<close>
theorem dir_insert_find_remove:
  assumes "dir_ok blk 0" "length blk < 2 ^ 16" "length name \<le> 255" "child \<noteq> 0" "dir_find blk name 0 = None"
  shows "insert_in name child ft blk 0 = Some None \<or>
    (\<exists>blk'. insert_in name child ft blk 0 = Some (Some blk') \<and> dir_ok blk' 0 \<and>
       (\<forall>n. dir_find blk' n 0 = (if n = name then Some child else dir_find blk n 0)) \<and>
       (\<exists>blk''. remove_in name blk' None 0 = Some (Some (child, blk'')) \<and> dir_ok blk'' 0 \<and>
          (\<forall>n. dir_find blk'' n 0 = dir_find blk n 0)))"
  using insert_in_entries [OF assms(3,4,1), of ft]
proof
  assume "\<exists>blk' a b. insert_in name child ft blk 0 = Some (Some blk') \<and> agree 0 0 blk blk' \<and> dir_ok blk' 0 \<and>
    entries blk 0 = a @ b \<and> entries blk' 0 = a @ (as_bytes name, child) # b"
  then obtain blk' a b where i: "insert_in name child ft blk 0 = Some (Some blk')" "agree 0 0 blk blk'" "dir_ok blk' 0"
    and e: "entries blk 0 = a @ b" "entries blk' 0 = a @ (as_bytes name, child) # b" by blast
  have inj: "as_bytes n = as_bytes name \<longleftrightarrow> n = name" for n by (metis of_bytes_as_bytes)
  have no: "as_bytes name \<notin> fst ` set a" "map_of (a @ b) (as_bytes name) = None"
    using assms(5) dir_find_entries [OF assms(1)] e(1) by (auto simp: map_of_eq_None_iff image_Un simp del: map_of_append)
  have find: "dir_find blk' n 0 = (if n = name then Some child else dir_find blk n 0)" for n
    using dir_find_entries [OF i(3), of n] dir_find_entries [OF assms(1), of n] e
    by (simp only: map_of_insert_mid [OF no(1)] inj)
  have "length blk' < 2 ^ 16" using i(2) assms(2) by (simp add: agree_def)
  moreover have "map_of (entries blk' 0) (as_bytes name) = Some child"
    using dir_find_entries [OF i(3), of name] find [of name] by simp
  ultimately obtain blk'' where r: "remove_in name blk' None 0 = Some (Some (child, blk''))" "dir_ok blk'' 0"
    "entries blk'' 0 = del_first (as_bytes name) (entries blk' 0)"
    using remove_in_entries [of blk' 0 name None] i(3) by (auto simp: scan_pos_def scan_start_def)
  have "entries blk'' 0 = entries blk 0" using r(3) e no(1) by (simp add: del_first_append)
  then have "dir_find blk'' n 0 = dir_find blk n 0" for n
    using dir_find_entries [OF r(2)] dir_find_entries [OF assms(1)] by simp
  with i r find show ?thesis by blast
qed simp

theorem dir_insert_find_remove_witness:
  "\<exists>blk'. insert_in ''a'' 5 1 ([0, 0, 0, 0, 16, 0, 0, 0] @ replicate 8 0) 0 = Some (Some blk') \<and>
     dir_find blk' ''a'' 0 = Some 5 \<and> dir_find blk' ''b'' 0 = None"
proof -
  define blk :: "byte list" where "blk = [0, 0, 0, 0, 16, 0, 0, 0] @ replicate 8 0"
  have "dir_ok blk 0" "dir_find blk ''a'' 0 = None" "dir_find blk ''b'' 0 = None" "insert_in ''a'' 5 1 blk 0 \<noteq> Some None"
    unfolding blk_def by code_simp+
  with dir_insert_find_remove [of blk "''a''" 5 1] show ?thesis by (auto simp: blk_def)
qed

text \<open>The limit of 255 bytes matters: a longer name is accepted by the record writer with its
  length cut to one byte.  Here a 300-byte name goes into a fresh block and cannot be found
  again, while its first 44 bytes name the inode.  \<open>write_path_owned\<close> checks the length,
  \<open>mkdir_path_owned\<close> does not.\<close>
theorem long_name_truncated:
  "\<exists>blk'. insert_in (replicate 300 (CHR ''x'')) 5 2 (b32 0 @ b16 1024 @ replicate 1018 0) 0 = Some (Some blk') \<and>
     dir_find blk' (replicate 300 (CHR ''x'')) 0 = None \<and> dir_find blk' (replicate 44 (CHR ''x'')) 0 = Some 5"
proof -
  define blk where "blk = b32 0 @ b16 1024 @ replicate 1018 (0 :: byte)"
  define nm where "nm = replicate 300 (CHR ''x'')"
  define blk' where "blk' = splice 0 (enc_rec 5 1024 nm 2) blk"
  have l: "length blk = 1024" "length nm = 300" by (simp_all add: blk_def nm_def)
  have r: "rec_ino blk 0 = 0" "rec_len blk 0 = 1024"
    by (simp_all add: blk_def rec_ino_def rec_len_def le32_at_def le16_at_def le32_b32 le16_b16)
  have i: "insert_in nm 5 2 blk 0 = Some (Some blk')"
    using r l by (subst insert_in.simps)
      (simp add: Let_def avail_def round4_def rec_ino_def rec_len_def put_record_splice blk'_def)
  have part: "take k (drop j blk') = take k (drop j (enc_rec 5 1024 nm 2))" if "j + k \<le> 308" for j k
    using splice_part [of 0 "enc_rec 5 1024 nm 2" blk j k] that l by (simp add: blk'_def)
  have ino: "le32_at blk' 0 = 5" using part [of 0 4] by (simp add: le32_at_def enc_rec_def le32_b32)
  have rl: "le16_at blk' 4 = 1024" using part [of 4 2] by (simp add: le16_at_def enc_rec_def le16_b16)
  have l': "length blk' = 1024" using l by (simp add: blk'_def)
  have "take 1 (drop 6 blk') = [44]" using part [of 6 1] l by (simp add: enc_rec_def b32_def b16_def)
  then have nl: "blk' ! 6 = 44" using l' by (simp add: take_Suc hd_drop_conv_nth)
  have name: "take 44 (drop 8 blk') = as_bytes (replicate 44 (CHR ''x''))"
    using part [of 8 44] by (simp add: enc_rec_def nm_def as_bytes_def)
  have find: "dir_find blk' n 0 = (if as_bytes n = as_bytes (replicate 44 (CHR ''x'')) then Some 5 else None)" for n
    using ino rl nl name l' by (subst dir_find.simps) (auto simp: Let_def dir_find.simps [of _ _ 1024])
  have "length (as_bytes nm) \<noteq> length (as_bytes (replicate 44 (CHR ''x'')))" using l by simp
  then have "as_bytes nm \<noteq> as_bytes (replicate 44 (CHR ''x''))" by metis
  with i find show ?thesis by (auto simp: nm_def blk_def)
qed

end
