(* ===== verification/Security.thy ===== *)
theory Security
  imports Ext2_Write
begin

text \<open>
  The security modules: the credential store (\<open>kernel/src/cred.rs\<close>), first-run setup and
  login (\<open>login.rs\<close>), file-integrity baselines (\<open>integrity.rs\<close>), the exec gate
  (\<open>execgate.rs\<close>) and its channel to the Security Service (\<open>secsvc.rs\<close>).  SHA-256 comes
  from a third-party crate: it is the argument \<open>sha\<close>, of which the theorems use only that a
  digest has 32 bytes.  Console lines, the hardware random source and the answers of the
  service process are arguments too.
\<close>

section \<open>Credentials\<close>

definition ROUNDS :: nat where "ROUNDS = 60000"
definition ADMIN_UID :: u32 where "ADMIN_UID = 1000"
definition STORE_DIR :: string where "STORE_DIR = ''/etc/thos''"
definition CRED_PATH :: string where "CRED_PATH = ''/etc/thos/admin.cred''"

record cred =
  cr_name :: string
  cr_salt :: "byte list"
  cr_hash :: "byte list"

definition xorshift :: "u64 \<Rightarrow> u64" where
  "xorshift x0 =
     (let x1 = x0 XOR push_bit 13 x0; x2 = x1 XOR drop_bit 7 x1 in x2 XOR push_bit 17 x2)"

text \<open>
  \<open>tries\<close> is what up to 32 \<open>RDRAND\<close> steps return (\<open>None\<close> for a step without a value),
  \<open>tsc\<close> the time stamp counter and \<open>st\<close> the static of the fallback generator.
\<close>

definition rand64 :: "bool \<Rightarrow> u64 option list \<Rightarrow> u64 \<Rightarrow> u64 \<Rightarrow> u64 \<times> u64" where
  "rand64 has_rdrand tries tsc st =
     (case (if has_rdrand then List.find (\<lambda>t. t \<noteq> None) (take 32 tries) else None) of
        Some (Some x) \<Rightarrow> (x, st)
      | _ \<Rightarrow>
          let x = st XOR tsc; y = xorshift (if x = 0 then 0x9E3779B97F4A7C15 else x) in (y, y))"

fun ct_diff :: "byte list \<Rightarrow> byte list \<Rightarrow> byte" where
  "ct_diff (a # xs) (b # ys) = (a XOR b) OR ct_diff xs ys"
| "ct_diff _ _ = 0"

definition ct_eq :: "byte list \<Rightarrow> byte list \<Rightarrow> bool" where
  "ct_eq a b \<longleftrightarrow> ct_diff a b = 0"

fun unhex_all :: "string \<Rightarrow> byte list option" where
  "unhex_all (c # d # r) =
     (case (hex_val c, hex_val d) of
        (Some h, Some l) \<Rightarrow> map_option ((#) (of_nat (16 * h + l))) (unhex_all r)
      | _ \<Rightarrow> None)"
| "unhex_all _ = Some []"

text \<open>\<open>unhex\<close> into an array of \<open>n\<close> bytes; \<open>None\<close> is its \<open>false\<close>.\<close>

definition unhex :: "string \<Rightarrow> nat \<Rightarrow> byte list option" where
  "unhex s n = (if length s \<noteq> n * 2 then None else unhex_all s)"

definition pad64 :: "(byte list \<Rightarrow> byte list) \<Rightarrow> byte list \<Rightarrow> byte list" where
  "pad64 sha ky = (let k = (if 64 < length ky then sha ky else ky) in k @ replicate (64 - length k) 0)"

definition hmac_sha256 :: "(byte list \<Rightarrow> byte list) \<Rightarrow> byte list \<Rightarrow> byte list \<Rightarrow> byte list" where
  "hmac_sha256 sha ky msg =
     (let k = pad64 sha ky; ipad = map (\<lambda>b. 0x36 XOR b) k; opad = map (\<lambda>b. 0x5C XOR b) k
      in sha (opad @ sha (ipad @ msg)))"

definition xor_bytes :: "byte list \<Rightarrow> byte list \<Rightarrow> byte list" where
  "xor_bytes xs ys = map (\<lambda>(a, b). a XOR b) (zip xs ys)"

fun pbkdf2_rounds :: "(byte list \<Rightarrow> byte list) \<Rightarrow> byte list \<Rightarrow> nat \<Rightarrow> byte list \<Rightarrow> byte list \<Rightarrow> byte list" where
  "pbkdf2_rounds sha pw 0 u out = out"
| "pbkdf2_rounds sha pw (Suc n) u out =
     (let u' = hmac_sha256 sha pw u in pbkdf2_rounds sha pw n u' (xor_bytes out u'))"

definition pbkdf2_hmac_sha256 :: "(byte list \<Rightarrow> byte list) \<Rightarrow> byte list \<Rightarrow> byte list \<Rightarrow> nat \<Rightarrow> byte list" where
  "pbkdf2_hmac_sha256 sha pw salt rounds =
     (let u = hmac_sha256 sha pw (salt @ [0, 0, 0, 1]) in pbkdf2_rounds sha pw (rounds - 1) u u)"

text \<open>\<open>r1\<close> and \<open>r2\<close> are the two values of \<open>rand64\<close>.\<close>

definition cred_create :: "(byte list \<Rightarrow> byte list) \<Rightarrow> u64 \<Rightarrow> u64 \<Rightarrow> string \<Rightarrow> string \<Rightarrow> cred" where
  "cred_create sha r1 r2 name password =
     (let salt = le_bytes 8 (unat r1) @ le_bytes 8 (unat r2)
      in \<lparr>cr_name = name, cr_salt = salt, cr_hash = pbkdf2_hmac_sha256 sha (as_bytes password) salt ROUNDS\<rparr>)"

definition cred_verify :: "(byte list \<Rightarrow> byte list) \<Rightarrow> cred \<Rightarrow> string \<Rightarrow> string \<Rightarrow> bool" where
  "cred_verify sha c name password =
     (let got = pbkdf2_hmac_sha256 sha (as_bytes password) (cr_salt c) ROUNDS;
          name_ok = (as_bytes name = as_bytes (cr_name c))
      in ct_eq got (cr_hash c) \<and> name_ok)"

definition cred_lines :: "cred \<Rightarrow> string list" where
  "cred_lines c =
     [''thos-cred v1'', ''name='' @ cr_name c, ''rounds='' @ dec_of ROUNDS, ''salt='' @ hex_bytes (cr_salt c),
      ''hash='' @ hex_bytes (cr_hash c)]"

definition cred_serialize :: "cred \<Rightarrow> byte list" where
  "cred_serialize c = as_bytes (concat (map (\<lambda>l. l @ [NL]) (cred_lines c)))"

definition cred_line :: "string \<Rightarrow> string option \<times> byte list option \<times> byte list option
    \<Rightarrow> string option \<times> byte list option \<times> byte list option" where
  "cred_line l st =
     (case (split_once (CHR ''='') l, st) of
        (None, _) \<Rightarrow> st
      | (Some (k, v), (name, salt, hash)) \<Rightarrow>
          if k = ''name'' then (Some v, salt, hash)
          else if k = ''salt'' then (name, unhex v 16, hash)
          else if k = ''hash'' then (name, salt, unhex v 32)
          else st)"

definition cred_parse :: "byte list \<Rightarrow> cred option" where
  "cred_parse bytes =
     (case from_utf8 bytes of
        None \<Rightarrow> None
      | Some text \<Rightarrow>
          (case fold cred_line (lines text) (None, None, None) of
             (Some n, Some s, Some h) \<Rightarrow> Some \<lparr>cr_name = n, cr_salt = s, cr_hash = h\<rparr>
           | _ \<Rightarrow> None))"

text \<open>\<open>store\<close> is what \<open>read_path\<close> returns for the store file.\<close>

definition cred_exists :: "byte list option \<Rightarrow> bool" where
  "cred_exists store \<longleftrightarrow> store \<noteq> None"

definition cred_load :: "byte list option \<Rightarrow> cred option" where
  "cred_load store = Option.bind store cred_parse"

text \<open>A directory that is already there is no error.\<close>

definition tolerate :: "op_result \<Rightarrow> op_result" where
  "tolerate r =
     map_option (\<lambda>(e, d). (if e = Inl ''already exists'' then Inr () else e, d)) r"

definition and_then :: "op_result \<Rightarrow> (disk \<Rightarrow> op_result) \<Rightarrow> op_result" where
  "and_then r f =
     do { (e, d) \<leftarrow> r; case e of Inl m \<Rightarrow> Some (Inl m, d) | Inr _ \<Rightarrow> f d }"

definition cred_save :: "ext2 \<Rightarrow> cred \<Rightarrow> disk \<Rightarrow> op_result" where
  "cred_save fs c d =
     and_then (tolerate (mkdir_path fs ''/etc'' d)) (\<lambda>d.
     and_then (tolerate (mkdir_path fs STORE_DIR d)) (\<lambda>d.
     and_then (write_path fs CRED_PATH (cred_serialize c) d) (\<lambda>d.
     and_then (tolerate (mkdir_path fs ''/home'' d)) (\<lambda>d.
       tolerate (mkdir_path_owned fs (''/home/'' @ cr_name c) ADMIN_UID ADMIN_UID d)))))"

section \<open>Setup and login\<close>

record session =
  se_name :: string
  se_uid :: u32

definition is_ascii_graphic :: "char \<Rightarrow> bool" where
  "is_ascii_graphic c \<longleftrightarrow> (let n = of_char c :: nat in 33 \<le> n \<and> n \<le> 126)"

text \<open>The lines \<open>prompt\<close> returns are a list; \<open>None\<close> when it is used up (the console waits).\<close>

fun choose_name :: "string list \<Rightarrow> (string \<times> string list) option" where
  "choose_name [] = None"
| "choose_name (n # ls) =
     (if n = [] \<or> 32 < length n \<or> \<not> list_all is_ascii_graphic n then choose_name ls else Some (n, ls))"

fun choose_password :: "string list \<Rightarrow> (string \<times> string list) option" where
  "choose_password (p1 # ls) =
     (if length p1 < 4 then choose_password ls
      else case ls of
             [] \<Rightarrow> None
           | p2 # ls' \<Rightarrow> if p1 \<noteq> p2 then choose_password ls' else Some (p1, ls'))"
| "choose_password [] = None"

text \<open>The credential that first-run setup saves, the session, and the lines left.\<close>

definition first_run_setup :: "(byte list \<Rightarrow> byte list) \<Rightarrow> u64 \<Rightarrow> u64 \<Rightarrow> string list
    \<Rightarrow> (cred \<times> session \<times> string list) option" where
  "first_run_setup sha r1 r2 ls =
     do { (name, ls1) \<leftarrow> choose_name ls;
          (password, ls2) \<leftarrow> choose_password ls1;
          Some (cred_create sha r1 r2 name password, \<lparr>se_name = name, se_uid = ADMIN_UID\<rparr>, ls2) }"

fun login_loop :: "(byte list \<Rightarrow> byte list) \<Rightarrow> cred \<Rightarrow> string list \<Rightarrow> session option" where
  "login_loop sha c (name # password # ls) =
     (if cred_verify sha c name password then Some \<lparr>se_name = name, se_uid = ADMIN_UID\<rparr>
      else login_loop sha c ls)"
| "login_loop sha c _ = None"

section \<open>Integrity baselines\<close>

datatype outcome = OutOk | OutTampered | OutMissing

definition BASELINE_PATH :: string where "BASELINE_PATH = ''/etc/thos/integrity.baseline''"
definition BASELINE_FILES :: "string list" where "BASELINE_FILES = [''/init'', ''/rusthello'']"

text \<open>\<open>rd\<close> is \<open>Ext2::read_path\<close>.\<close>

definition sha256_of :: "(byte list \<Rightarrow> byte list) \<Rightarrow> (string \<Rightarrow> byte list option) \<Rightarrow> string \<Rightarrow> byte list option" where
  "sha256_of sha rd path = map_option sha (rd path)"

fun record_entries :: "(byte list \<Rightarrow> byte list) \<Rightarrow> (string \<Rightarrow> byte list option) \<Rightarrow> string list \<Rightarrow> string list \<times> (string \<times> outcome) list" where
  "record_entries sha rd [] = ([], [])"
| "record_entries sha rd (p # ps) =
     (case record_entries sha rd ps of (ls, cs) \<Rightarrow>
        (case sha256_of sha rd p of
           Some h \<Rightarrow> ((p @ ''='' @ hex_bytes h) # ls, (p, OutOk) # cs)
         | None \<Rightarrow> (ls, (p, OutMissing) # cs)))"

text \<open>The bytes that \<open>record\<close> writes to the baseline file, and its report.\<close>

definition integrity_record :: "(byte list \<Rightarrow> byte list) \<Rightarrow> (string \<Rightarrow> byte list option) \<Rightarrow> string list
    \<Rightarrow> byte list \<times> (string \<times> outcome) list" where
  "integrity_record sha rd paths =
     (case record_entries sha rd paths of (ls, cs) \<Rightarrow>
        (as_bytes (concat (map (\<lambda>l. l @ [NL]) (''thos-integrity v1'' # ls))), cs))"

definition verify_line :: "(byte list \<Rightarrow> byte list) \<Rightarrow> (string \<Rightarrow> byte list option) \<Rightarrow> string \<Rightarrow> (string \<times> outcome) list" where
  "verify_line sha rd l =
     (case split_once (CHR ''='') l of
        None \<Rightarrow> []
      | Some (path, want_hex) \<Rightarrow>
          (case unhex want_hex 32 of
             None \<Rightarrow> []
           | Some want \<Rightarrow>
               [(path, case sha256_of sha rd path of
                         Some got \<Rightarrow> if got = want then OutOk else OutTampered
                       | None \<Rightarrow> OutMissing)]))"

definition integrity_verify :: "(byte list \<Rightarrow> byte list) \<Rightarrow> (string \<Rightarrow> byte list option) \<Rightarrow> (string \<times> outcome) list" where
  "integrity_verify sha rd =
     (case rd BASELINE_PATH of
        None \<Rightarrow> []
      | Some raw \<Rightarrow>
          (case from_utf8 raw of
             None \<Rightarrow> []
           | Some text \<Rightarrow> concat (map (verify_line sha rd) (lines text))))"

section \<open>The exec gate\<close>

datatype verdict = Allow | Quarantine string

definition EICAR :: "byte list" where
  "EICAR = as_bytes (''X5O!P%@AP[4'' @ [CHR 0x5C] @ ''PZX54(P^)7CC)7}$EICAR-STANDARD-ANTIVIRUS-TEST-FILE!$H+H*'')"

definition BLOCKED_HASHES :: "byte list list" where
  "BLOCKED_HASHES = [[
     0x80, 0x2c, 0x34, 0x94, 0xf7, 0x96, 0xf1, 0x3b, 0xf2, 0x1d, 0x55, 0x90, 0x92, 0x28, 0x1b, 0x26,
     0x52, 0x58, 0x68, 0xec, 0x99, 0x2c, 0xcf, 0xc7, 0x6f, 0xa8, 0xd2, 0x0b, 0x1c, 0xf5, 0x92, 0xe2]]"

definition windows :: "nat \<Rightarrow> 'a list \<Rightarrow> 'a list list" where
  "windows n xs = map (\<lambda>i. take n (drop i xs)) [0..<length xs + 1 - n]"

definition contains :: "byte list \<Rightarrow> byte list \<Rightarrow> bool" where
  "contains hay needle =
     (if needle = [] \<or> length hay < length needle then False
      else list_ex (\<lambda>w. w = needle) (windows (length needle) hay))"

text \<open>
  One exchange over the channel: what the write of the hash and the read of the answer
  returned, and the byte read.  There is no channel before the service was spawned.
\<close>

record exchange =
  ex_written :: int
  ex_read :: int
  ex_byte :: byte

definition check_hash :: "exchange option \<Rightarrow> bool option" where
  "check_hash ch =
     (case ch of
        None \<Rightarrow> None
      | Some e \<Rightarrow> if ex_written e \<noteq> 32 then None else if ex_read e \<noteq> 1 then None else Some (ex_byte e \<noteq> 0))"

definition gate_check :: "(byte list \<Rightarrow> byte list) \<Rightarrow> (byte list \<Rightarrow> exchange option) \<Rightarrow> byte list \<Rightarrow> verdict" where
  "gate_check sha service bytes =
     (if contains bytes EICAR then Quarantine ''EICAR test signature''
      else let digest = sha bytes
           in case check_hash (service digest) of
                Some True \<Rightarrow> Quarantine ''Security Service: known-bad hash''
              | Some False \<Rightarrow> Allow
              | None \<Rightarrow>
                  if digest \<in> set BLOCKED_HASHES then Quarantine ''known-bad hash (local fallback)'' else Allow)"

section \<open>Properties\<close>

lemma word_xor_zero: "(a XOR b = (0 :: byte)) = (a = b)"
  by (metis xor_self_eq bit.xor_left_self xor.comm_neutral xor.left_commute)

lemma ct_diff_zero: "length xs = length ys \<Longrightarrow> ct_diff xs ys = 0 \<longleftrightarrow> xs = ys"
  by (induction xs ys rule: list_induct2) (auto simp: or_eq_0_iff word_xor_zero)

lemma ct_eq_iff: "length xs = length ys \<Longrightarrow> ct_eq xs ys \<longleftrightarrow> xs = ys"
  by (simp add: ct_eq_def ct_diff_zero)

lemma unhex_all_hex: "unhex_all (hex_bytes xs) = Some xs"
proof (induction xs)
  case (Cons b xs)
  have "of_nat (unat b div 16 * 16 + unat b mod 16) = b" by simp
  with Cons show ?case
    by (simp add: hex_bytes_def [of "b # xs"] hex_byte_def less_mult_imp_div_less mult.commute flip: hex_bytes_def)
qed (simp add: hex_bytes_def)

lemma unhex_hex: "length xs = n \<Longrightarrow> unhex (hex_bytes xs) n = Some xs"
  by (simp add: unhex_def unhex_all_hex mult.commute)

lemma hmac_length: "(\<And>m. length (sha m) = 32) \<Longrightarrow> length (hmac_sha256 sha k m) = 32"
  by (simp add: hmac_sha256_def Let_def)

lemma pbkdf2_rounds_length:
  "(\<And>m. length (sha m) = 32) \<Longrightarrow> length u = 32 \<Longrightarrow> length out = 32 \<Longrightarrow>
   length (pbkdf2_rounds sha pw n u out) = 32"
  by (induction n arbitrary: u out) (simp_all add: Let_def xor_bytes_def hmac_length)

lemma pbkdf2_length: "(\<And>m. length (sha m) = 32) \<Longrightarrow> length (pbkdf2_hmac_sha256 sha pw salt n) = 32"
  by (simp add: pbkdf2_hmac_sha256_def Let_def pbkdf2_rounds_length hmac_length)

text \<open>Names that survive a line of a text file.\<close>

definition line_ok :: "string \<Rightarrow> bool" where
  "line_ok s \<longleftrightarrow> utf8_str s \<and> NL \<notin> set s \<and> CR \<notin> set s"

lemma line_ok_append: "line_ok s \<Longrightarrow> line_ok t \<Longrightarrow> line_ok (s @ t)"
  by (simp add: line_ok_def utf8_str_append)

lemma line_ok_ascii: "\<forall>c \<in> set s. of_char c < (128::nat) \<and> c \<noteq> NL \<and> c \<noteq> CR \<Longrightarrow> line_ok s"
  by (auto simp: line_ok_def intro: utf8_str_ascii)

lemma line_ok_hex: "line_ok (hex_bytes xs)"
proof (rule line_ok_ascii, rule ballI)
  fix c assume "c \<in> set (hex_bytes xs)"
  then have "c \<in> set hex_chars" by (rule hex_bytes_chars)
  with hex_chars_plain [of c] show "of_char c < (128::nat) \<and> c \<noteq> NL \<and> c \<noteq> CR" by blast
qed

lemma line_ok_dec: "line_ok (dec_of n)"
proof (rule line_ok_ascii, rule ballI)
  fix c assume "c \<in> set (dec_of n)"
  then have "c \<in> set hex_chars" by (rule dec_of_chars)
  with hex_chars_plain [of c] show "of_char c < (128::nat) \<and> c \<noteq> NL \<and> c \<noteq> CR" by blast
qed

lemma utf8_str_concat: "\<forall>l \<in> set ls. utf8_str l \<Longrightarrow> utf8_str (concat (map (\<lambda>l. l @ [NL]) ls))"
proof (induction ls)
  case (Cons l ls)
  then show ?case by (simp add: utf8_str_append utf8_str_cons_ascii)
qed (simp add: utf8_str_ascii)

text \<open>A text file written as newline-terminated records is read back as those lines.\<close>

lemma text_records:
  assumes "list_all line_ok ls"
  shows "from_utf8 (as_bytes (concat (map (\<lambda>l. l @ [NL]) ls))) = Some (concat (map (\<lambda>l. l @ [NL]) ls))"
    "lines (concat (map (\<lambda>l. l @ [NL]) ls)) = ls"
proof -
  have "\<forall>l \<in> set ls. utf8_str l" using assms by (auto simp: list_all_iff line_ok_def)
  then show "from_utf8 (as_bytes (concat (map (\<lambda>l. l @ [NL]) ls))) = Some (concat (map (\<lambda>l. l @ [NL]) ls))"
    using utf8_str_concat by simp
  show "lines (concat (map (\<lambda>l. l @ [NL]) ls)) = ls"
    using assms by (intro lines_records) (auto simp: list_all_iff line_ok_def)
qed

lemma cred_parse_serialize:
  assumes "line_ok (cr_name c)" "length (cr_salt c) = 16" "length (cr_hash c) = 32"
  shows "cred_parse (cred_serialize c) = Some c"
proof -
  have ok: "list_all line_ok (cred_lines c)"
    using assms(1) unfolding cred_lines_def
    by (simp only: list_all_iff list.set ball_simps)
      (intro conjI line_ok_append line_ok_hex line_ok_dec; simp add: line_ok_ascii)
  have s: "split_once (CHR ''='') ''thos-cred v1'' = None" by (simp add: split_once_def)
  have k: "split_once (CHR ''='') (''name='' @ v) = Some (''name'', v)"
    "split_once (CHR ''='') (''rounds='' @ v) = Some (''rounds'', v)"
    "split_once (CHR ''='') (''salt='' @ v) = Some (''salt'', v)"
    "split_once (CHR ''='') (''hash='' @ v) = Some (''hash'', v)" for v
    using split_once_first [of "CHR ''=''" "''name''" v] split_once_first [of "CHR ''=''" "''rounds''" v]
      split_once_first [of "CHR ''=''" "''salt''" v] split_once_first [of "CHR ''=''" "''hash''" v] by simp_all
  have "fold cred_line (cred_lines c) (None, None, None) = (Some (cr_name c), Some (cr_salt c), Some (cr_hash c))"
    unfolding cred_lines_def using assms(2,3)
    by (simp add: cred_line_def s k unhex_hex del: append_Cons append.simps)
  then show ?thesis
    unfolding cred_parse_def cred_serialize_def text_records [OF ok] by (simp add: text_records(2) [OF ok])
qed



lemma record_lines_verify:
  assumes "\<And>m. length (sha m) = 32" "\<forall>p \<in> set ps. line_ok p \<and> CHR ''='' \<notin> set p"
  shows "list_all line_ok (fst (record_entries sha rd ps)) \<and>
    concat (map (verify_line sha rd') (fst (record_entries sha rd ps))) =
      map (\<lambda>p. (p, case rd' p of None \<Rightarrow> OutMissing
                   | Some b \<Rightarrow> if sha b = sha (the (rd p)) then OutOk else OutTampered))
        (filter (\<lambda>p. rd p \<noteq> None) ps)"
  using assms(2)
proof (induction ps)
  case (Cons p ps)
  have "verify_line sha rd' (p @ ''='' @ hex_bytes (sha b)) =
    [(p, case rd' p of None \<Rightarrow> OutMissing | Some b' \<Rightarrow> if sha b' = sha b then OutOk else OutTampered)]" for b
    using split_once_first [of "CHR ''=''" p "hex_bytes (sha b)"] Cons.prems assms(1)
    by (auto simp: verify_line_def unhex_hex sha256_of_def split: option.split)
  moreover have "line_ok (p @ ''='' @ hex_bytes (sha b))" for b
    using Cons.prems by (intro line_ok_append line_ok_hex) (simp_all add: line_ok_ascii)
  ultimately show ?case
    using Cons by (auto simp: sha256_of_def split: prod.split option.split)
qed simp

text \<open>Integrity checking: after a baseline was recorded from the files \<open>rd\<close>, a later check that
  finds this baseline reports every recorded file exactly once and in order: missing when it is
  gone, unchanged when its digest is the recorded one, and tampered otherwise.\<close>
theorem integrity_detects:
  assumes "\<And>m. length (sha m) = 32" "\<forall>p \<in> set ps. line_ok p \<and> CHR ''='' \<notin> set p"
    and "rd' BASELINE_PATH = Some (fst (integrity_record sha rd ps))"
  shows "integrity_verify sha rd' =
    map (\<lambda>p. (p, case rd' p of None \<Rightarrow> OutMissing
                 | Some b \<Rightarrow> if sha b = sha (the (rd p)) then OutOk else OutTampered))
      (filter (\<lambda>p. rd p \<noteq> None) ps)"
proof -
  define ls where "ls = fst (record_entries sha rd ps)"
  note r = record_lines_verify [of sha ps rd rd', OF assms(1,2), folded ls_def]
  have ok: "list_all line_ok (''thos-integrity v1'' # ls)" using r by (simp add: line_ok_ascii)
  have h: "verify_line sha rd' ''thos-integrity v1'' = []" by (simp add: verify_line_def split_once_def)
  have "rd' BASELINE_PATH = Some (as_bytes (concat (map (\<lambda>l. l @ [NL]) (''thos-integrity v1'' # ls))))"
    using assms(3) by (simp add: integrity_record_def ls_def case_prod_unfold)
  then have "integrity_verify sha rd' = concat (map (verify_line sha rd') (''thos-integrity v1'' # ls))"
    unfolding integrity_verify_def by (simp only: option.case text_records [OF ok])
  with r h show ?thesis by simp
qed

theorem integrity_detects_witness:
  "\<exists>rd'. integrity_verify (\<lambda>m. replicate 32 (if m = [] then 0 else 1)) rd' =
     [(''/init'', OutOk), (''/rusthello'', OutTampered)]"
proof -
  define sha :: "byte list \<Rightarrow> byte list" where "sha = (\<lambda>m. replicate 32 (if m = [] then 0 else 1))"
  define rd where "rd = (\<lambda>p. if p = ''/init'' then Some [5 :: byte] else Some [])"
  define rd' where "rd' = (\<lambda>p. if p = BASELINE_PATH then Some (fst (integrity_record sha rd BASELINE_FILES)) else Some [6])"
  have "\<forall>p \<in> set BASELINE_FILES. line_ok p \<and> CHR ''='' \<notin> set p"
    by (auto simp: BASELINE_FILES_def intro!: line_ok_ascii)
  then have "integrity_verify sha rd' = [(''/init'', OutOk), (''/rusthello'', OutTampered)]"
    using integrity_detects [of sha BASELINE_FILES rd' rd]
    by (simp add: sha_def rd_def rd'_def BASELINE_FILES_def BASELINE_PATH_def)
  then show ?thesis unfolding sha_def by blast
qed

lemma contains_iff: "contains hay needle \<longleftrightarrow> needle \<noteq> [] \<and> (\<exists>a b. hay = a @ needle @ b)"
proof (cases "needle = [] \<or> length hay < length needle")
  case False
  have "(\<exists>i < length hay + 1 - length needle. take (length needle) (drop i hay) = needle) \<longleftrightarrow> (\<exists>a b. hay = a @ needle @ b)"
  proof
    assume "\<exists>i < length hay + 1 - length needle. take (length needle) (drop i hay) = needle"
    then obtain i where "take (length needle) (drop i hay) = needle" by blast
    then have "hay = take i hay @ needle @ drop (length needle) (drop i hay)" by (metis append_take_drop_id)
    then show "\<exists>a b. hay = a @ needle @ b" by blast
  next
    assume "\<exists>a b. hay = a @ needle @ b"
    then obtain a b where "hay = a @ needle @ b" by blast
    then show "\<exists>i < length hay + 1 - length needle. take (length needle) (drop i hay) = needle"
      by (intro exI [of _ "length a"]) auto
  qed
  moreover have "list_ex (\<lambda>w. w = needle) (windows (length needle) hay) \<longleftrightarrow>
      (\<exists>i < length hay + 1 - length needle. take (length needle) (drop i hay) = needle)"
    by (auto simp: windows_def list_ex_iff image_iff intro!: bexI)
  ultimately show ?thesis using False by (simp add: contains_def)
qed (auto simp: contains_def)

text \<open>The exec gate: a program that holds the EICAR string anywhere is quarantined whatever the
  service says; otherwise a complete exchange with the service decides, and when the service is
  unavailable (no channel, a short write or the end of file) the local list decides.\<close>
theorem exec_gate_decides:
  "gate_check sha service bytes =
     (if \<exists>a b. bytes = a @ EICAR @ b then Quarantine ''EICAR test signature''
      else case service (sha bytes) of
             Some e \<Rightarrow>
               if ex_written e = 32 \<and> ex_read e = 1
               then (if ex_byte e = 0 then Allow else Quarantine ''Security Service: known-bad hash'')
               else if sha bytes \<in> set BLOCKED_HASHES then Quarantine ''known-bad hash (local fallback)'' else Allow
           | None \<Rightarrow> if sha bytes \<in> set BLOCKED_HASHES then Quarantine ''known-bad hash (local fallback)'' else Allow)"
proof -
  have "EICAR \<noteq> []" by (simp add: EICAR_def as_bytes_def)
  then show ?thesis
    by (auto simp: gate_check_def contains_iff check_hash_def Let_def split: option.split)
qed

end
