(* ===== verification/Tasks.thy ===== *)
theory Tasks
  imports Rust_Text
begin

text \<open>
  Tasks (\<open>kernel/src/process.rs\<close>, from \<open>UserFrame\<close> of \<open>kernel/src/syscall.rs\<close> on): the table of
  handles and descriptors of a process, its working directory and path resolution, the user APC
  queue, the process table with exit and \<open>wait4\<close>, thread exit events and the stacks of
  interrupted callback frames.  A shared object is named by a number; the tables hold the numbers.
\<close>

unbundle bit_operations_syntax

type_synonym i32 = "32 word"

section \<open>The handle table\<close>

datatype handle_object =
  HFile nat | HEvent nat | HSemaphore nat | HMutant nat | HSection nat | HRegKey string

record fd_entry =
  fe_obj :: handle_object
  fe_cloexec :: bool

type_synonym fds = "fd_entry option list"

text \<open>The conversion of an \<open>i32\<close> to \<open>usize\<close> extends the sign: a negative number becomes a huge index.\<close>

definition as_usize :: "i32 \<Rightarrow> nat" where
  "as_usize fd = unat (scast fd :: u64)"

definition as_i32 :: "nat \<Rightarrow> i32" where
  "as_i32 i = of_nat i"

definition fd_entry_at :: "fds \<Rightarrow> i32 \<Rightarrow> fd_entry option" where
  "fd_entry_at fds fd = (if as_usize fd < length fds then fds ! as_usize fd else None)"

definition seed_fds :: "nat \<Rightarrow> nat \<Rightarrow> fds" where
  "seed_fds stdin out =
     (let e = (\<lambda>f. Some \<lparr>fe_obj = HFile f, fe_cloexec = False\<rparr>) in [e stdin, e out, e out])"

definition fd_get :: "fds \<Rightarrow> i32 \<Rightarrow> nat option" where
  "fd_get fds fd =
     (case fd_entry_at fds fd of
        Some e \<Rightarrow> (case fe_obj e of HFile f \<Rightarrow> Some f | _ \<Rightarrow> None)
      | None \<Rightarrow> None)"

definition handle_event :: "fds \<Rightarrow> i32 \<Rightarrow> nat option" where
  "handle_event fds h =
     (case fd_entry_at fds h of
        Some e \<Rightarrow> (case fe_obj e of HEvent f \<Rightarrow> Some f | _ \<Rightarrow> None)
      | None \<Rightarrow> None)"

definition handle_section :: "fds \<Rightarrow> i32 \<Rightarrow> nat option" where
  "handle_section fds h =
     (case fd_entry_at fds h of
        Some e \<Rightarrow> (case fe_obj e of HSection f \<Rightarrow> Some f | _ \<Rightarrow> None)
      | None \<Rightarrow> None)"

definition handle_regkey :: "fds \<Rightarrow> i32 \<Rightarrow> string option" where
  "handle_regkey fds h =
     (case fd_entry_at fds h of
        Some e \<Rightarrow> (case fe_obj e of HRegKey p \<Rightarrow> Some p | _ \<Rightarrow> None)
      | None \<Rightarrow> None)"

datatype waitable_ref = WEvent nat | WSemaphore nat | WMutant nat

definition handle_waitable :: "fds \<Rightarrow> i32 \<Rightarrow> waitable_ref option" where
  "handle_waitable fds h =
     (case fd_entry_at fds h of
        Some e \<Rightarrow> (case fe_obj e of
                     HEvent f \<Rightarrow> Some (WEvent f)
                   | HSemaphore f \<Rightarrow> Some (WSemaphore f)
                   | HMutant f \<Rightarrow> Some (WMutant f)
                   | _ \<Rightarrow> None)
      | None \<Rightarrow> None)"

fun position :: "('a \<Rightarrow> bool) \<Rightarrow> 'a list \<Rightarrow> nat option" where
  "position P [] = None"
| "position P (x # xs) = (if P x then Some 0 else map_option Suc (position P xs))"

definition handle_alloc :: "handle_object \<Rightarrow> bool \<Rightarrow> fds \<Rightarrow> i32 \<times> fds" where
  "handle_alloc obj cloexec fds =
     (let entry = Some \<lparr>fe_obj = obj, fe_cloexec = cloexec\<rparr>
      in case position Option.is_none fds of
           Some i \<Rightarrow> (as_i32 i, fds[i := entry])
         | None \<Rightarrow> let fds' = fds @ [entry] in (as_i32 (length fds' - 1), fds'))"

definition fd_alloc_flags :: "nat \<Rightarrow> bool \<Rightarrow> fds \<Rightarrow> i32 \<times> fds" where
  "fd_alloc_flags file cloexec fds = handle_alloc (HFile file) cloexec fds"

definition fd_alloc :: "nat \<Rightarrow> fds \<Rightarrow> i32 \<times> fds" where
  "fd_alloc file fds = fd_alloc_flags file False fds"

definition handle_alloc_event :: "nat \<Rightarrow> fds \<Rightarrow> i32 \<times> fds" where
  "handle_alloc_event ev fds = handle_alloc (HEvent ev) False fds"

definition handle_alloc_semaphore :: "nat \<Rightarrow> fds \<Rightarrow> i32 \<times> fds" where
  "handle_alloc_semaphore s fds = handle_alloc (HSemaphore s) False fds"

definition handle_alloc_mutant :: "nat \<Rightarrow> fds \<Rightarrow> i32 \<times> fds" where
  "handle_alloc_mutant m fds = handle_alloc (HMutant m) False fds"

definition handle_alloc_section :: "nat \<Rightarrow> fds \<Rightarrow> i32 \<times> fds" where
  "handle_alloc_section s fds = handle_alloc (HSection s) False fds"

definition handle_alloc_regkey :: "string \<Rightarrow> fds \<Rightarrow> i32 \<times> fds" where
  "handle_alloc_regkey path fds = handle_alloc (HRegKey path) False fds"

definition fd_close :: "i32 \<Rightarrow> fds \<Rightarrow> bool \<times> fds" where
  "fd_close fd fds =
     (case fd_entry_at fds fd of
        Some _ \<Rightarrow> (True, fds[as_usize fd := None])
      | None \<Rightarrow> (False, fds))"

definition fd_get_cloexec :: "i32 \<Rightarrow> fds \<Rightarrow> i32" where
  "fd_get_cloexec fd fds =
     (case fd_entry_at fds fd of
        Some e \<Rightarrow> if fe_cloexec e then 1 else 0
      | None \<Rightarrow> - 9)"

definition fd_set_cloexec :: "i32 \<Rightarrow> bool \<Rightarrow> fds \<Rightarrow> i32 \<times> fds" where
  "fd_set_cloexec fd on fds =
     (case fd_entry_at fds fd of
        Some e \<Rightarrow> (0, fds[as_usize fd := Some (e\<lparr>fe_cloexec := on\<rparr>)])
      | None \<Rightarrow> (- 9, fds))"

definition close_on_exec :: "fds \<Rightarrow> fds" where
  "close_on_exec fds =
     map (\<lambda>slot. case slot of Some e \<Rightarrow> if fe_cloexec e then None else Some e | None \<Rightarrow> None) fds"

text \<open>\<open>min.max(0) as usize\<close>: a negative number counts as zero.\<close>

definition at_least_zero :: "i32 \<Rightarrow> nat" where
  "at_least_zero n = nat (max (sint n) 0)"

definition fd_dup :: "i32 \<Rightarrow> i32 \<Rightarrow> fds \<Rightarrow> i32 \<times> fds" where
  "fd_dup oldfd mn fds =
     (case fd_entry_at fds oldfd of
        None \<Rightarrow> (- 9, fds)
      | Some e \<Rightarrow>
          let entry = Some (e\<lparr>fe_cloexec := False\<rparr>); m = at_least_zero mn
          in case find (\<lambda>i. fds ! i = None) [m..<length fds] of
               Some i \<Rightarrow> (as_i32 i, fds[i := entry])
             | None \<Rightarrow>
                 let fds' = fds @ replicate (m - length fds) None @ [entry]
                 in (as_i32 (length fds' - 1), fds'))"

definition fd_dup3 :: "i32 \<Rightarrow> i32 \<Rightarrow> bool \<Rightarrow> fds \<Rightarrow> i32 \<times> fds" where
  "fd_dup3 oldfd newfd cloexec fds =
     (case fd_entry_at fds oldfd of
        None \<Rightarrow> (- 9, fds)
      | Some e \<Rightarrow>
          if oldfd = newfd then (newfd, fds)
          else let n = at_least_zero newfd;
                   grown = fds @ replicate (n + 1 - length fds) None
               in (newfd, grown[n := Some (e\<lparr>fe_cloexec := cloexec\<rparr>)]))"

definition fd_dup2 :: "i32 \<Rightarrow> i32 \<Rightarrow> fds \<Rightarrow> i32 \<times> fds" where
  "fd_dup2 oldfd newfd fds = fd_dup3 oldfd newfd False fds"

section \<open>Paths\<close>

text \<open>One step of the component loop; the stack of components is kept in order.\<close>

definition push_comp :: "string list \<Rightarrow> string \<Rightarrow> string list" where
  "push_comp comps part =
     (if part = '''' \<or> part = ''.'' then comps
      else if part = ''..'' then butlast comps
      else comps @ [part])"

definition slash_split :: "string \<Rightarrow> string list" where
  "slash_split s = split_on (\<lambda>c. c = CHR ''/'') s"

definition path_comps :: "string \<Rightarrow> string \<Rightarrow> string list" where
  "path_comps cwd path =
     (let base = (if take 1 path = ''/'' then '''' else cwd)
      in foldl push_comp [] (slash_split base @ slash_split path))"

definition resolve_path :: "string \<Rightarrow> string \<Rightarrow> string" where
  "resolve_path cwd path = ''/'' @ join ''/'' (path_comps cwd path)"

section \<open>Frames, APCs and callbacks\<close>

record user_frame =
  uf_r15 :: u64
  uf_r14 :: u64
  uf_r13 :: u64
  uf_r12 :: u64
  uf_rbp :: u64
  uf_rbx :: u64
  uf_r11 :: u64
  uf_r10 :: u64
  uf_r9 :: u64
  uf_r8 :: u64
  uf_rax :: u64
  uf_rdx :: u64
  uf_rsi :: u64
  uf_rdi :: u64
  uf_rip :: u64
  uf_rflags :: u64
  uf_rsp :: u64
  uf_cs :: u64
  uf_ss :: u64

record apc_entry =
  apc_routine :: u64
  apc_arg1 :: u64
  apc_arg2 :: u64
  apc_arg3 :: u64

definition apc_queue :: "apc_entry \<Rightarrow> apc_entry list \<Rightarrow> apc_entry list" where
  "apc_queue e q = q @ [e]"

definition apc_take :: "apc_entry list \<Rightarrow> apc_entry option \<times> apc_entry list" where
  "apc_take q = (case q of [] \<Rightarrow> (None, []) | e # r \<Rightarrow> (Some e, r))"

definition apc_pending :: "apc_entry list \<Rightarrow> bool" where
  "apc_pending q \<longleftrightarrow> q \<noteq> []"

type_synonym callback_frames = "(u64 \<times> user_frame list) list"

definition push_callback_frame :: "u64 \<Rightarrow> user_frame \<Rightarrow> callback_frames \<Rightarrow> callback_frames" where
  "push_callback_frame tid f m =
     bt_insert tid ((case map_of m tid of Some st \<Rightarrow> st | None \<Rightarrow> []) @ [f]) m"

definition pop_callback_frame :: "u64 \<Rightarrow> callback_frames \<Rightarrow> user_frame option \<times> callback_frames" where
  "pop_callback_frame tid m =
     (case map_of m tid of
        None \<Rightarrow> (None, m)
      | Some st \<Rightarrow>
          let f = (if st = [] then None else Some (last st)); st' = butlast st
          in (f, if st' = [] then bt_remove tid m else bt_insert tid st' m))"

section \<open>The process table\<close>

record task =
  t_pid :: u64
  t_ppid :: u64
  t_uid :: u32
  t_gid :: u32
  t_space :: nat
  t_exit_status :: "i32 option"
  t_exited :: bool
  t_fds :: fds
  t_cwd :: string
  t_apcs :: "apc_entry list"
  t_is_pe :: bool
  t_active_threads :: u64

record task_table =
  tt_next_pid :: u64
  tt_tasks :: "(u64 \<times> task) list"
  tt_session_uid :: u64
  tt_session_name :: string
  tt_thread_exits :: "(u64 \<times> nat) list"

definition task_boot :: task_table where
  "task_boot = \<lparr>tt_next_pid = 1, tt_tasks = [], tt_session_uid = 0, tt_session_name = '''', tt_thread_exits = []\<rparr>"

definition set_session :: "string \<Rightarrow> u32 \<Rightarrow> task_table \<Rightarrow> task_table" where
  "set_session name uid s = s\<lparr>tt_session_uid := ucast uid, tt_session_name := name\<rparr>"

text \<open>\<open>stdin\<close> and \<open>out\<close> are the console objects a fresh table is seeded with.\<close>

definition task_new_with_ids ::
  "nat \<Rightarrow> nat \<Rightarrow> u64 \<Rightarrow> nat \<Rightarrow> u32 \<Rightarrow> u32 \<Rightarrow> task_table \<Rightarrow> task \<times> task_table" where
  "task_new_with_ids stdin out ppid space uid gid s =
     (let t = \<lparr>t_pid = tt_next_pid s, t_ppid = ppid, t_uid = uid, t_gid = gid, t_space = space,
               t_exit_status = None, t_exited = False, t_fds = seed_fds stdin out, t_cwd = ''/'',
               t_apcs = [], t_is_pe = False, t_active_threads = 0\<rparr>
      in (t, s\<lparr>tt_next_pid := tt_next_pid s + 1, tt_tasks := bt_insert (t_pid t) t (tt_tasks s)\<rparr>))"

definition task_new :: "nat \<Rightarrow> nat \<Rightarrow> u64 \<Rightarrow> nat \<Rightarrow> task_table \<Rightarrow> task \<times> task_table" where
  "task_new stdin out ppid space s =
     (let uid = ucast (tt_session_uid s) in task_new_with_ids stdin out ppid space uid uid s)"

text \<open>A change of one task through its shared pointer.\<close>

definition with_task :: "u64 \<Rightarrow> (task \<Rightarrow> task) \<Rightarrow> task_table \<Rightarrow> task_table" where
  "with_task pid f s =
     (case map_of (tt_tasks s) pid of
        Some t \<Rightarrow> s\<lparr>tt_tasks := bt_insert pid (f t) (tt_tasks s)\<rparr>
      | None \<Rightarrow> s)"

definition mark_pe :: "task \<Rightarrow> task" where
  "mark_pe t = t\<lparr>t_is_pe := True\<rparr>"

definition thread_spawned :: "task \<Rightarrow> task" where
  "thread_spawned t = t\<lparr>t_active_threads := t_active_threads t + 1\<rparr>"

definition thread_exited :: "task \<Rightarrow> bool \<times> task" where
  "thread_exited t = (t_active_threads t = 1, t\<lparr>t_active_threads := t_active_threads t - 1\<rparr>)"

definition swap_space :: "nat \<Rightarrow> task \<Rightarrow> nat \<times> task" where
  "swap_space new t = (t_space t, t\<lparr>t_space := new\<rparr>)"

definition register_thread_exit :: "u64 \<Rightarrow> nat \<Rightarrow> task_table \<Rightarrow> task_table" where
  "register_thread_exit tid ev s = s\<lparr>tt_thread_exits := bt_insert tid ev (tt_thread_exits s)\<rparr>"

text \<open>The event to signal, if one was registered.\<close>

definition signal_thread_exit :: "u64 \<Rightarrow> task_table \<Rightarrow> nat option \<times> task_table" where
  "signal_thread_exit tid s =
     (map_of (tt_thread_exits s) tid, s\<lparr>tt_thread_exits := bt_remove tid (tt_thread_exits s)\<rparr>)"

definition set_exit_status :: "u64 \<Rightarrow> i32 \<Rightarrow> task_table \<Rightarrow> task_table" where
  "set_exit_status me code s =
     with_task me (\<lambda>t. t\<lparr>t_exit_status := Some code, t_fds := [], t_exited := True\<rparr>) s"

text \<open>The children a call \<open>wait4(pid)\<close> of task \<open>me\<close> is about.\<close>

definition wait_match :: "u64 \<Rightarrow> u64 \<Rightarrow> task \<Rightarrow> bool" where
  "wait_match me pid t \<longleftrightarrow> t_ppid t = me \<and> (pid = - 1 \<or> t_pid t = pid)"

fun should_block_scan :: "u64 \<Rightarrow> u64 \<Rightarrow> bool \<Rightarrow> task list \<Rightarrow> bool" where
  "should_block_scan me pid has_child [] = has_child"
| "should_block_scan me pid has_child (t # ts) =
     (if wait_match me pid t
      then if t_exited t then False else should_block_scan me pid True ts
      else should_block_scan me pid has_child ts)"

definition should_block_in_wait4 :: "u64 \<Rightarrow> u64 \<Rightarrow> task_table \<Rightarrow> bool" where
  "should_block_in_wait4 me pid s = should_block_scan me pid False (map snd (tt_tasks s))"

definition pid_exited :: "u64 \<Rightarrow> task_table \<Rightarrow> bool" where
  "pid_exited pid s = (case map_of (tt_tasks s) pid of Some t \<Rightarrow> t_exited t | None \<Rightarrow> True)"

datatype wait4_result = Reaped u64 i32 | NoChild | WaitBlocks

text \<open>
  One round of the \<open>wait4\<close> loop: the reaped child with the status word stored for the caller,
  no child to wait for, or a sleep on the exit queue.
\<close>

definition wait4_round :: "u64 \<Rightarrow> u64 \<Rightarrow> task_table \<Rightarrow> wait4_result \<times> task_table" where
  "wait4_round me pid s =
     (case find (\<lambda>t. t_ppid t = me \<and> t_exited t \<and> (pid = - 1 \<or> t_pid t = pid)) (map snd (tt_tasks s)) of
        Some t \<Rightarrow>
          (Reaped (t_pid t) (push_bit 8 ((case t_exit_status t of Some c \<Rightarrow> c | None \<Rightarrow> 0) AND 0xFF)),
           s\<lparr>tt_tasks := bt_remove (t_pid t) (tt_tasks s)\<rparr>)
      | None \<Rightarrow>
          if list_ex (wait_match me pid) (map snd (tt_tasks s)) then (WaitBlocks, s) else (NoChild, s))"

section \<open>The table as a map from numbers\<close>

definition fd_slot :: "fds \<Rightarrow> nat \<Rightarrow> fd_entry option" where
  "fd_slot fds i = (if i < length fds then fds ! i else None)"

lemma fd_entry_at_slot: "fd_entry_at fds fd = fd_slot fds (as_usize fd)"
  by (simp add: fd_entry_at_def fd_slot_def)

lemma as_usize_sint:
  assumes "0 \<le> sint fd"
  shows "as_usize fd = nat (sint fd)"
proof -
  have "sint fd < 2 ^ 31" using sint_less [of fd] by simp
  then have "take_bit 64 (sint fd) = sint fd" using assms
    by (subst take_bit_int_eq_self_iff) simp
  then have "uint (scast fd :: u64) = sint fd"
    unfolding scast_eq by (simp only: uint_word_of_int_eq len_num1 len_bit0 len_of_numeral_defs) simp
  then show ?thesis by (simp add: as_usize_def unat_eq_nat_uint)
qed

lemma sint_as_i32:
  assumes "n < 2147483648"
  shows "sint (as_i32 n) = int n"
proof -
  have a: "unat (of_nat n :: i32) = n" using assms by (simp add: unat_of_nat)
  have "sint (of_nat n :: i32) = signed_take_bit 31 (int n)"
    using sint_uint [of "of_nat n :: i32"] a by (simp add: uint_nat)
  moreover have "signed_take_bit 31 (int n) = int n"
    using assms by (subst signed_take_bit_int_eq_self_iff) simp
  ultimately show ?thesis by (simp add: as_i32_def)
qed

lemma as_usize_as_i32: "n < 2147483648 \<Longrightarrow> as_usize (as_i32 n) = n"
  using sint_as_i32 [of n] as_usize_sint [of "as_i32 n"] by simp

lemma position_Some:
  "position P xs = Some i \<longleftrightarrow> i < length xs \<and> P (xs ! i) \<and> (\<forall>j < i. \<not> P (xs ! j))"
proof (induction xs arbitrary: i)
  case (Cons x xs)
  show ?case
    by (cases i) (auto simp: Cons.IH All_less_Suc2)
qed simp

lemma position_None: "position P xs = None \<longleftrightarrow> (\<forall>x \<in> set xs. \<not> P x)"
  by (induction xs) auto

lemma fd_slot_update:
  "i < length fds \<Longrightarrow> fd_slot (fds[i := e]) = (fd_slot fds)(i := e)"
  by (auto simp: fd_slot_def fun_eq_iff)

lemma fd_slot_pad [simp]: "fd_slot (fds @ replicate k None) = fd_slot fds"
  by (auto simp: fd_slot_def fun_eq_iff nth_append)

lemma fd_slot_append: "fd_slot (fds @ [e]) = (fd_slot fds)(length fds := e)"
  by (auto simp: fd_slot_def fun_eq_iff nth_append)

text \<open>The lowest free number at or above \<open>m\<close>.\<close>

definition lowest_free :: "nat \<Rightarrow> fds \<Rightarrow> nat" where
  "lowest_free m fds = (LEAST i. m \<le> i \<and> fd_slot fds i = None)"

lemma lowest_freeI:
  assumes "m \<le> i" "fd_slot fds i = None" "\<And>j. m \<le> j \<Longrightarrow> j < i \<Longrightarrow> fd_slot fds j \<noteq> None"
  shows "lowest_free m fds = i"
  unfolding lowest_free_def
proof (rule Least_equality)
  fix y assume "m \<le> y \<and> fd_slot fds y = None"
  then show "i \<le> y" using assms(3) [of y] by (cases "i \<le> y") auto
qed (use assms in simp)

lemma lowest_free_le: "lowest_free m fds \<le> max m (length fds)"
  unfolding lowest_free_def by (rule Least_le) (simp add: fd_slot_def)

lemma handle_alloc_slot:
  assumes "length fds < 2147483648" and a: "handle_alloc obj c fds = (h, fds')"
  shows "as_usize h = lowest_free 0 fds \<and>
    fd_slot fds' = (fd_slot fds)(lowest_free 0 fds \<mapsto> \<lparr>fe_obj = obj, fe_cloexec = c\<rparr>)"
proof (cases "position Option.is_none fds")
  case None
  then have "lowest_free 0 fds = length fds"
    by (intro lowest_freeI) (auto simp: position_None fd_slot_def Option.is_none_def)
  then show ?thesis
    using a None assms(1) by (auto simp: handle_alloc_def as_usize_as_i32 fd_slot_append Let_def)
next
  case (Some i)
  then have i: "i < length fds" "lowest_free 0 fds = i"
    by (auto simp: position_Some fd_slot_def Option.is_none_def intro!: lowest_freeI)
  then show ?thesis
    using a Some assms(1) by (auto simp: handle_alloc_def as_usize_as_i32 fd_slot_update)
qed

lemma fd_close_slot:
  "fd_close fd fds = (r, fds') \<Longrightarrow>
   (r \<longleftrightarrow> fd_slot fds (as_usize fd) \<noteq> None) \<and> fd_slot fds' = (fd_slot fds)(as_usize fd := None)"
  by (auto simp: fd_close_def fd_entry_at_def fd_slot_update fd_slot_def fun_eq_iff
           split: option.splits if_splits)

lemma find_upt_Some:
  assumes "find P [m..<n] = Some i"
  shows "m \<le> i \<and> i < n \<and> P i \<and> (\<forall>j. m \<le> j \<longrightarrow> j < i \<longrightarrow> \<not> P j)"
proof -
  obtain k where k: "k < n - m" "P (m + k)" "i = m + k" "\<forall>j < k. \<not> P (m + j)"
    using assms by (auto simp: find_Some_iff)
  have "\<not> P j" if "m \<le> j" "j < i" for j
    using k(3,4) that by (auto dest: spec [of _ "j - m"])
  then show ?thesis using k by auto
qed

lemma fd_dup_slot:
  assumes "length fds < 2147483648" and e: "fd_slot fds (as_usize old) = Some e"
    and a: "fd_dup old mn fds = (h, fds')"
  shows "as_usize h = lowest_free (at_least_zero mn) fds \<and>
    fd_slot fds' = (fd_slot fds)(lowest_free (at_least_zero mn) fds \<mapsto> e\<lparr>fe_cloexec := False\<rparr>)"
proof -
  let ?m = "at_least_zero mn"
  have m: "?m < 2147483648" using sint_less [of mn] by (auto simp: at_least_zero_def)
  show ?thesis
  proof (cases "find (\<lambda>i. fds ! i = None) [?m..<length fds]")
    case None
    then have "lowest_free ?m fds = max ?m (length fds)"
      by (intro lowest_freeI) (auto simp: find_None_iff fd_slot_def)
    moreover have "length fds + (?m - length fds) = max ?m (length fds)" by auto
    ultimately show ?thesis
      using a None assms(1) e m
      by (auto simp: fd_dup_def fd_entry_at_slot as_usize_as_i32 fd_slot_append Let_def
               simp flip: append_assoc)
  next
    case (Some i)
    then have i: "i < length fds" "lowest_free ?m fds = i"
      by (auto simp: fd_slot_def dest!: find_upt_Some intro!: lowest_freeI)
    then show ?thesis
      using a Some assms(1) e by (auto simp: fd_dup_def fd_entry_at_slot as_usize_as_i32 fd_slot_update Let_def)
  qed
qed

lemma fd_dup3_slot:
  assumes e: "fd_slot fds (as_usize old) = Some e" and pos: "0 \<le> sint new" and "old \<noteq> new"
    and a: "fd_dup3 old new c fds = (h, fds')"
  shows "h = new \<and> fd_slot fds' = (fd_slot fds)(as_usize new \<mapsto> e\<lparr>fe_cloexec := c\<rparr>)"
proof -
  have n: "at_least_zero new = as_usize new" using pos by (simp add: at_least_zero_def as_usize_sint max_def)
  show ?thesis
    using a assms(3) e by (auto simp: fd_dup3_def fd_entry_at_slot n fd_slot_update Let_def)
qed

lemma close_on_exec_slot:
  "fd_slot (close_on_exec fds) i = (case fd_slot fds i of Some e \<Rightarrow> if fe_cloexec e then None else Some e | None \<Rightarrow> None)"
  by (simp add: fd_slot_def close_on_exec_def)

text \<open>C22. The descriptor table is a map from numbers to entries: a new object goes to the lowest free
  number and nothing else changes; closing removes exactly the named entry and says whether
  there was one; \<open>dup\<close> copies an entry, with close-on-exec off, to the lowest free number at or
  above the given one; \<open>dup2\<close> and \<open>dup3\<close> bind exactly the given number when it is not negative;
  and \<open>execve\<close> keeps exactly the entries without close-on-exec.\<close>

theorem fd_table_refines_map:
  assumes "length fds < 2147483648"
  shows "(\<forall>h fds'. handle_alloc obj c fds = (h, fds') \<longrightarrow>
            as_usize h = lowest_free 0 fds \<and>
            fd_slot fds' = (fd_slot fds)(lowest_free 0 fds \<mapsto> \<lparr>fe_obj = obj, fe_cloexec = c\<rparr>)) \<and>
         (\<forall>r fds'. fd_close fd fds = (r, fds') \<longrightarrow>
            (r \<longleftrightarrow> fd_slot fds (as_usize fd) \<noteq> None) \<and> fd_slot fds' = (fd_slot fds)(as_usize fd := None)) \<and>
         (\<forall>e h fds'. fd_slot fds (as_usize fd) = Some e \<longrightarrow> fd_dup fd mn fds = (h, fds') \<longrightarrow>
            as_usize h = lowest_free (at_least_zero mn) fds \<and>
            fd_slot fds' = (fd_slot fds)(lowest_free (at_least_zero mn) fds \<mapsto> e\<lparr>fe_cloexec := False\<rparr>)) \<and>
         (\<forall>e h fds'. fd_slot fds (as_usize fd) = Some e \<longrightarrow> 0 \<le> sint new \<longrightarrow> fd \<noteq> new \<longrightarrow>
            fd_dup3 fd new c fds = (h, fds') \<longrightarrow>
            h = new \<and> fd_slot fds' = (fd_slot fds)(as_usize new \<mapsto> e\<lparr>fe_cloexec := c\<rparr>)) \<and>
         fd_slot (close_on_exec fds) =
           (\<lambda>i. case fd_slot fds i of Some e \<Rightarrow> if fe_cloexec e then None else Some e | None \<Rightarrow> None)"
proof (intro conjI)
  show "fd_slot (close_on_exec fds) =
      (\<lambda>i. case fd_slot fds i of Some e \<Rightarrow> if fe_cloexec e then None else Some e | None \<Rightarrow> None)"
    by (rule ext) (rule close_on_exec_slot)
qed (use handle_alloc_slot [OF assms] fd_close_slot fd_dup_slot [OF assms] fd_dup3_slot in \<open>blast+\<close>)

theorem fd_table_refines_map_witness:
  "\<exists>h fds'. fd_dup 1 5 (seed_fds 0 7) = (h, fds') \<and> as_usize h = 5 \<and>
     fd_slot fds' 5 = Some \<lparr>fe_obj = HFile 7, fe_cloexec = False\<rparr>"
proof -
  let ?fds = "seed_fds 0 7"
  have one: "as_usize 1 = 1" and five: "at_least_zero 5 = 5"
    using as_usize_as_i32 [of 1] by (simp_all add: as_i32_def at_least_zero_def)
  have e: "fd_slot ?fds (as_usize 1) = Some \<lparr>fe_obj = HFile 7, fe_cloexec = False\<rparr>"
    by (simp add: one fd_slot_def seed_fds_def Let_def)
  have l: "lowest_free 5 ?fds = 5"
    by (rule lowest_freeI) (auto simp: fd_slot_def seed_fds_def Let_def)
  obtain h fds' where d: "fd_dup 1 5 ?fds = (h, fds')" by fastforce
  have len: "length ?fds < 2147483648" by (simp add: seed_fds_def Let_def)
  note T = fd_table_refines_map [OF len, of "HFile 0" False 1 5 0]
  have "as_usize h = 5 \<and> fd_slot fds' = (fd_slot ?fds)(5 \<mapsto> \<lparr>fe_obj = HFile 7, fe_cloexec = False\<rparr>)"
    using T [THEN conjunct2, THEN conjunct2, THEN conjunct1, rule_format, OF e d] by (simp add: five l)
  then show ?thesis using d by auto
qed

text \<open>A negative new number is stored in slot 0 and returned as it is.\<close>

lemma fd_dup3_negative:
  assumes e: "fd_slot fds (as_usize old) = Some e" and "sint new < 0" "old \<noteq> new"
  shows "\<exists>fds'. fd_dup3 old new c fds = (new, fds') \<and> fd_slot fds' 0 = Some (e\<lparr>fe_cloexec := c\<rparr>)"
  using assms by (auto simp: fd_dup3_def fd_entry_at_slot at_least_zero_def max_def fd_slot_update Let_def)

section \<open>The contract of a descriptor table\<close>

locale descriptor_table =
  fixes ok :: "'t \<Rightarrow> bool"
    and slot :: "'t \<Rightarrow> nat \<Rightarrow> 'e option"
    and idx :: "'h \<Rightarrow> nat"
    and alloc :: "'e \<Rightarrow> 't \<Rightarrow> 'h \<times> 't"
    and close :: "'h \<Rightarrow> 't \<Rightarrow> bool \<times> 't"
  assumes alloc_law: "ok t \<Longrightarrow> alloc e t = (h, t') \<Longrightarrow>
      slot t (idx h) = None \<and> (\<forall>j < idx h. slot t j \<noteq> None) \<and> slot t' = (slot t)(idx h \<mapsto> e)"
    and close_law: "close h t = (r, t') \<Longrightarrow>
      (r \<longleftrightarrow> slot t (idx h) \<noteq> None) \<and> slot t' = (slot t)(idx h := None)"
    and ok_close: "ok t \<Longrightarrow> close h t = (r, t') \<Longrightarrow> ok t'"
begin

lemma alloc_close:
  assumes "ok t" "alloc e t = (h, t')" "close h t' = (r, t'')"
  shows "r \<and> slot t'' = slot t"
  using alloc_law [OF assms(1,2)] close_law [OF assms(3)] by auto

text \<open>The idiom behind redirection: a closed number is the next one handed out when all lower ones are taken.\<close>

lemma close_then_alloc:
  assumes "ok t" "close h t = (r, t')" "alloc e t' = (g, t'')" "\<forall>j < idx h. slot t j \<noteq> None"
  shows "idx g = idx h \<and> slot t'' = (slot t)(idx h \<mapsto> e)"
proof -
  note c = close_law [OF assms(2)] and a = alloc_law [OF ok_close [OF assms(1,2)] assms(3)]
  have "\<not> idx g < idx h" using a c assms(4) by auto
  moreover have "\<not> idx h < idx g" using a c by auto
  ultimately have "idx g = idx h" by simp
  then show ?thesis using a c by auto
qed

end

lemma lowest_free_None:
  "fd_slot fds (lowest_free m fds) = None \<and> (\<forall>j < lowest_free m fds. m \<le> j \<longrightarrow> fd_slot fds j \<noteq> None)"
proof -
  have "m \<le> max m (length fds) \<and> fd_slot fds (max m (length fds)) = None" by (simp add: fd_slot_def)
  then have "m \<le> lowest_free m fds \<and> fd_slot fds (lowest_free m fds) = None"
    unfolding lowest_free_def by (rule LeastI)
  then show ?thesis unfolding lowest_free_def by (auto dest: not_less_Least)
qed

interpretation fd_tab: descriptor_table "\<lambda>fds. length fds < 2147483648" fd_slot as_usize
  "\<lambda>e. handle_alloc (fe_obj e) (fe_cloexec e)" fd_close
proof
  fix t :: fds and e :: fd_entry and h t'
  assume "length t < 2147483648" "handle_alloc (fe_obj e) (fe_cloexec e) t = (h, t')"
  note L = handle_alloc_slot [OF this]
  have "\<lparr>fe_obj = fe_obj e, fe_cloexec = fe_cloexec e\<rparr> = e" by simp
  then show "fd_slot t (as_usize h) = None \<and> (\<forall>j < as_usize h. fd_slot t j \<noteq> None) \<and>
      fd_slot t' = (fd_slot t)(as_usize h \<mapsto> e)"
    using L lowest_free_None [of t 0] by auto
next
  fix t :: fds and h r t'
  assume "fd_close h t = (r, t')"
  then show "(r \<longleftrightarrow> fd_slot t (as_usize h) \<noteq> None) \<and> fd_slot t' = (fd_slot t)(as_usize h := None)"
    by (rule fd_close_slot)
qed (auto simp: fd_close_def split: option.splits)

section \<open>Resolved paths\<close>

definition plain_comp :: "string \<Rightarrow> bool" where
  "plain_comp c \<longleftrightarrow> c \<noteq> '''' \<and> c \<noteq> ''.'' \<and> c \<noteq> ''..'' \<and> CHR ''/'' \<notin> set c"

lemma push_comp_plain:
  "list_all plain_comp cs \<Longrightarrow> CHR ''/'' \<notin> set p \<Longrightarrow> list_all plain_comp (push_comp cs p)"
  by (auto simp: push_comp_def plain_comp_def list_all_iff dest: in_set_butlastD)

lemma foldl_push_plain:
  "list_all plain_comp cs \<Longrightarrow> \<forall>p \<in> set ps. CHR ''/'' \<notin> set p \<Longrightarrow> list_all plain_comp (foldl push_comp cs ps)"
  by (induction ps arbitrary: cs) (auto simp: push_comp_plain)

lemma foldl_push_append: "list_all plain_comp ps \<Longrightarrow> foldl push_comp cs ps = cs @ ps"
  by (induction ps arbitrary: cs) (auto simp: push_comp_def plain_comp_def)

lemma path_comps_plain: "list_all plain_comp (path_comps cwd path)"
  unfolding path_comps_def Let_def slash_split_def
  by (rule foldl_push_plain) (auto dest: split_on_pieces)

lemma slash_split_Nil [simp]: "slash_split '''' = ['''']"
  by (simp add: slash_split_def)

lemma slash_split_slash [simp]: "slash_split (CHR ''/'' # s) = '''' # slash_split s"
  by (simp add: slash_split_def)

lemma slash_split_append: "slash_split (s @ CHR ''/'' # t) = slash_split s @ slash_split t"
proof (induction "length s" arbitrary: s rule: less_induct)
  case less
  consider "\<forall>c \<in> set s. c \<noteq> CHR ''/''"
    | a b where "s = a @ CHR ''/'' # b" "\<forall>c \<in> set a. c \<noteq> CHR ''/''"
    using split_list_first [of "CHR ''/''" s] by fastforce
  then show ?case
  proof cases
    case 1
    then show ?thesis by (simp add: slash_split_def split_on_append split_on_no_sep)
  next
    case 2
    then have "slash_split (b @ CHR ''/'' # t) = slash_split b @ slash_split t"
      by (intro less) simp
    then show ?thesis using 2 by (simp add: slash_split_def split_on_append)
  qed
qed

lemma slash_split_join:
  assumes "list_all plain_comp cs"
  shows "filter (\<lambda>c. c \<noteq> '''') (slash_split (join ''/'' cs)) = cs"
proof (cases "cs = []")
  case False
  have "slash_split (join ''/'' cs) = cs"
    unfolding slash_split_def using assms False
    by (intro split_on_join) (auto simp: list_all_iff plain_comp_def)
  then show ?thesis using assms by (auto simp: list_all_iff plain_comp_def intro!: filter_True)
qed simp

lemma foldl_push_filter: "foldl push_comp cs (filter (\<lambda>c. c \<noteq> '''') ps) = foldl push_comp cs ps"
  by (induction ps arbitrary: cs) (auto simp: push_comp_def)

lemma path_comps_resolved: "path_comps c (resolve_path cwd path) = path_comps cwd path"
proof -
  let ?cs = "path_comps cwd path"
  have "foldl push_comp [] (slash_split (join ''/'' ?cs)) = foldl push_comp [] ?cs"
    using foldl_push_filter [of "[]" "slash_split (join ''/'' ?cs)"]
    by (simp add: slash_split_join path_comps_plain)
  also have "\<dots> = ?cs" by (simp add: foldl_push_append path_comps_plain)
  finally show ?thesis by (simp add: path_comps_def [of c] resolve_path_def push_comp_def)
qed

text \<open>Path resolution gives one canonical form: the result starts with a slash, its non-empty
  components are never a single or double dot, are exactly what the file system walks, and
  resolving it again from any directory changes nothing.  A relative path resolves as the
  absolute path made of the working directory and it.\<close>

theorem resolve_path_canonical:
  "(let p = resolve_path cwd path; cs = filter (\<lambda>c. c \<noteq> '''') (slash_split p)
    in hd p = CHR ''/'' \<and> list_all plain_comp cs \<and> p = ''/'' @ join ''/'' cs \<and> resolve_path other p = p) \<and>
   (take 1 path \<noteq> ''/'' \<longrightarrow> take 1 cwd = ''/'' \<longrightarrow>
      resolve_path cwd path = resolve_path other (cwd @ ''/'' @ path))"
proof -
  let ?cs = "path_comps cwd path"
  have f: "filter (\<lambda>c. c \<noteq> '''') (slash_split (resolve_path cwd path)) = ?cs"
    by (simp add: resolve_path_def slash_split_join path_comps_plain)
  have "path_comps other (cwd @ ''/'' @ path) = path_comps cwd path"
    if "take 1 path \<noteq> ''/''" "take 1 cwd = ''/''"
  proof -
    have "take 1 (cwd @ ''/'' @ path) = ''/''" using that(2) by (cases cwd) auto
    then show ?thesis using that(1) by (simp add: path_comps_def slash_split_append push_comp_def)
  qed
  then show ?thesis
    using path_comps_resolved [of other cwd path] path_comps_plain [of cwd path]
    by (simp add: Let_def f) (simp add: resolve_path_def)
qed

theorem resolve_path_canonical_witness:
  "resolve_path ''/home/ann'' ''../bob//./x'' = ''/home/bob/x'' \<and>
   resolve_path ''/home/ann'' ''../bob//./x'' = resolve_path ''/tmp'' ''/home/ann/../bob//./x''"
proof -
  have "resolve_path ''/home/ann'' ''../bob//./x'' = ''/home/bob/x''"
    by (simp add: resolve_path_def path_comps_def slash_split_def push_comp_def)
  then show ?thesis
    using resolve_path_canonical [of "''/home/ann''" "''../bob//./x''" "''/tmp''"] by simp
qed

section \<open>Exit and wait\<close>

text \<open>Every task is filed under its own number, and the table is ordered.\<close>

definition table_ok :: "task_table \<Rightarrow> bool" where
  "table_ok s \<longleftrightarrow> bt_sorted (tt_tasks s) \<and> (\<forall>(k, t) \<in> set (tt_tasks s). t_pid t = k)"

lemma table_ok_lookup:
  assumes "table_ok s"
  shows "t \<in> snd ` set (tt_tasks s) \<longleftrightarrow> map_of (tt_tasks s) (t_pid t) = Some t"
  using assms bt_sorted_distinct [of "tt_tasks s"]
  by (force simp: table_ok_def dest: map_of_SomeD intro: rev_image_eqI)

lemma set_bt_insert_distinct:
  "bt_sorted m \<Longrightarrow> set (bt_insert k v m) = insert (k, v) {e \<in> set m. fst e \<noteq> k}"
proof (induction k v m rule: bt_insert.induct)
  case (2 k v a b m)
  have "\<forall>e \<in> set m. a < fst e" using 2(2) by (auto simp: bt_sorted_def)
  moreover have "bt_sorted m" using 2(2) by (simp add: bt_sorted_def)
  ultimately show ?case using 2(1) by (cases "k < a"; cases "k = a") (auto 4 3 simp: not_less)
qed simp

lemma table_ok_insert:
  "table_ok s \<Longrightarrow> t_pid t = k \<Longrightarrow> table_ok (s\<lparr>tt_tasks := bt_insert k t (tt_tasks s)\<rparr>)"
  by (auto simp: table_ok_def set_bt_insert_distinct)

lemma table_ok_boot: "table_ok task_boot"
  by (simp add: table_ok_def task_boot_def bt_sorted_def)

lemma table_ok_new: "table_ok s \<Longrightarrow> task_new_with_ids i out pp sp u g s = (t, s') \<Longrightarrow> table_ok s'"
  using table_ok_insert [of s]
  by (auto simp: task_new_with_ids_def Let_def table_ok_def set_bt_insert_distinct)

lemma table_ok_with_task:
  assumes "table_ok s" "\<And>t. t_pid (f t) = t_pid t"
  shows "table_ok (with_task pid f s)"
proof (cases "map_of (tt_tasks s) pid")
  case (Some t)
  then have "t_pid t = pid" using assms(1) by (auto simp: table_ok_def dest: map_of_SomeD)
  then show ?thesis using Some assms by (simp add: with_task_def table_ok_insert)
qed (use assms in \<open>simp add: with_task_def\<close>)

lemma table_ok_wait4: "table_ok s \<Longrightarrow> wait4_round me pid s = (r, s') \<Longrightarrow> table_ok s'"
  by (auto simp: wait4_round_def table_ok_def bt_remove_def bt_sorted_def sorted_wrt_map
           intro: sorted_wrt_filter split: option.splits if_splits)

lemma should_block_iff:
  "should_block_scan me pid b ts \<longleftrightarrow>
     (b \<or> (\<exists>t \<in> set ts. wait_match me pid t)) \<and> (\<forall>t \<in> set ts. wait_match me pid t \<longrightarrow> \<not> t_exited t)"
  by (induction ts arbitrary: b) auto

lemma find_None_Some: "find P xs = (if \<exists>x \<in> set xs. P x then Some (hd (filter P xs)) else None)"
  by (induction xs) auto

lemma exited_find:
  "find (\<lambda>t. t_ppid t = me \<and> t_exited t \<and> (pid = - 1 \<or> t_pid t = pid)) ts =
   find (\<lambda>t. wait_match me pid t \<and> t_exited t) ts"
  by (rule find_cong) (auto simp: wait_match_def)

lemma set_exit_status_lookup:
  "map_of (tt_tasks (set_exit_status c code s)) =
   (case map_of (tt_tasks s) c of
      Some t \<Rightarrow> (map_of (tt_tasks s))(c \<mapsto> t\<lparr>t_exit_status := Some code, t_fds := [], t_exited := True\<rparr>)
    | None \<Rightarrow> map_of (tt_tasks s))"
  by (simp add: set_exit_status_def with_task_def split: option.split)

text \<open>C23. Exit and wait: a round of \<open>wait4\<close> reaps an exited matching child, removes exactly that
  child and reports its status byte; it reports that there is no child only when none matches;
  and it goes to sleep exactly when the predicate it sleeps on holds, which is when some child
  matches and no matching child has exited.  Once a matching child exits, that predicate is
  false and the next round reaps a child, so the sleeper is not left behind.\<close>

theorem wait4_reaps_exited:
  assumes ok: "table_ok s"
  shows "(case wait4_round me pid s of
            (Reaped c st, s') \<Rightarrow>
              \<exists>t. map_of (tt_tasks s) c = Some t \<and> wait_match me pid t \<and> t_exited t \<and>
                  st = push_bit 8 ((case t_exit_status t of Some x \<Rightarrow> x | None \<Rightarrow> 0) AND 0xFF) \<and>
                  map_of (tt_tasks s') = (map_of (tt_tasks s))(c := None)
          | (NoChild, s') \<Rightarrow> s' = s \<and> (\<forall>c t. map_of (tt_tasks s) c = Some t \<longrightarrow> \<not> wait_match me pid t)
          | (WaitBlocks, s') \<Rightarrow> s' = s) \<and>
         (fst (wait4_round me pid s) = WaitBlocks \<longleftrightarrow> should_block_in_wait4 me pid s) \<and>
         (\<forall>c t. map_of (tt_tasks s) c = Some t \<longrightarrow> wait_match me pid t \<longrightarrow>
            \<not> should_block_in_wait4 me pid (set_exit_status c code s) \<and>
            (\<exists>r st. fst (wait4_round me pid (set_exit_status c code s)) = Reaped r st))"
proof (intro conjI allI impI)
  let ?P = "\<lambda>t. wait_match me pid t \<and> t_exited t"
  have set_tasks: "t \<in> set (map snd (tt_tasks s)) \<longleftrightarrow> map_of (tt_tasks s) (t_pid t) = Some t" for t
    using table_ok_lookup [OF ok, of t] by simp
  have key: "t_pid t = c" if "map_of (tt_tasks s) c = Some t" for c t
    using that ok by (auto simp: table_ok_def dest: map_of_SomeD)
  show "case wait4_round me pid s of
      (Reaped c st, s') \<Rightarrow>
        \<exists>t. map_of (tt_tasks s) c = Some t \<and> wait_match me pid t \<and> t_exited t \<and>
            st = push_bit 8 ((case t_exit_status t of Some x \<Rightarrow> x | None \<Rightarrow> 0) AND 0xFF) \<and>
            map_of (tt_tasks s') = (map_of (tt_tasks s))(c := None)
    | (NoChild, s') \<Rightarrow> s' = s \<and> (\<forall>c t. map_of (tt_tasks s) c = Some t \<longrightarrow> \<not> wait_match me pid t)
    | (WaitBlocks, s') \<Rightarrow> s' = s"
  proof (cases "find ?P (map snd (tt_tasks s))")
    case None
    then show ?thesis
      by (auto simp: wait4_round_def exited_find list_ex_iff dest!: map_of_SomeD)
  next
    case (Some t)
    then have "t \<in> set (map snd (tt_tasks s))" "?P t" by (auto simp: find_Some_iff)
    then show ?thesis using Some set_tasks by (simp add: wait4_round_def exited_find)
  qed
  show "fst (wait4_round me pid s) = WaitBlocks \<longleftrightarrow> should_block_in_wait4 me pid s"
    by (auto simp: wait4_round_def exited_find find_None_Some should_block_in_wait4_def
             should_block_iff list_ex_iff split: if_splits)
  fix c t assume t: "map_of (tt_tasks s) c = Some t" "wait_match me pid t"
  let ?t = "t\<lparr>t_exit_status := Some code, t_fds := [], t_exited := True\<rparr>"
  have "map_of (tt_tasks (set_exit_status c code s)) c = Some ?t"
    using t by (simp add: set_exit_status_lookup)
  then have "?t \<in> set (map snd (tt_tasks (set_exit_status c code s)))"
    by (auto dest: map_of_SomeD intro: rev_image_eqI)
  moreover have "?P ?t" using t by (simp add: wait_match_def)
  ultimately have ex: "\<exists>x \<in> set (map snd (tt_tasks (set_exit_status c code s))). ?P x" by blast
  then show "\<not> should_block_in_wait4 me pid (set_exit_status c code s)"
    unfolding should_block_in_wait4_def should_block_iff by blast
  show "\<exists>r st. fst (wait4_round me pid (set_exit_status c code s)) = Reaped r st"
    unfolding wait4_round_def exited_find find_None_Some if_P [OF ex] by simp
qed

theorem wait4_reaps_exited_witness:
  "let s1 = snd (task_new 0 1 0 0 task_boot); s2 = snd (task_new 0 1 1 1 s1)
   in fst (wait4_round 1 (- 1) s2) = WaitBlocks \<and>
      (\<exists>r st. fst (wait4_round 1 (- 1) (set_exit_status 2 7 s2)) = Reaped r st)"
proof -
  let ?s1 = "snd (task_new 0 1 0 0 task_boot)"
  let ?s2 = "snd (task_new 0 1 1 1 ?s1)"
  have "table_ok ?s1" "table_ok ?s2"
    using table_ok_new [OF table_ok_boot] table_ok_new
    by (metis prod.collapse task_new_def)+
  note T = wait4_reaps_exited [OF this(2), of 1 "- 1" 7]
  have b: "should_block_in_wait4 1 (- 1) ?s2"
    by (simp add: should_block_in_wait4_def wait_match_def task_new_def task_new_with_ids_def task_boot_def Let_def)
  have "\<exists>t. map_of (tt_tasks ?s2) 2 = Some t \<and> wait_match 1 (- 1) t"
    by (simp add: wait_match_def task_new_def task_new_with_ids_def task_boot_def Let_def)
  then show ?thesis using T b by (auto simp: Let_def)
qed

section \<open>Callback frames and APCs\<close>

lemma bt_insert_remove_id:
  assumes "bt_sorted m"
  shows "map_of m k = None \<Longrightarrow> bt_remove k (bt_insert k v m) = m"
    and "map_of m k = Some w \<Longrightarrow> bt_insert k w (bt_insert k v m) = m"
  using assms by (auto intro!: bt_sorted_eqI simp: fun_eq_iff)

text \<open>Interrupted frames nest per thread: a pop gives back the frame last pushed and the table as it was.\<close>

lemma callback_push_pop:
  assumes "bt_sorted m" "map_of m tid \<noteq> Some []"
  shows "pop_callback_frame tid (push_callback_frame tid f m) = (Some f, m)"
  using assms
  by (cases "map_of m tid") (auto simp: pop_callback_frame_def push_callback_frame_def Let_def bt_insert_remove_id)

lemma apc_fifo: "q \<noteq> [] \<Longrightarrow> apc_take (apc_queue e q) = (Some (hd q), apc_queue e (tl q))"
  by (cases q) (auto simp: apc_take_def apc_queue_def)

end
