(* ===== verification/Console.thy ===== *)
theory Console
  imports Security
begin

text \<open>
  The console (\<open>kernel/src/console.rs\<close>): decoding of keyboard reports, line editing, the input
  queue that reads of descriptor 0 drain, and the secure attention sequence.  The serial
  output is the list of bytes written; \<open>sha\<close> is the hash function and \<open>d\<close> the disk behind the
  credential check.
\<close>

unbundle bit_operations_syntax

abbreviation key :: "char \<Rightarrow> byte" where
  "key c \<equiv> of_char c"

definition NL_KEY :: byte where "NL_KEY = 10"
definition BACKSPACE :: byte where "BACKSPACE = 8"
definition KC_DELETE :: byte where "KC_DELETE = 0x4C"

record console =
  c_queue :: "byte list"
  c_prev :: "byte list"
  c_line_len :: nat
  c_sak_active :: bool
  c_sak_buf :: "byte list"
  c_echo :: byte
  c_out :: "byte list"

definition console_boot :: console where
  "console_boot = \<lparr>c_queue = [], c_prev = replicate 6 0, c_line_len = 0, c_sak_active = False,
                   c_sak_buf = [], c_echo = 0, c_out = []\<rparr>"

definition set_echo :: "byte \<Rightarrow> console \<Rightarrow> console" where
  "set_echo mode c = c\<lparr>c_echo := mode\<rparr>"

definition serial_write :: "byte list \<Rightarrow> console \<Rightarrow> console" where
  "serial_write bytes c = c\<lparr>c_out := c_out c @ bytes\<rparr>"

section \<open>The keyboard layout\<close>

text \<open>The table of keys outside the letter range, with their plain, shifted and AltGr bytes.\<close>

definition key_table :: "(byte \<times> byte \<times> byte \<times> byte) list" where
  "key_table =
     [(0x1C, key CHR ''z'', key CHR ''Z'', 0), (0x1D, key CHR ''y'', key CHR ''Y'', 0),
      (0x14, key CHR ''q'', key CHR ''Q'', key CHR ''@''),
      (0x1E, key CHR ''1'', key CHR ''!'', 0), (0x1F, key CHR ''2'', key CHR 0x22, 0),
      (0x20, key CHR ''3'', 0, 0), (0x21, key CHR ''4'', key CHR ''$'', 0),
      (0x22, key CHR ''5'', key CHR ''%'', 0), (0x23, key CHR ''6'', key CHR ''&'', 0),
      (0x24, key CHR ''7'', key CHR ''/'', key CHR ''{''), (0x25, key CHR ''8'', key CHR ''('', key CHR ''[''),
      (0x26, key CHR ''9'', key CHR '')'', key CHR '']''), (0x27, key CHR ''0'', key CHR ''='', key CHR ''}''),
      (0x2D, 0, key CHR ''?'', key CHR 0x5C), (0x2E, 0, 0, 0),
      (0x28, NL_KEY, NL_KEY, 0), (0x2A, BACKSPACE, BACKSPACE, 0), (0x2B, 9, 9, 0), (0x2C, 32, 32, 0),
      (0x2F, 0, 0, 0), (0x30, key CHR ''+'', key CHR ''*'', key CHR ''~''), (0x31, key CHR ''#'', key CHR 0x27, 0),
      (0x33, 0, 0, 0), (0x34, 0, 0, 0), (0x35, 0, 0, 0),
      (0x36, key CHR '','', key CHR '';'', 0), (0x37, key CHR ''.'', key CHR '':'', 0),
      (0x38, key CHR ''-'', key CHR ''_'', 0), (0x64, key CHR ''<'', key CHR ''>'', key CHR ''|'')]"

definition ascii :: "byte \<Rightarrow> bool \<Rightarrow> bool \<Rightarrow> byte" where
  "ascii code shift altgr =
     (case (case map_of key_table code of
              Some r \<Rightarrow> Some r
            | None \<Rightarrow> if 0x04 \<le> code \<and> code \<le> 0x1D
                      then let c = key CHR ''a'' + (code - 0x04) in Some (c, c - 32, 0)
                      else None) of
        None \<Rightarrow> 0
      | Some (lo, hi, ag) \<Rightarrow> if altgr then ag else if shift then hi else lo)"

section \<open>Ordinary input\<close>

text \<open>One key of a report; the flag says whether a byte was queued.\<close>

definition feed_key :: "byte list \<Rightarrow> bool \<Rightarrow> bool \<Rightarrow> byte \<Rightarrow> console \<times> bool \<Rightarrow> console \<times> bool" where
  "feed_key prev shift altgr k st =
     (case st of (c, pushed) \<Rightarrow>
        let ch = ascii k shift altgr; echo = c_echo c
        in if k = 0 \<or> k \<in> set prev \<or> ch = 0 then (c, pushed)
           else if ch = BACKSPACE
           then if 0 < c_line_len c
                then let c1 = c\<lparr>c_line_len := c_line_len c - 1, c_queue := butlast (c_queue c)\<rparr>
                     in (if echo \<noteq> 2 then serial_write [8, 32, 8] c1 else c1, pushed)
                else (c, pushed)
           else let c1 = c\<lparr>c_queue := c_queue c @ [ch],
                           c_line_len := (if ch = NL_KEY then 0 else c_line_len c + 1)\<rparr>
                in (if echo = 1 \<and> ch \<noteq> NL_KEY then serial_write (as_bytes ''*'') c1
                    else if echo = 2 then c1 else serial_write [ch] c1, True))"

section \<open>The secure attention sequence\<close>

definition CRLF :: "byte list" where "CRLF = [13, 10]"

definition sak_begin :: "console \<Rightarrow> console" where
  "sak_begin c =
     serial_write (CRLF @ as_bytes ''-- THOS secure attention (kernel prompt, not an application) --'' @ CRLF @
                   as_bytes ''admin password: '') (c\<lparr>c_sak_active := True, c_sak_buf := []\<rparr>)"

text \<open>
  The check of a typed password against the stored credential; the outer \<open>None\<close> is a panic of
  the file system.
\<close>

definition sak_check :: "(byte list \<Rightarrow> byte list) \<Rightarrow> disk \<Rightarrow> byte list \<Rightarrow> bool option" where
  "sak_check sha d pw =
     (case ext2_open d of
        Inl _ \<Rightarrow> Some False
      | Inr fs \<Rightarrow>
          do { stored \<leftarrow> read_path fs d CRED_PATH;
               Some (case cred_load stored of
                       None \<Rightarrow> False
                     | Some c \<Rightarrow> (case from_utf8 pw of None \<Rightarrow> False | Some s \<Rightarrow> cred_verify sha c (cr_name c) s)) })"

text \<open>The program to start with uid 0, if any, after the sequence ends.\<close>

definition sak_finish :: "(byte list \<Rightarrow> byte list) \<Rightarrow> disk \<Rightarrow> console \<Rightarrow> (console \<times> byte list option) option" where
  "sak_finish sha d c =
     (let pw = c_sak_buf c; c1 = c\<lparr>c_sak_buf := [], c_sak_active := False\<rparr>
      in do { ok \<leftarrow> sak_check sha d pw;
              if \<not> ok then Some (serial_write (as_bytes ''THOS: SAK denied'' @ CRLF) c1, None)
              else let c2 = serial_write (as_bytes ''THOS: SAK accepted -- spawning a trusted uid-0 process'' @ CRLF) c1
                   in case ext2_open d of
                        Inl _ \<Rightarrow> Some (c2, None)
                      | Inr fs \<Rightarrow> do { bytes \<leftarrow> read_path fs d ''/elevated-check''; Some (c2, bytes) } })"

fun sak_feed :: "(byte list \<Rightarrow> byte list) \<Rightarrow> disk \<Rightarrow> byte list \<Rightarrow> bool \<Rightarrow> bool \<Rightarrow> byte list \<Rightarrow> byte list \<Rightarrow> console
    \<Rightarrow> (console \<times> byte list option) option" where
  "sak_feed sha d keys shift altgr prev [] c = Some (c\<lparr>c_prev := keys\<rparr>, None)"
| "sak_feed sha d keys shift altgr prev (k # ks) c =
     (let ch = ascii k shift altgr
      in if k = 0 \<or> k \<in> set prev \<or> ch = 0 then sak_feed sha d keys shift altgr prev ks c
         else if ch = BACKSPACE
         then if c_sak_buf c \<noteq> []
              then sak_feed sha d keys shift altgr prev ks
                     (serial_write [8, 32, 8] (c\<lparr>c_sak_buf := butlast (c_sak_buf c)\<rparr>))
              else sak_feed sha d keys shift altgr prev ks c
         else if ch = NL_KEY then sak_finish sha d ((serial_write CRLF c)\<lparr>c_prev := keys\<rparr>)
         else sak_feed sha d keys shift altgr prev ks
                (serial_write (as_bytes ''*'') (c\<lparr>c_sak_buf := c_sak_buf c @ [ch]\<rparr>)))"

section \<open>Reports and reads\<close>

text \<open>
  A report is the modifier byte and the six key codes.  The result is the new state, whether the
  readers are woken, and the program a completed attention sequence starts.
\<close>

definition attention :: "byte \<Rightarrow> byte list \<Rightarrow> console \<Rightarrow> bool" where
  "attention mods keys c \<longleftrightarrow>
     \<not> c_sak_active c \<and> mods AND 0x11 \<noteq> 0 \<and> mods AND 0x44 \<noteq> 0 \<and>
     KC_DELETE \<in> set keys \<and> KC_DELETE \<notin> set (c_prev c)"

definition feed_report :: "(byte list \<Rightarrow> byte list) \<Rightarrow> disk \<Rightarrow> byte \<Rightarrow> byte list \<Rightarrow> console
    \<Rightarrow> (console \<times> bool \<times> byte list option) option" where
  "feed_report sha d mods keys c =
     (let shift = (mods AND 0x22 \<noteq> 0); altgr = (mods AND 0x40 \<noteq> 0); prev = c_prev c
      in if attention mods keys c then Some (sak_begin (c\<lparr>c_prev := keys\<rparr>), False, None)
         else if c_sak_active c
         then map_option (\<lambda>(c', spawn). (c', False, spawn)) (sak_feed sha d keys shift altgr prev keys c)
         else let (c1, pushed) = fold (feed_key prev shift altgr) keys (c, False)
              in Some (c1\<lparr>c_prev := keys\<rparr>, pushed, None))"

definition console_read :: "nat \<Rightarrow> console \<Rightarrow> byte list \<times> console" where
  "console_read n c =
     (let m = min n (length (c_queue c)) in (take m (c_queue c), c\<lparr>c_queue := drop m (c_queue c)\<rparr>))"

definition has_input :: "console \<Rightarrow> bool" where
  "has_input c \<longleftrightarrow> c_queue c \<noteq> []"

section \<open>Line editing\<close>

text \<open>The unfinished line at the end of the queue and the finished lines before it.\<close>

definition open_line :: "byte list \<Rightarrow> byte list" where
  "open_line q = rev (takeWhile (\<lambda>b. b \<noteq> NL_KEY) (rev q))"

definition finished :: "byte list \<Rightarrow> byte list" where
  "finished q = rev (dropWhile (\<lambda>b. b \<noteq> NL_KEY) (rev q))"

definition line_inv :: "console \<Rightarrow> bool" where
  "line_inv c \<longleftrightarrow>
     length (open_line (c_queue c)) \<le> c_line_len c \<and>
     (length (open_line (c_queue c)) < c_line_len c \<longrightarrow> NL_KEY \<notin> set (c_queue c)) \<and>
     (\<forall>b \<in> set (c_queue c). b \<noteq> 0 \<and> b \<noteq> BACKSPACE \<and> b < 128)"

lemma open_line_snoc:
  "open_line (q @ [b]) = (if b = NL_KEY then [] else open_line q @ [b])"
  "finished (q @ [b]) = (if b = NL_KEY then q @ [b] else finished q)"
  by (auto simp: open_line_def finished_def)

lemma finished_open: "finished q @ open_line q = q"
  by (simp add: finished_def open_line_def flip: rev_append)

lemma open_line_take:
  "length (rev (takeWhile P (take n xs))) \<le> length (rev (takeWhile P xs)) \<and>
   (b \<in> set (take n xs) \<longrightarrow> \<not> P b \<longrightarrow> rev (takeWhile P (take n xs)) = rev (takeWhile P xs))"
proof (induction xs arbitrary: n)
  case (Cons x xs)
  then show ?case by (cases n) auto
qed simp

lemma open_line_drop:
  "length (open_line (drop m q)) \<le> length (open_line q) \<and>
   (NL_KEY \<in> set (drop m q) \<longrightarrow> open_line (drop m q) = open_line q)"
  using open_line_take [of "\<lambda>b. b \<noteq> NL_KEY" "length q - m" "rev q" NL_KEY]
  by (simp add: open_line_def rev_drop flip: set_rev [of "drop m q"])

lemma ascii_small: "ascii code shift altgr < 128"
proof (cases "map_of key_table code")
  case (Some r)
  obtain lo hi ag where r: "r = (lo, hi, ag)" by (metis prod_cases3)
  have "list_all (\<lambda>(k, lo, hi, ag). lo < 128 \<and> hi < 128 \<and> ag < 128) key_table"
    by (simp add: key_table_def NL_KEY_def BACKSPACE_def)
  moreover have "(code, lo, hi, ag) \<in> set key_table" using Some r by (auto dest: map_of_SomeD)
  ultimately show ?thesis using Some r by (auto simp: ascii_def list_all_iff)
next
  case None
  show ?thesis
  proof (cases "4 \<le> code \<and> code \<le> 0x1D")
    case True
    then have "unat code \<le> 29" by (simp add: word_le_nat_alt)
    then have "unat (93 + code) = 93 + unat code" "unat (61 + code) = 61 + unat code"
      by (simp_all add: unat_word_ariths)
    then show ?thesis using None True \<open>unat code \<le> 29\<close> by (simp add: ascii_def word_less_nat_alt)
  qed (use None in \<open>auto simp: ascii_def\<close>)
qed

lemma feed_key_effect:
  fixes k shift altgr
  defines "ch \<equiv> ascii k shift altgr"
  assumes "feed_key prev shift altgr k (c, p) = (c', p')"
  shows "c' = c \<or>
    ch = BACKSPACE \<and> 0 < c_line_len c \<and> c_line_len c' = c_line_len c - 1 \<and> c_queue c' = butlast (c_queue c) \<or>
    ch \<noteq> 0 \<and> ch \<noteq> BACKSPACE \<and> c_queue c' = c_queue c @ [ch] \<and>
    c_line_len c' = (if ch = NL_KEY then 0 else c_line_len c + 1)"
proof -
  have c': "c' = fst (feed_key prev shift altgr k (c, p))" using assms(2) by simp
  show ?thesis
    unfolding c' feed_key_def Let_def serial_write_def ch_def [symmetric] prod.case
    by (cases "k = 0 \<or> k \<in> set prev \<or> ch = 0"; cases "ch = BACKSPACE"; cases "0 < c_line_len c") simp_all
qed

lemma feed_key_line:
  assumes "line_inv c" "feed_key prev shift altgr k (c, p) = (c', p')"
  shows "line_inv c' \<and> (\<exists>t. finished (c_queue c') = finished (c_queue c) @ t)"
proof -
  let ?ch = "ascii k shift altgr"
  consider "c' = c"
    | "?ch = BACKSPACE" "0 < c_line_len c" "c_line_len c' = c_line_len c - 1" "c_queue c' = butlast (c_queue c)"
    | "?ch \<noteq> 0" "?ch \<noteq> BACKSPACE" "c_queue c' = c_queue c @ [?ch]"
      "c_line_len c' = (if ?ch = NL_KEY then 0 else c_line_len c + 1)"
    using feed_key_effect [OF assms(2)] by (elim disjE conjE) (assumption | rule that)+
  then show ?thesis
  proof cases
    case 1
    then show ?thesis using assms(1) by simp
  next
    case 2
    then show ?thesis
      using assms(1)
      by (cases "c_queue c" rule: rev_cases)
        (auto simp: line_inv_def open_line_snoc open_line_def finished_def split: if_splits)
  next
    case 3
    have "finished (c_queue c @ [?ch]) = finished (c_queue c) @ (if ?ch = NL_KEY then open_line (c_queue c) @ [?ch] else [])"
      using finished_open [of "c_queue c"] by (simp add: open_line_snoc flip: append_assoc)
    then show ?thesis
      using 3 assms(1) ascii_small [of k shift altgr] by (auto simp: line_inv_def open_line_snoc)
  qed
qed

lemma feed_keys_line:
  assumes "line_inv c" "fold (feed_key prev shift altgr) ks (c, p) = (c', p')"
  shows "line_inv c' \<and> (\<exists>t. finished (c_queue c') = finished (c_queue c) @ t)"
  using assms
proof (induction ks arbitrary: c p)
  case (Cons k ks)
  obtain c1 p1 where k: "feed_key prev shift altgr k (c, p) = (c1, p1)" by fastforce
  show ?case using feed_key_line [OF Cons.prems(1) k] Cons.IH [of c1 p1] Cons.prems(2) k by auto
qed auto

text \<open>Everything but the password buffer, the held keys and the output.\<close>

definition input_side :: "console \<Rightarrow> byte list \<times> nat \<times> byte" where
  "input_side c = (c_queue c, c_line_len c, c_echo c)"

lemma sak_feed_input:
  "sak_feed sha d keys shift altgr prev ks c = Some (c', sp) \<Longrightarrow> input_side c' = input_side c"
  by (induction sha d keys shift altgr prev ks c rule: sak_feed.induct)
    (auto simp: input_side_def serial_write_def sak_finish_def Let_def bind_eq_Some_conv
          split: if_splits sum.splits)

lemma line_inv_cong: "input_side c' = input_side c \<Longrightarrow> line_inv c' = line_inv c"
  by (simp add: input_side_def line_inv_def)

text \<open>C24. Line editing only touches the unfinished line: with the invariant that the edit counter
  covers the unfinished line (and exceeds it only when no finished line is queued), a report
  keeps the invariant and only ever appends to the finished lines, reads keep the invariant and
  return queued bytes in order, and every queued byte is a non-zero ASCII byte other than backspace.\<close>

theorem console_line_discipline:
  assumes inv: "line_inv c"
  shows "(\<forall>c' woke sp. feed_report sha d mods keys c = Some (c', woke, sp) \<longrightarrow>
            line_inv c' \<and> (\<exists>t. finished (c_queue c') = finished (c_queue c) @ t)) \<and>
         (\<forall>bs c'. console_read n c = (bs, c') \<longrightarrow>
            line_inv c' \<and> bs @ c_queue c' = c_queue c \<and> length bs = min n (length (c_queue c)))"
proof (intro conjI allI impI)
  fix c' woke sp assume f: "feed_report sha d mods keys c = Some (c', woke, sp)"
  consider "attention mods keys c" | "\<not> attention mods keys c" "c_sak_active c"
    | "\<not> attention mods keys c" "\<not> c_sak_active c" by blast
  then have "line_inv c' \<and> (\<exists>t. finished (c_queue c') = finished (c_queue c) @ t)"
  proof cases
    case 3
    obtain c1 p where k: "fold (feed_key (c_prev c) (mods AND 0x22 \<noteq> 0) (mods AND 0x40 \<noteq> 0)) keys (c, False) = (c1, p)"
      by fastforce
    then have "c' = c1\<lparr>c_prev := keys\<rparr>" using f 3 by (simp add: feed_report_def)
    then show ?thesis using feed_keys_line [OF inv k] by (simp add: line_inv_def)
  next
    case 1
    then have "input_side c' = input_side c"
      using f by (auto simp: feed_report_def sak_begin_def serial_write_def input_side_def Let_def)
    then show ?thesis using inv line_inv_cong [of c' c] by (simp add: input_side_def)
  next
    case 2
    then have "input_side c' = input_side c"
      using f by (auto simp: feed_report_def Let_def dest: sak_feed_input)
    then show ?thesis using inv line_inv_cong [of c' c] by (simp add: input_side_def)
  qed
  then show "line_inv c'" "\<exists>t. finished (c_queue c') = finished (c_queue c) @ t" by auto
next
  fix bs c' assume r: "console_read n c = (bs, c')"
  let ?m = "min n (length (c_queue c))"
  have bs: "bs = take ?m (c_queue c)" "c_queue c' = drop ?m (c_queue c)" "c_line_len c' = c_line_len c"
    using r by (auto simp: console_read_def Let_def)
  then show "bs @ c_queue c' = c_queue c" "length bs = min n (length (c_queue c))" by simp_all
  show "line_inv c'"
    using inv open_line_drop [of ?m "c_queue c"] unfolding line_inv_def bs(2,3)
    by (auto dest: in_set_dropD)
qed

theorem console_line_discipline_witness:
  "\<exists>c1 c2 woke. feed_report (\<lambda>b. b) (\<lambda>_. 0) 0 [0x04, 0x28, 0x05, 0, 0, 0] console_boot = Some (c1, woke, None) \<and>
     feed_report (\<lambda>b. b) (\<lambda>_. 0) 0 [0x2A, 0x2A, 0, 0, 0, 0] c1 = Some (c2, False, None) \<and>
     c_queue c2 = [97, 10] \<and> line_inv c2"
proof -
  have boot: "line_inv console_boot" by (simp add: line_inv_def console_boot_def open_line_def)
  have k: "ascii 4 False False = 97" "ascii 40 False False = 10" "ascii 5 False False = 98" "ascii 42 False False = 8"
    by (simp_all add: ascii_def key_table_def NL_KEY_def BACKSPACE_def)
  obtain c1 where c1: "feed_report (\<lambda>b. b) (\<lambda>_. 0) 0 [0x04, 0x28, 0x05, 0, 0, 0] console_boot = Some (c1, True, None)"
    and q: "c_queue c1 = [97, 10, 98]" "c_line_len c1 = 1" "c_prev c1 = [4, 40, 5, 0, 0, 0]" "\<not> c_sak_active c1" "c_echo c1 = 0"
    by (simp add: feed_report_def attention_def feed_key_def console_boot_def k NL_KEY_def BACKSPACE_def
        serial_write_def Let_def)
  obtain c2 where c2: "feed_report (\<lambda>b. b) (\<lambda>_. 0) 0 [0x2A, 0x2A, 0, 0, 0, 0] c1 = Some (c2, False, None)"
    and q2: "c_queue c2 = [97, 10]"
    using q by (simp add: feed_report_def attention_def feed_key_def k NL_KEY_def BACKSPACE_def
        serial_write_def Let_def)
  have "line_inv c1" using console_line_discipline [OF boot] c1 by blast
  then have "line_inv c2" using console_line_discipline c2 by blast
  then show ?thesis using c1 c2 q2 by blast
qed

section \<open>The attention sequence\<close>

text \<open>What a report adds to the typed password, and whether it ends with Enter.\<close>

fun sak_typed :: "bool \<Rightarrow> bool \<Rightarrow> byte list \<Rightarrow> byte list \<Rightarrow> byte list \<Rightarrow> byte list \<times> bool" where
  "sak_typed shift altgr prev [] buf = (buf, False)"
| "sak_typed shift altgr prev (k # ks) buf =
     (let ch = ascii k shift altgr
      in if k = 0 \<or> k \<in> set prev \<or> ch = 0 then sak_typed shift altgr prev ks buf
         else if ch = NL_KEY then (buf, True)
         else sak_typed shift altgr prev ks (if ch = BACKSPACE then butlast buf else buf @ [ch]))"

lemma sak_finish_effect:
  assumes "sak_finish sha d c = Some (c', sp)"
  shows "\<not> c_sak_active c' \<and> c_sak_buf c' = [] \<and> (sp \<noteq> None \<longrightarrow> sak_check sha d (c_sak_buf c) = Some True)"
  using assms
  by (auto simp: sak_finish_def serial_write_def Let_def bind_eq_Some_conv split: if_splits sum.splits)

lemma NL_not_BS [simp]: "NL_KEY \<noteq> BACKSPACE" "BACKSPACE \<noteq> NL_KEY"
  by (simp_all add: NL_KEY_def BACKSPACE_def)

lemma sak_feed_effect:
  assumes "sak_feed sha d keys shift altgr prev ks c = Some (c', sp)" "c_sak_active c"
    and "sak_typed shift altgr prev ks (c_sak_buf c) = (pw, fin)"
  shows "if fin then \<not> c_sak_active c' \<and> c_sak_buf c' = [] \<and> (sp \<noteq> None \<longrightarrow> sak_check sha d pw = Some True)
         else c_sak_active c' \<and> c_sak_buf c' = pw \<and> sp = None"
  using assms
proof (induction ks arbitrary: c)
  case (Cons k ks)
  let ?ch = "ascii k shift altgr"
  consider "k = 0 \<or> k \<in> set prev \<or> ?ch = 0"
    | "\<not> (k = 0 \<or> k \<in> set prev \<or> ?ch = 0)" "?ch = BACKSPACE"
    | "\<not> (k = 0 \<or> k \<in> set prev \<or> ?ch = 0)" "?ch = NL_KEY"
    | "\<not> (k = 0 \<or> k \<in> set prev \<or> ?ch = 0)" "?ch \<noteq> BACKSPACE" "?ch \<noteq> NL_KEY"
    by blast
  then show ?case
  proof cases
    case 1
    then show ?thesis using Cons.IH [of c] Cons.prems by simp
  next
    case 2
    then show ?thesis
      using Cons.IH [of "serial_write [8, 32, 8] (c\<lparr>c_sak_buf := butlast (c_sak_buf c)\<rparr>)"] Cons.IH [of c] Cons.prems
      by (cases "c_sak_buf c = []") (simp_all add: serial_write_def)
  next
    case 3
    then show ?thesis
      using Cons.prems sak_finish_effect [of sha d "(serial_write CRLF c)\<lparr>c_prev := keys\<rparr>" c' sp]
      by (simp add: serial_write_def)
  next
    case 4
    then show ?thesis
      using Cons.IH [of "serial_write (as_bytes ''*'') (c\<lparr>c_sak_buf := c_sak_buf c @ [?ch]\<rparr>)"] Cons.prems
      by (simp add: serial_write_def)
  qed
qed auto



end
