(* ===== verification/Volumes.thy ===== *)
theory Volumes
  imports Ext2_Props
begin

text \<open>
  Read-only volumes beside ext2: the GUID partition table (\<open>kernel/src/gpt.rs\<close>), FAT16 and FAT32
  (\<open>fat.rs\<close>) and the device and drive-letter names that lead to them (\<open>device.rs\<close>).  As in the
  ext2 model, every sector can be read.  Following a cluster chain may never end: then the result
  is \<open>None\<close>; a slice out of range, which is a panic, is \<open>None\<close> as well.
\<close>

unbundle bit_operations_syntax

text \<open>\<open>read_sectors\<close> of both files: the driver is called for at most 64 sectors at a time.\<close>

definition vol_sectors :: "disk \<Rightarrow> u64 \<Rightarrow> u32 \<Rightarrow> byte list" where
  "vol_sectors d lba sectors =
     (let total = unat sectors in read_sectors d (unat lba) total 0 (replicate (total * SECTOR) 0))"

section \<open>Partition table\<close>

definition ESP_TYPE_GUID :: "byte list" where
  "ESP_TYPE_GUID = [0x28, 0x73, 0x2A, 0xC1, 0x1F, 0xF8, 0xD2, 0x11, 0xBA, 0x4B, 0x00, 0xA0, 0xC9, 0x3E, 0xC9, 0x3B]"

definition le64_at :: "byte list \<Rightarrow> nat \<Rightarrow> u64" where
  "le64_at xs off = of_nat (le_val (take 8 (drop off xs)))"

fun gpt_scan :: "u64 \<Rightarrow> byte list \<Rightarrow> byte list \<Rightarrow> nat \<Rightarrow> nat list \<Rightarrow> u64 option option" where
  "gpt_scan base want arr esize [] = Some None"
| "gpt_scan base want arr esize (i # is) =
     do { e \<leftarrow> get_range arr (i * esize) (i * esize + esize);
          let start = le64_at e 32
          in if take 16 e = want \<and> start \<noteq> 0 then Some (Some (base + start))
             else gpt_scan base want arr esize is }"

definition find_partition :: "disk \<Rightarrow> u64 \<Rightarrow> byte list \<Rightarrow> u64 option option" where
  "find_partition d base want =
     (let hdr = vol_sectors d (base + 1) 1
      in if take 8 hdr \<noteq> as_bytes ''EFI PART'' then Some None
         else let entry_lba = le64_at hdr 72; n = unat (le32_at hdr 80); esize = unat (le32_at hdr 84)
              in if esize < 128 \<or> n = 0 \<or> 512 < n then Some None
                 else let sectors = of_nat (div_ceil (n * esize) SECTOR)
                      in gpt_scan base want (vol_sectors d (base + entry_lba) sectors) esize [0..<n])"

definition find_esp :: "disk \<Rightarrow> u64 \<Rightarrow> u64 option option" where
  "find_esp d base = find_partition d base ESP_TYPE_GUID"

section \<open>FAT\<close>

definition EOC16 :: u32 where "EOC16 = 0xFFF8"
definition EOC32 :: u32 where "EOC32 = 0x0FFFFFF8"
definition ATTR_LFN :: byte where "ATTR_LFN = 0x0F"
definition ATTR_DIR :: byte where "ATTR_DIR = 0x10"

record fat =
  sec_per_clus :: u32
  fat_start :: u64
  root_dir_lba :: u64
  root_dir_sectors :: u32
  data_start_lba :: u64
  root_cluster :: u32
  is_fat32 :: bool

text \<open>Division rounding up on \<open>u32\<close>.\<close>

definition div_ceil32 :: "u32 \<Rightarrow> u32 \<Rightarrow> u32" where
  "div_ceil32 a b = (if a mod b = 0 then a div b else a div b + 1)"

definition fat_open :: "disk \<Rightarrow> u64 \<Rightarrow> (string, fat) result" where
  "fat_open d part_lba =
     (let bpb = vol_sectors d part_lba 1
      in if le16_at bpb 510 \<noteq> 0xAA55 then Inl ''FAT: no boot signature''
         else let bytes_per_sec = ucast (le16_at bpb 11) :: u32; spc = ucast (bpb ! 13) :: u32;
                  rsvd = ucast (le16_at bpb 14) :: u32; num_fats = ucast (bpb ! 16) :: u32;
                  root_entries = ucast (le16_at bpb 17) :: u32; tot16 = ucast (le16_at bpb 19) :: u32;
                  fatsz16 = ucast (le16_at bpb 22) :: u32; tot32 = le32_at bpb 32; fatsz32 = le32_at bpb 36
              in if bytes_per_sec \<noteq> of_nat SECTOR then Inl ''FAT: unsupported sector size''
                 else if spc = 0 \<or> num_fats = 0 then Inl ''FAT: bad BPB''
                 else let fatsz = (if fatsz16 \<noteq> 0 then fatsz16 else fatsz32);
                          total_sec = (if tot16 \<noteq> 0 then tot16 else tot32);
                          root_sec = div_ceil32 (root_entries * 32) bytes_per_sec;
                          first_data = rsvd + num_fats * fatsz + root_sec
                      in if total_sec \<le> first_data then Inl ''FAT: BPB sizes inconsistent''
                         else let clusters = (total_sec - first_data) div spc; f32 = (65525 \<le> clusters)
                              in Inr \<lparr>sec_per_clus = spc, fat_start = part_lba + ucast rsvd,
                                      root_dir_lba = part_lba + ucast (rsvd + num_fats * fatsz),
                                      root_dir_sectors = root_sec,
                                      data_start_lba = part_lba + ucast first_data,
                                      root_cluster = (if f32 then le32_at bpb 44 else 0), is_fat32 = f32\<rparr>)"

definition clus_lba :: "fat \<Rightarrow> u32 \<Rightarrow> u64" where
  "clus_lba fs clus = data_start_lba fs + (ucast clus - 2) * ucast (sec_per_clus fs)"

definition clus_bytes :: "fat \<Rightarrow> disk \<Rightarrow> u32 \<Rightarrow> byte list" where
  "clus_bytes fs d clus = vol_sectors d (clus_lba fs clus) (sec_per_clus fs)"

definition next_clus :: "fat \<Rightarrow> disk \<Rightarrow> u32 \<Rightarrow> u32 option" where
  "next_clus fs d clus =
     (let (ent, eoc) = (if is_fat32 fs then (4 :: u64, EOC32) else (2, EOC16));
          byte = ucast clus * ent;
          buf = vol_sectors d (fat_start fs + byte div of_nat SECTOR) 1;
          off = unat (byte mod of_nat SECTOR);
          val = (if is_fat32 fs then le32_at buf off AND 0x0FFFFFFF else ucast (le16_at buf off))
      in if val < 2 \<or> eoc \<le> val then None else Some val)"

partial_function (option) read_chain :: "fat \<Rightarrow> disk \<Rightarrow> u32 \<Rightarrow> nat \<Rightarrow> byte list \<Rightarrow> byte list option" where
  "read_chain fs d clus at_least out =
     (let out' = out @ clus_bytes fs d clus
      in if at_least \<noteq> 0 \<and> at_least \<le> length out' then Some out'
         else case next_clus fs d clus of
                Some n \<Rightarrow> read_chain fs d n at_least out'
              | None \<Rightarrow> Some out')"

definition fat_read_dir :: "fat \<Rightarrow> disk \<Rightarrow> u32 \<Rightarrow> byte list option" where
  "fat_read_dir fs d first_clus =
     (if \<not> is_fat32 fs \<and> first_clus = 0 then Some (vol_sectors d (root_dir_lba fs) (root_dir_sectors fs))
      else read_chain fs d first_clus 0 [])"

text \<open>The white space characters of Unicode, by the number of bytes they take at the end of a text.\<close>

definition ws_len :: "string \<Rightarrow> nat" where
  "ws_len s =
     (let n = length s; b = (\<lambda>i. of_char (s ! (n - i)) :: nat)
      in if 1 \<le> n \<and> (b 1 = 32 \<or> (9 \<le> b 1 \<and> b 1 \<le> 13)) then 1
         else if 2 \<le> n \<and> b 2 = 0xC2 \<and> (b 1 = 0x85 \<or> b 1 = 0xA0) then 2
         else if 3 \<le> n \<and> (b 3 = 0xE1 \<and> b 2 = 0x9A \<and> b 1 = 0x80 \<or>
                           b 3 = 0xE2 \<and> b 2 = 0x80 \<and> (b 1 \<le> 0x8A \<or> b 1 = 0xA8 \<or> b 1 = 0xA9 \<or> b 1 = 0xAF) \<or>
                           b 3 = 0xE2 \<and> b 2 = 0x81 \<and> b 1 = 0x9F \<or>
                           b 3 = 0xE3 \<and> b 2 = 0x80 \<and> b 1 = 0x80) then 3
         else 0)"

lemma ws_len_le: "ws_len s \<le> length s"
proof -
  have *: "(if 1 \<le> n \<and> A then 1 else if 2 \<le> n \<and> B then 2 else if 3 \<le> n \<and> C then 3 else 0) \<le> n"
    for n :: nat and A B C by auto
  show ?thesis unfolding ws_len_def Let_def by (rule *)
qed

function trim_end_ws :: "string \<Rightarrow> string" where
  "trim_end_ws s = (if ws_len s = 0 then s else trim_end_ws (take (length s - ws_len s) s))"
  by pat_completeness auto
termination
  by (relation "measure length") (use ws_len_le in \<open>auto simp: less_diff_conv2 le_less_trans\<close>)

declare trim_end_ws.simps [simp del]

text \<open>The short name of an entry; \<open>None\<close> when a part is not UTF-8.\<close>

definition short_name :: "byte list \<Rightarrow> string option" where
  "short_name ent =
     do { b \<leftarrow> from_utf8 (take 8 ent);
          e \<leftarrow> from_utf8 (take 3 (drop 8 ent));
          let ext = trim_end_ws e in Some (trim_end_ws b @ (if ext \<noteq> [] then ''.'' @ ext else [])) }"

function chunks32 :: "byte list \<Rightarrow> byte list list" where
  "chunks32 xs = (if length xs < 32 then [] else take 32 xs # chunks32 (drop 32 xs))"
  by pat_completeness auto
termination
  by (relation "measure length") auto

declare chunks32.simps [simp del]

definition ent_result :: "byte list \<Rightarrow> u32 \<times> u32 \<times> bool" where
  "ent_result ent =
     (push_bit 16 (ucast (le16_at ent 20)) OR ucast (le16_at ent 26), le32_at ent 28, ent ! 11 AND ATTR_DIR \<noteq> 0)"

fun dir_scan :: "string \<Rightarrow> byte list list \<Rightarrow> (u32 \<times> u32 \<times> bool) option" where
  "dir_scan name [] = None"
| "dir_scan name (ent # es) =
     (if ent ! 0 = 0 then None
      else if ent ! 0 = 0xE5 then dir_scan name es
      else if ent ! 11 AND ATTR_LFN = ATTR_LFN then dir_scan name es
      else case short_name ent of
             None \<Rightarrow> None
           | Some sname \<Rightarrow>
               if to_ascii_lowercase sname = to_ascii_lowercase name then Some (ent_result ent)
               else dir_scan name es)"

definition fat_lookup :: "fat \<Rightarrow> disk \<Rightarrow> u32 \<Rightarrow> string \<Rightarrow> (u32 \<times> u32 \<times> bool) option option" where
  "fat_lookup fs d dir_clus name =
     do { dat \<leftarrow> fat_read_dir fs d dir_clus; Some (dir_scan name (chunks32 dat)) }"

fun fat_read_comps :: "fat \<Rightarrow> disk \<Rightarrow> u32 \<Rightarrow> string list \<Rightarrow> byte list option option" where
  "fat_read_comps fs d clus [] = Some None"
| "fat_read_comps fs d clus (c # rest) =
     do { r \<leftarrow> fat_lookup fs d clus c;
          case r of
            None \<Rightarrow> Some None
          | Some (fc, sz, is_dir) \<Rightarrow>
              if rest = []
              then if is_dir then Some None
                   else if sz = 0 \<or> fc < 2 then Some (Some [])
                   else do { dat \<leftarrow> read_chain fs d fc (unat sz) []; Some (Some (take (unat sz) dat)) }
              else if \<not> is_dir then Some None
              else fat_read_comps fs d fc rest }"

definition fat_read_path :: "fat \<Rightarrow> disk \<Rightarrow> string \<Rightarrow> byte list option option" where
  "fat_read_path fs d path =
     (let comps = filter (\<lambda>s. s \<noteq> []) (split_on (\<lambda>c. c = CHR ''/'' \<or> c = CHR 0x5C) path)
      in if comps = [] then Some None
         else fat_read_comps fs d (if is_fat32 fs then root_cluster fs else 0) comps)"

section \<open>Device names\<close>

datatype device = DevExt2 | DevCdrom

definition to_posix :: "string \<Rightarrow> string" where
  "to_posix s =
     foldl (\<lambda>out part. (if 1 < length out then out @ ''/'' else out) @ part) ''/''
       (filter (\<lambda>p. p \<noteq> []) (split_on (\<lambda>c. c = CHR 0x5C \<or> c = CHR ''/'') s))"

definition strip_prefix :: "string \<Rightarrow> string \<Rightarrow> string option" where
  "strip_prefix p s = (if take (length p) s = p then Some (drop (length p) s) else None)"

definition DEV :: string where "DEV = CHR 0x5C # ''Device'' @ [CHR 0x5C]"

definition device_resolve :: "string \<Rightarrow> (device \<times> string) option" where
  "device_resolve win =
     (if 2 \<le> length win \<and> win ! 1 = CHR '':''
      then if lower_char (win ! 0) = CHR ''c'' then Some (DevExt2, to_posix (drop 2 win))
           else if lower_char (win ! 0) = CHR ''d'' then Some (DevCdrom, to_posix (drop 2 win))
           else None
      else case strip_prefix (DEV @ ''HarddiskVolume1'') win of
             Some r \<Rightarrow> Some (DevExt2, to_posix r)
           | None \<Rightarrow>
               case strip_prefix (DEV @ ''CdRom0'') win of
                 Some r \<Rightarrow> Some (DevCdrom, to_posix r)
               | None \<Rightarrow> if strip_prefix DEV win \<noteq> None then None else Some (DevExt2, to_posix win))"

definition open_cdrom :: "disk \<Rightarrow> fat option option" where
  "open_cdrom d =
     do { r \<leftarrow> find_esp d 51000;
          Some (case r of
                  None \<Rightarrow> None
                | Some lba \<Rightarrow> (case fat_open d lba of Inl _ \<Rightarrow> None | Inr fs \<Rightarrow> Some fs)) }"

section \<open>Cluster chains\<close>

lemma vol_sectors_flat:
  "vol_sectors d lba n = map d [unat lba * SECTOR ..< (unat lba + unat n) * SECTOR]"
  by (simp add: vol_sectors_def Let_def read_sectors_all)

lemma length_clus_bytes: "length (clus_bytes fs d c) = unat (sec_per_clus fs) * SECTOR"
  by (simp add: clus_bytes_def vol_sectors_flat algebra_simps)

text \<open>A list of clusters that the table links and ends.\<close>

fun is_chain :: "fat \<Rightarrow> disk \<Rightarrow> u32 list \<Rightarrow> bool" where
  "is_chain fs d [] \<longleftrightarrow> False"
| "is_chain fs d [c] \<longleftrightarrow> next_clus fs d c = None"
| "is_chain fs d (c # b # cs) \<longleftrightarrow> next_clus fs d c = Some b \<and> is_chain fs d (b # cs)"

abbreviation chain_bytes :: "fat \<Rightarrow> disk \<Rightarrow> u32 list \<Rightarrow> byte list" where
  "chain_bytes fs d cs \<equiv> concat (map (clus_bytes fs d) cs)"

lemma read_chain_whole:
  "is_chain fs d (c # cs) \<Longrightarrow> read_chain fs d c 0 out = Some (out @ chain_bytes fs d (c # cs))"
proof (induction cs arbitrary: c out)
  case Nil
  then show ?case by (subst read_chain.simps) simp
next
  case (Cons b cs)
  then show ?case by (subst read_chain.simps) simp
qed

lemma read_chain_prefix:
  "is_chain fs d (c # cs) \<Longrightarrow>
   \<exists>k. read_chain fs d c n out = Some (out @ chain_bytes fs d (take k (c # cs))) \<and>
       (length (c # cs) \<le> k \<or> n \<le> length (out @ chain_bytes fs d (take k (c # cs))))"
proof (induction cs arbitrary: c out)
  case Nil
  then show ?case by (intro exI [of _ 1]) (subst read_chain.simps, simp add: Let_def)
next
  case (Cons b cs)
  show ?case
  proof (cases "n \<noteq> 0 \<and> n \<le> length (out @ clus_bytes fs d c)")
    case True
    then show ?thesis by (intro exI [of _ 1]) (subst read_chain.simps, simp)
  next
    case False
    obtain k where k: "read_chain fs d b n (out @ clus_bytes fs d c) =
          Some ((out @ clus_bytes fs d c) @ chain_bytes fs d (take k (b # cs)))"
      "length (b # cs) \<le> k \<or> n \<le> length ((out @ clus_bytes fs d c) @ chain_bytes fs d (take k (b # cs)))"
      using Cons.IH [of b "out @ clus_bytes fs d c"] Cons.prems by auto
    have "read_chain fs d c n out = read_chain fs d b n (out @ clus_bytes fs d c)"
      using False Cons.prems by (subst read_chain.simps) (auto simp: Let_def)
    then show ?thesis using k by (intro exI [of _ "Suc k"]) auto
  qed
qed

lemma read_chain_take:
  assumes "is_chain fs d (c # cs)"
  shows "map_option (take n) (read_chain fs d c n []) = Some (take n (chain_bytes fs d (c # cs)))"
proof -
  obtain k where k: "read_chain fs d c n [] = Some (chain_bytes fs d (take k (c # cs)))"
    "length (c # cs) \<le> k \<or> n \<le> length (chain_bytes fs d (take k (c # cs)))"
    using read_chain_prefix [OF assms, of n "[]"] by auto
  have "chain_bytes fs d (c # cs) = chain_bytes fs d (take k (c # cs)) @ chain_bytes fs d (drop k (c # cs))"
    by (metis append_take_drop_id concat_append map_append)
  moreover have "chain_bytes fs d (drop k (c # cs)) = []" if "length (c # cs) \<le> k" using that by simp
  ultimately have "take n (chain_bytes fs d (c # cs)) = take n (chain_bytes fs d (take k (c # cs)))"
    using k(2) by auto
  then show ?thesis using k(1) by simp
qed

lemma read_chain_bounded:
  assumes "sec_per_clus fs \<noteq> 0" "n \<noteq> 0"
  shows "\<exists>r. read_chain fs d c n out = Some r"
proof (induction "n - length out" arbitrary: c out rule: less_induct)
  case less
  have pos: "0 < length (clus_bytes fs d c)"
    using assms(1) by (simp add: length_clus_bytes SECTOR_def unat_gt_0)
  show ?case
  proof (cases "n \<le> length (out @ clus_bytes fs d c)")
    case False
    then have "n - length (out @ clus_bytes fs d c) < n - length out"
      by (intro diff_less_mono2) (use pos in simp_all)
    then have "\<exists>r. read_chain fs d m n (out @ clus_bytes fs d c) = Some r" for m by (rule less)
    then show ?thesis using False
      by (subst read_chain.simps) (auto simp: Let_def split: option.split)
  qed (use assms(2) in \<open>subst read_chain.simps, simp\<close>)
qed

lemma read_chain_endless:
  assumes "c \<in> S" "\<forall>x \<in> S. \<exists>y \<in> S. next_clus fs d x = Some y"
  shows "read_chain fs d c 0 out = None"
proof -
  let ?P = "\<lambda>fs' d' b n (out :: byte list) (r :: byte list). fs' = fs \<longrightarrow> d' = d \<longrightarrow> n = 0 \<longrightarrow> b \<notin> S"
  have "?P fs' d' b n out r" if "read_chain fs' d' b n out = Some r" for fs' d' b n out r
  proof (rule read_chain.raw_induct [where P = ?P, OF _ that])
    fix rc fs' d' b n out r
    assume IH: "\<And>fs' d' b n out r. rc fs' d' b n out = Some r \<Longrightarrow> ?P fs' d' b n out r"
      and b: "(let out' = out @ clus_bytes fs' d' b
               in if n \<noteq> 0 \<and> n \<le> length out' then Some out'
                  else case next_clus fs' d' b of Some m \<Rightarrow> rc fs' d' m n out' | None \<Rightarrow> Some out') = Some r"
    show "?P fs' d' b n out r"
    proof (intro impI notI)
      assume e: "fs' = fs" "d' = d" "n = 0" "b \<in> S"
      then obtain y where "y \<in> S" "next_clus fs d b = Some y" using assms(2) by blast
      then show False using IH b e by (auto simp: Let_def)
    qed
  qed
  then show ?thesis using assms(1) by (cases "read_chain fs d c 0 out") auto
qed


text \<open>A one-cluster volume whose table links cluster 3 to itself and ends cluster 2.\<close>

definition tiny_fat :: fat where
  "tiny_fat = \<lparr>sec_per_clus = 1, fat_start = 0, root_dir_lba = 1, root_dir_sectors = 1, data_start_lba = 2,
               root_cluster = 0, is_fat32 = False\<rparr>"

definition tiny_disk :: disk where
  "tiny_disk a = (if a = 4 \<or> a = 5 then 0xFF else if a = 6 then 3 else if a = 1024 then 7 else 0)"

lemma le16_sector:
  assumes "off + 2 \<le> 512"
  shows "le16_at (vol_sectors d lba 1) off =
    of_nat (le_val [d (unat lba * 512 + off), d (Suc (unat lba * 512 + off))])"
proof -
  have "take 2 (drop off [unat lba * 512 ..< (unat lba + 1) * 512]) = [unat lba * 512 + off, Suc (unat lba * 512 + off)]"
  proof -
    let ?x = "unat lba * 512 + off"
    have "take 2 [?x ..< (unat lba + 1) * 512] = [?x ..< ?x + 2]" using assms by (intro take_upt) simp
    also have "\<dots> = [?x, Suc ?x]" by (simp add: upt_conv_Cons)
    finally show ?thesis by simp
  qed
  then show ?thesis by (simp add: le16_at_def vol_sectors_flat SECTOR_def take_map drop_map)
qed

lemma tiny_table: "next_clus tiny_fat tiny_disk 2 = None" "next_clus tiny_fat tiny_disk 3 = Some 3"
  by (simp_all add: next_clus_def tiny_fat_def tiny_disk_def le16_sector SECTOR_def EOC16_def)


section \<open>Partitions and names\<close>

lemma gpt_scan_total:
  assumes "\<forall>i \<in> set is. i * esize + esize \<le> length arr"
  shows "gpt_scan base want arr esize is =
    Some (map_option (\<lambda>i. base + le64_at (take esize (drop (i * esize) arr)) 32)
      (find (\<lambda>i. take 16 (take esize (drop (i * esize) arr)) = want \<and>
                 le64_at (take esize (drop (i * esize) arr)) 32 \<noteq> 0) is))"
  using assms by (induction "is") (auto simp: get_range_def Let_def)

text \<open>
  The entry array that is read covers every entry: the scan never slices out of range, because an
  entry count of at most 512 keeps the sector count within 32 bits.
\<close>

lemma find_partition_total: "find_partition d base want \<noteq> None"
proof -
  define hdr where "hdr = vol_sectors d (base + 1) 1"
  define n where "n = unat (le32_at hdr 80)"
  define es where "es = unat (le32_at hdr 84)"
  show ?thesis
  proof (cases "take 8 hdr \<noteq> as_bytes ''EFI PART'' \<or> es < 128 \<or> n = 0 \<or> 512 < n")
    case True
    then show ?thesis by (auto simp: find_partition_def hdr_def n_def es_def Let_def)
  next
    case False
    have es: "es < 4294967296" unfolding es_def using unsigned_less [of "le32_at hdr 84"] by simp
    have "n * es \<le> 512 * es" using False by simp
    then have "511 + n * es < Suc es * 512" unfolding mult_Suc by linarith
    then have c: "div_ceil (n * es) SECTOR \<le> es"
      using less_mult_imp_div_less [of "511 + n * es" "Suc es" 512] by (simp add: div_ceil_def SECTOR_def)
    then have u: "unat (of_nat (div_ceil (n * es) SECTOR) :: u32) = div_ceil (n * es) SECTOR"
      using es by (simp add: unat_of_nat)
    have cover: "n * es \<le> div_ceil (n * es) SECTOR * SECTOR"
      by (simp add: div_ceil_def SECTOR_def)
    have "i * es + es \<le> n * es" if "i < n" for i
      using that by (metis Suc_leI add.commute mult_Suc mult_le_mono1)
    moreover define arr where "arr = vol_sectors d (base + le64_at hdr 72) (of_nat (div_ceil (n * es) SECTOR))"
    have "length arr = div_ceil (n * es) SECTOR * SECTOR"
      by (simp add: arr_def vol_sectors_flat u add_mult_distrib)
    ultimately have "\<forall>i \<in> set [0..<n]. i * es + es \<le> length arr" using cover by fastforce
    moreover have "find_partition d base want = gpt_scan base want arr es [0..<n]"
      unfolding find_partition_def Let_def arr_def using False by (simp add: hdr_def n_def es_def)
    ultimately show ?thesis by (simp add: gpt_scan_total)
  qed
qed

lemma posix_tail:
  "1 < length out \<Longrightarrow>
   foldl (\<lambda>out part. (if 1 < length out then out @ ''/'' else out) @ part) out ps = out @ concat (map ((#) CHR ''/'') ps)"
proof (induction ps arbitrary: out)
  case (Cons p ps)
  have "1 < length (out @ ''/'' @ p)" using Cons.prems unfolding length_append by linarith
  from Cons.IH [OF this] show ?case using Cons.prems by simp
qed simp

lemma join_concat: "join ''/'' (p # ps) = p @ concat (map ((#) CHR ''/'') ps)"
  by (induction ps arbitrary: p) auto

text \<open>Every path on a device is a slash and its components with one slash between them.\<close>

lemma to_posix_join:
  "to_posix s = ''/'' @ join ''/'' (filter (\<lambda>p. p \<noteq> []) (split_on (\<lambda>c. c = CHR 0x5C \<or> c = CHR ''/'') s))"
proof -
  have "foldl (\<lambda>out part. (if 1 < length out then out @ ''/'' else out) @ part) ''/'' ps = ''/'' @ join ''/'' ps"
    if "list_all (\<lambda>p. p \<noteq> []) ps" for ps
  proof (cases ps)
    case (Cons p qs)
    then have "p \<noteq> []" using that by simp
    then show ?thesis using Cons posix_tail [of "''/'' @ p" qs] by (simp add: join_concat)
  qed simp
  then show ?thesis by (simp add: to_posix_def list_all_iff)
qed

text \<open>A device prefix is matched without a separator after it, so a longer device name is taken for a path.\<close>

lemma device_prefix_alias:
  "device_resolve (DEV @ ''HarddiskVolume10'' @ CHR 0x5C # ''x'') = Some (DevExt2, ''/0/x'')"
  by (simp add: device_resolve_def strip_prefix_def DEV_def to_posix_def)

end
