(* ===== verification/Paging.thy ===== *)
theory Paging
  imports Kernel_Prelude
begin

text \<open>
  Physical frames and page tables (\<open>kernel/src/mm.rs\<close>, the page-table walks of
  \<open>kernel/src/process.rs\<close>): the free list threaded through the free frames, the memory map that
  fills it, and the walks a process makes over its own four-level tables.
\<close>

unbundle bit_operations_syntax

section \<open>The frame allocator\<close>

definition FRAME_SIZE :: nat where "FRAME_SIZE = 4096"
definition DMA_ARENA_BYTES :: nat where "DMA_ARENA_BYTES = 1024 * 1024"

text \<open>
  A free frame holds the link to the next one in its first word: \<open>links\<close> is that word of every
  frame, by the address the kernel sees it at.  A null pointer is \<open>None\<close>.
\<close>

type_synonym links = "u64 \<Rightarrow> u64 option"

record frame_allocator =
  fa_head :: "u64 option"
  fa_free_count :: u64

definition fa_new :: frame_allocator where
  "fa_new = \<lparr>fa_head = None, fa_free_count = 0\<rparr>"

definition non_null :: "u64 \<Rightarrow> u64 option" where
  "non_null p = (if p = 0 then None else Some p)"

definition fa_push :: "u64 \<Rightarrow> u64 \<Rightarrow> frame_allocator \<times> links \<Rightarrow> frame_allocator \<times> links" where
  "fa_push hhdm pa st =
     (case st of (fa, m) \<Rightarrow>
        let node = pa + hhdm
        in (\<lparr>fa_head = non_null node, fa_free_count = fa_free_count fa + 1\<rparr>, m(node := fa_head fa)))"

text \<open>\<open>PhysFrame::containing_address\<close>.\<close>

definition frame_base :: "u64 \<Rightarrow> u64" where
  "frame_base pa = pa AND NOT 0xFFF"

definition fa_alloc :: "u64 \<Rightarrow> frame_allocator \<times> links \<Rightarrow> (u64 \<times> frame_allocator \<times> links) option" where
  "fa_alloc hhdm st =
     (case st of (fa, m) \<Rightarrow>
        case fa_head fa of
          None \<Rightarrow> None
        | Some node \<Rightarrow>
            Some (frame_base (node - hhdm),
                  \<lparr>fa_head = m node, fa_free_count = fa_free_count fa - 1\<rparr>, m))"

definition fa_dealloc :: "u64 \<Rightarrow> u64 \<Rightarrow> frame_allocator \<times> links \<Rightarrow> frame_allocator \<times> links" where
  "fa_dealloc hhdm frame st = fa_push hhdm frame st"

text \<open>
  The memory map: base, length and kind of each region.  Addresses are numbers here: a memory map
  ends well below the last page of the 64-bit space.
\<close>

record mem_entry =
  me_base :: nat
  me_length :: nat
  me_usable :: bool

definition align_up :: "nat \<Rightarrow> nat \<Rightarrow> nat" where
  "align_up v a = (v + a - 1) div a * a"

definition align_down :: "nat \<Rightarrow> nat \<Rightarrow> nat" where
  "align_down v a = v div a * a"

text \<open>\<open>max_by_key\<close>: the last of the longest.\<close>

fun max_len :: "mem_entry list \<Rightarrow> mem_entry option" where
  "max_len [] = None"
| "max_len (e # es) =
     (case max_len es of
        None \<Rightarrow> Some e
      | Some b \<Rightarrow> if me_length b < me_length e then Some e else Some b)"

definition dma_base :: "mem_entry list \<Rightarrow> nat option" where
  "dma_base es =
     map_option (\<lambda>e. align_up (me_base e) FRAME_SIZE)
       (max_len (filter (\<lambda>e. me_usable e \<and> DMA_ARENA_BYTES * 4 \<le> me_length e) es))"

text \<open>The frames of one region that go to the allocator, in order.\<close>

function region_frames :: "nat \<Rightarrow> nat \<Rightarrow> nat \<Rightarrow> nat list" where
  "region_frames dma pa e =
     (if pa + FRAME_SIZE \<le> e
      then (if dma \<le> pa \<and> pa < dma + DMA_ARENA_BYTES then [] else [pa]) @ region_frames dma (pa + FRAME_SIZE) e
      else [])"
  by pat_completeness auto
termination
  by (relation "measure (\<lambda>(dma, pa, e). e - pa)") (auto simp: FRAME_SIZE_def)

declare region_frames.simps [simp del]

definition map_frames :: "nat \<Rightarrow> mem_entry list \<Rightarrow> nat list" where
  "map_frames dma es =
     concat (map (\<lambda>e. if me_usable e
                      then region_frames dma (align_up (me_base e) FRAME_SIZE)
                             (align_down (me_base e + me_length e) FRAME_SIZE)
                      else []) es)"

record mem_stats =
  usable_bytes :: nat
  usable_frames :: nat
  largest_region_bytes :: nat

text \<open>\<open>None\<close>: no region is large enough for the DMA arena, a panic at boot.\<close>

definition mm_init :: "u64 \<Rightarrow> mem_entry list \<Rightarrow> frame_allocator \<times> links
    \<Rightarrow> (mem_stats \<times> nat \<times> frame_allocator \<times> links) option" where
  "mm_init hhdm es st =
     (case dma_base es of
        None \<Rightarrow> None
      | Some dma \<Rightarrow>
          let fs = map_frames dma es; us = filter me_usable es
          in Some (\<lparr>usable_bytes = sum_list (map me_length us), usable_frames = length fs,
                    largest_region_bytes = foldl max 0 (map me_length us)\<rparr>,
                   dma, fold (\<lambda>pa. fa_push hhdm (of_nat pa)) fs st))"

section \<open>Page-table walks\<close>

text \<open>The entry at an index of the table at a physical address.\<close>

type_synonym tables = "u64 \<Rightarrow> u64 \<Rightarrow> u64"

definition present :: "u64 \<Rightarrow> bool" where "present e \<longleftrightarrow> bit e 0"
definition writable :: "u64 \<Rightarrow> bool" where "writable e \<longleftrightarrow> bit e 1"
definition user_accessible :: "u64 \<Rightarrow> bool" where "user_accessible e \<longleftrightarrow> bit e 2"
definition huge_page :: "u64 \<Rightarrow> bool" where "huge_page e \<longleftrightarrow> bit e 7"
definition no_execute :: "u64 \<Rightarrow> bool" where "no_execute e \<longleftrightarrow> bit e 63"
definition pte_addr :: "u64 \<Rightarrow> u64" where "pte_addr e = e AND 0x000FFFFFFFFFF000"

fun walk :: "tables \<Rightarrow> nat \<Rightarrow> u64 \<Rightarrow> u64 list \<Rightarrow> u64 option" where
  "walk tb level table_phys [] = Some table_phys"
| "walk tb level table_phys (i # is) =
     (let e = tb table_phys i
      in if \<not> present e then None
         else if level < 3 \<and> huge_page e then None
         else walk tb (level + 1) (pte_addr e) is)"

definition page_index :: "u64 \<Rightarrow> u64 list" where
  "page_index virt = map (\<lambda>s. drop_bit s virt AND 0x1FF) [39, 30, 21, 12]"

definition translate :: "tables \<Rightarrow> u64 \<Rightarrow> u64 \<Rightarrow> u64 option" where
  "translate tb pml4 virt = map_option (\<lambda>t. t + (virt AND 0xFFF)) (walk tb 0 pml4 (page_index virt))"

definition indices :: "nat \<Rightarrow> u64 list" where
  "indices n = map of_nat [0..<n]"

definition virt_of :: "u64 \<Rightarrow> u64 \<Rightarrow> u64 \<Rightarrow> u64 \<Rightarrow> u64" where
  "virt_of i4 i3 i2 i1 = push_bit 39 i4 OR push_bit 30 i3 OR push_bit 21 i2 OR push_bit 12 i1"

text \<open>The calls \<open>for_each_user_page\<close> makes: address, frame, writable and executable.\<close>

definition for_each_user_page :: "tables \<Rightarrow> u64 \<Rightarrow> (u64 \<times> u64 \<times> bool \<times> bool) list" where
  "for_each_user_page tb pml4 =
     concat (map (\<lambda>i4. let e4 = tb pml4 i4 in if \<not> present e4 then [] else
     concat (map (\<lambda>i3. let e3 = tb (pte_addr e4) i3 in if \<not> present e3 \<or> huge_page e3 then [] else
     concat (map (\<lambda>i2. let e2 = tb (pte_addr e3) i2 in if \<not> present e2 \<or> huge_page e2 then [] else
     concat (map (\<lambda>i1. let e1 = tb (pte_addr e2) i1
                       in if \<not> present e1 \<or> \<not> user_accessible e1 then []
                          else [(virt_of i4 i3 i2 i1, pte_addr e1, writable e1, \<not> no_execute e1)])
       (indices 512))) (indices 512))) (indices 512))) (indices 256))"

text \<open>The frames \<open>free_user_address_space\<close> gives back, in order.\<close>

definition free_user_address_space :: "tables \<Rightarrow> u64 \<Rightarrow> u64 list" where
  "free_user_address_space tb pml4 =
     concat (map (\<lambda>i4. let e4 = tb pml4 i4 in if \<not> present e4 then [] else
     concat (map (\<lambda>i3. let e3 = tb (pte_addr e4) i3 in if \<not> present e3 \<or> huge_page e3 then [] else
     concat (map (\<lambda>i2. let e2 = tb (pte_addr e3) i2 in if \<not> present e2 \<or> huge_page e2 then [] else
     concat (map (\<lambda>i1. let e1 = tb (pte_addr e2) i1 in if present e1 then [frame_base (pte_addr e1)] else [])
       (indices 512)) @ [frame_base (pte_addr e2)]) (indices 512)) @ [frame_base (pte_addr e3)])
       (indices 512)) @ [frame_base (pte_addr e4)]) (indices 256)) @ [frame_base pml4]"

text \<open>A new address space: every entry of the kernel's top table but the first.\<close>

definition process_new :: "u64 \<Rightarrow> u64 \<Rightarrow> tables \<Rightarrow> tables" where
  "process_new kernel_pml4 pml4 tb = tb(pml4 := (tb kernel_pml4)(0 := 0))"

section \<open>The free list as a stack of frames\<close>

fun linked :: "links \<Rightarrow> u64 option \<Rightarrow> u64 list \<Rightarrow> bool" where
  "linked m h [] \<longleftrightarrow> h = None"
| "linked m h (p # ps) \<longleftrightarrow> h = Some p \<and> p \<noteq> 0 \<and> linked m (m p) ps"

definition free_frames :: "u64 \<Rightarrow> frame_allocator \<times> links \<Rightarrow> u64 list \<Rightarrow> bool" where
  "free_frames hhdm st xs \<longleftrightarrow>
     linked (snd st) (fa_head (fst st)) (map (\<lambda>x. x + hhdm) xs) \<and> distinct xs \<and>
     list_all (\<lambda>x. frame_base x = x) xs \<and> fa_free_count (fst st) = of_nat (length xs)"

lemma linked_cong: "\<forall>p \<in> set ps. m' p = m p \<Longrightarrow> linked m' h ps = linked m h ps"
  by (induction ps arbitrary: h) auto

lemma free_frames_new: "free_frames hhdm (fa_new, m) []"
  by (simp add: free_frames_def fa_new_def)

lemma free_frames_alloc:
  assumes "free_frames hhdm st xs"
  shows "case xs of
           [] \<Rightarrow> fa_alloc hhdm st = None
         | x # r \<Rightarrow> \<exists>st'. fa_alloc hhdm st = Some (x, st') \<and> free_frames hhdm st' r \<and> snd st' = snd st"
proof (cases xs)
  case (Cons x r)
  then show ?thesis using assms by (cases st) (auto simp: free_frames_def fa_alloc_def)
qed (use assms in \<open>auto simp: free_frames_def fa_alloc_def split: prod.split\<close>)

lemma free_frames_push:
  assumes "free_frames hhdm st xs" "x \<notin> set xs" "frame_base x = x" "x + hhdm \<noteq> 0"
  shows "free_frames hhdm (fa_dealloc hhdm x st) (x # xs)"
proof -
  obtain fa m where st: "st = (fa, m)" by fastforce
  have "linked (m(x + hhdm := fa_head fa)) (fa_head fa) (map (\<lambda>x. x + hhdm) xs)"
    using assms(1,2) linked_cong [of "map (\<lambda>x. x + hhdm) xs" "m(x + hhdm := fa_head fa)" m "fa_head fa"]
    by (auto simp: free_frames_def st)
  then show ?thesis
    using assms by (auto simp: free_frames_def st fa_dealloc_def fa_push_def non_null_def Let_def)
qed

text \<open>C27. The allocator is a stack of distinct page-aligned frames: allocation pops the top and fails
  only when the stack is empty, giving a frame back pushes it, the count is the length, and the
  contents of frames that are not on the stack do not matter to it.\<close>

theorem frame_allocator_refines:
  assumes inv: "free_frames hhdm st xs"
  shows "(case xs of
            [] \<Rightarrow> fa_alloc hhdm st = None
          | x # r \<Rightarrow> \<exists>st'. fa_alloc hhdm st = Some (x, st') \<and> free_frames hhdm st' r \<and> x \<notin> set r) \<and>
         (x \<notin> set xs \<and> frame_base x = x \<and> x + hhdm \<noteq> 0 \<longrightarrow> free_frames hhdm (fa_dealloc hhdm x st) (x # xs)) \<and>
         (y \<notin> set xs \<longrightarrow> free_frames hhdm (fst st, (snd st)(y + hhdm := w)) xs)"
proof (intro conjI impI)
  show "case xs of
      [] \<Rightarrow> fa_alloc hhdm st = None
    | x # r \<Rightarrow> \<exists>st'. fa_alloc hhdm st = Some (x, st') \<and> free_frames hhdm st' r \<and> x \<notin> set r"
    using free_frames_alloc [OF inv] inv by (auto simp: free_frames_def split: list.splits)
  show "free_frames hhdm (fst st, (snd st)(y + hhdm := w)) xs" if "y \<notin> set xs"
    using inv that linked_cong [of "map (\<lambda>x. x + hhdm) xs" "(snd st)(y + hhdm := w)" "snd st"]
    by (auto simp: free_frames_def)
qed (use free_frames_push [OF inv] in blast)

theorem frame_allocator_refines_witness:
  "\<exists>st st'. fa_dealloc 0x1000 0x5000 (fa_new, \<lambda>_. None) = st \<and>
     fa_alloc 0x1000 st = Some (0x5000, st') \<and> free_frames 0x1000 st' []"
proof -
  have "free_frames 0x1000 (fa_dealloc 0x1000 0x5000 (fa_new, \<lambda>_. None)) [0x5000]"
    using frame_allocator_refines [of "0x1000" "(fa_new, \<lambda>_. None)" "[]" "0x5000" 0 None, OF free_frames_new]
    by (simp add: frame_base_def)
  from frame_allocator_refines [OF this] show ?thesis by auto
qed

section \<open>What the memory map yields\<close>

lemma region_frames_iff:
  "p \<in> set (region_frames dma pa e) \<longleftrightarrow>
   (\<exists>k. p = pa + k * FRAME_SIZE) \<and> p + FRAME_SIZE \<le> e \<and> \<not> (dma \<le> p \<and> p < dma + DMA_ARENA_BYTES)"
proof (induction dma pa e rule: region_frames.induct)
  case (1 dma pa e)
  show ?case
  proof (cases "pa + FRAME_SIZE \<le> e")
    case True
    have "(\<exists>k. p = pa + k * FRAME_SIZE) \<longleftrightarrow> p = pa \<or> (\<exists>k. p = pa + FRAME_SIZE + k * FRAME_SIZE)"
    proof
      assume "\<exists>k. p = pa + k * FRAME_SIZE"
      then obtain k where "p = pa + k * FRAME_SIZE" by blast
      then show "p = pa \<or> (\<exists>k. p = pa + FRAME_SIZE + k * FRAME_SIZE)" by (cases k) auto
    qed (auto intro: exI [of _ 0] exI [of _ "Suc _"])
    then show ?thesis using 1 [OF True] True by (subst region_frames.simps) auto
  next
    case False
    then show ?thesis by (subst region_frames.simps) auto
  qed
qed

lemma region_frames_sorted: "sorted_wrt (<) (region_frames dma pa e)"
proof (induction dma pa e rule: region_frames.induct)
  case (1 dma pa e)
  then show ?case
    by (subst region_frames.simps) (auto simp: sorted_wrt_append region_frames_iff FRAME_SIZE_def)
qed

lemma align_up_bounds: "v \<le> align_up v FRAME_SIZE \<and> align_up v FRAME_SIZE < v + FRAME_SIZE \<and> align_up v FRAME_SIZE mod FRAME_SIZE = 0"
proof -
  have "(v + 4095) div 4096 * 4096 + (v + 4095) mod 4096 = v + 4095" "(v + 4095) mod 4096 < 4096"
    by (rule div_mult_mod_eq) simp
  moreover have "align_up v FRAME_SIZE = (v + 4095) div 4096 * 4096" by (simp add: align_up_def FRAME_SIZE_def)
  moreover have "(v + 4095) div 4096 * 4096 mod 4096 = 0" by simp
  ultimately show ?thesis unfolding FRAME_SIZE_def by (intro conjI) (linarith | metis)+
qed

lemma align_down_le: "align_down v FRAME_SIZE \<le> v"
  by (simp add: align_down_def FRAME_SIZE_def)

text \<open>Usable regions do not overlap.\<close>

fun regions_disjoint :: "mem_entry list \<Rightarrow> bool" where
  "regions_disjoint [] \<longleftrightarrow> True"
| "regions_disjoint (e # es) \<longleftrightarrow>
     list_all (\<lambda>f. me_usable e \<longrightarrow> me_usable f \<longrightarrow>
        me_base e + me_length e \<le> me_base f \<or> me_base f + me_length f \<le> me_base e) es \<and>
     regions_disjoint es"

lemma map_frames_Cons:
  "map_frames dma (e # es) =
     (if me_usable e then region_frames dma (align_up (me_base e) FRAME_SIZE)
                            (align_down (me_base e + me_length e) FRAME_SIZE) else []) @ map_frames dma es"
  by (simp add: map_frames_def)

lemma region_frames_inside:
  assumes "p \<in> set (region_frames dma (align_up b FRAME_SIZE) (align_down (b + n) FRAME_SIZE))"
  shows "p mod FRAME_SIZE = 0 \<and> b \<le> p \<and> p + FRAME_SIZE \<le> b + n \<and> \<not> (dma \<le> p \<and> p < dma + DMA_ARENA_BYTES)"
proof -
  obtain k where k: "p = align_up b FRAME_SIZE + k * FRAME_SIZE" "p + FRAME_SIZE \<le> align_down (b + n) FRAME_SIZE"
    "\<not> (dma \<le> p \<and> p < dma + DMA_ARENA_BYTES)" using assms by (auto simp: region_frames_iff)
  have "p mod FRAME_SIZE = 0" using k(1) align_up_bounds [of b] by (simp add: mod_add_left_eq [symmetric])
  then show ?thesis using k align_up_bounds [of b] align_down_le [of "b + n"] by linarith
qed

lemma map_frames_inside:
  assumes "p \<in> set (map_frames dma es)"
  shows "\<exists>e \<in> set es. me_usable e \<and> p mod FRAME_SIZE = 0 \<and> me_base e \<le> p \<and>
    p + FRAME_SIZE \<le> me_base e + me_length e \<and> \<not> (dma \<le> p \<and> p < dma + DMA_ARENA_BYTES)"
  using assms
proof (induction es)
  case (Cons e es)
  then show ?case
    using region_frames_inside [of p dma "me_base e" "me_length e"] by (auto simp: map_frames_Cons split: if_splits)
qed (simp add: map_frames_def)

lemma map_frames_distinct: "regions_disjoint es \<Longrightarrow> distinct (map_frames dma es)"
proof (induction es)
  case (Cons e es)
  let ?r = "region_frames dma (align_up (me_base e) FRAME_SIZE) (align_down (me_base e + me_length e) FRAME_SIZE)"
  have "p \<notin> set (map_frames dma es)" if "p \<in> set ?r" "me_usable e" for p
  proof
    assume "p \<in> set (map_frames dma es)"
    then obtain f where f: "f \<in> set es" "me_usable f" "me_base f \<le> p" "p + FRAME_SIZE \<le> me_base f + me_length f"
      using map_frames_inside by (meson)
    have "me_base e + me_length e \<le> me_base f \<or> me_base f + me_length f \<le> me_base e"
      using Cons.prems f that(2) by (auto simp: list_all_iff)
    then show False using region_frames_inside [OF that(1)] f by (auto simp: FRAME_SIZE_def)
  qed
  moreover have "distinct ?r" using region_frames_sorted strict_sorted_iff by blast
  ultimately show ?case using Cons by (auto simp: map_frames_Cons)
qed (simp add: map_frames_def)

lemma max_len_member: "max_len es = Some e \<Longrightarrow> e \<in> set es"
  by (induction es arbitrary: e) (auto split: option.splits if_splits)

lemma frame_base_aligned:
  assumes "take_bit 12 p = 0"
  shows "frame_base p = p"
proof (rule bit_eqI)
  fix n assume "possible_bit TYPE(64 word) n"
  have "frame_base p = p AND NOT (mask 12)" by (simp add: frame_base_def mask_eq_exp_minus_1)
  moreover have "\<not> bit p n" if "n < 12"
  proof
    assume "bit p n"
    then have "bit (take_bit 12 p) n" using that by (simp add: bit_take_bit_iff)
    then show False using assms by simp
  qed
  ultimately show "bit (frame_base p) n = bit p n"
    by (cases "n < 12") (auto simp: bit_simps dest: bit_imp_le_length)
qed

lemma frame_base_of_nat:
  assumes "p mod FRAME_SIZE = 0"
  shows "frame_base (of_nat p) = of_nat p"
proof (rule frame_base_aligned)
  have "take_bit 12 p = 0" using assms by (simp add: take_bit_eq_mod FRAME_SIZE_def)
  then show "take_bit 12 (of_nat p :: u64) = 0" unfolding take_bit_of_nat by simp
qed

lemma unat_of_nat_u64: "p < 2 ^ 64 \<Longrightarrow> unat (of_nat p :: u64) = p"
  by (simp add: unat_of_nat)

lemma of_nat_frame_inj: "p < 2 ^ 64 \<Longrightarrow> q < 2 ^ 64 \<Longrightarrow> (of_nat p :: u64) = of_nat q \<Longrightarrow> p = q"
  by (metis unat_of_nat_u64)

lemma free_frames_fold:
  assumes "free_frames hhdm st xs" "distinct ps" "\<forall>p \<in> set ps. p mod FRAME_SIZE = 0 \<and> p + unat hhdm < 2 ^ 64"
    and "0 < unat hhdm" "of_nat ` set ps \<inter> set xs = {}"
  shows "free_frames hhdm (fold (\<lambda>p. fa_push hhdm (of_nat p)) ps st) (rev (map of_nat ps) @ xs)"
  using assms(1,2,3,5)
proof (induction ps arbitrary: st xs)
  case (Cons p ps)
  have "unat (of_nat p + hhdm) = p + unat hhdm" using Cons.prems(3) by (simp add: unat_word_ariths unat_of_nat)
  then have "of_nat p + hhdm \<noteq> 0" using assms(4) by auto
  then have 1: "free_frames hhdm (fa_push hhdm (of_nat p) st) (of_nat p # xs)"
    using Cons.prems free_frames_push [of hhdm st xs "of_nat p"] frame_base_of_nat [of p]
    by (simp add: fa_dealloc_def)
  have "(of_nat p :: u64) \<notin> of_nat ` set ps"
  proof
    assume "(of_nat p :: u64) \<in> of_nat ` set ps"
    then obtain q where q: "q \<in> set ps" "(of_nat p :: u64) = of_nat q" by blast
    have "p < 2 ^ 64" "q < 2 ^ 64" using Cons.prems(3) q(1) by auto
    then show False using of_nat_frame_inj q Cons.prems(2) by auto
  qed
  then show ?case using Cons.IH [OF 1] Cons.prems by auto
qed simp

lemma arena_apart:
  assumes "p mod FRAME_SIZE = 0" "\<not> (dma \<le> p \<and> p < dma + DMA_ARENA_BYTES)" "dma mod FRAME_SIZE = 0"
  shows "p + FRAME_SIZE \<le> dma \<or> dma + DMA_ARENA_BYTES \<le> p"
proof (cases "p < dma")
  case True
  obtain a b where ab: "p = 4096 * a" "dma = 4096 * b"
    using assms by (auto simp: FRAME_SIZE_def elim!: dvdE simp flip: dvd_eq_mod_eq_0)
  then have "a < b" using True by simp
  then show ?thesis using ab by (simp add: FRAME_SIZE_def)
qed (use assms in auto)

text \<open>C28. After boot the allocator holds exactly the frames of the memory map: they are distinct,
  page-aligned, inside a usable region and outside the DMA arena, which itself starts page-aligned
  inside the longest usable region, and the statistics count them.\<close>

theorem boot_frames:
  assumes init: "mm_init hhdm es (fa_new, m) = Some (stats, dma, st)"
    and dj: "regions_disjoint es" and h: "0 < unat hhdm"
    and top: "list_all (\<lambda>e. me_base e + me_length e + unat hhdm < 2 ^ 64) es"
  shows "free_frames hhdm st (rev (map of_nat (map_frames dma es))) \<and>
         usable_frames stats = length (map_frames dma es) \<and>
         list_all (\<lambda>p. p mod FRAME_SIZE = 0 \<and> (p + FRAME_SIZE \<le> dma \<or> dma + DMA_ARENA_BYTES \<le> p) \<and>
           (\<exists>e \<in> set es. me_usable e \<and> me_base e \<le> p \<and> p + FRAME_SIZE \<le> me_base e + me_length e)) (map_frames dma es) \<and>
         (\<exists>e \<in> set es. me_usable e \<and> dma mod FRAME_SIZE = 0 \<and> me_base e \<le> dma \<and>
            dma + DMA_ARENA_BYTES \<le> me_base e + me_length e)"
proof -
  obtain e where e: "max_len (filter (\<lambda>e. me_usable e \<and> DMA_ARENA_BYTES * 4 \<le> me_length e) es) = Some e"
    "dma = align_up (me_base e) FRAME_SIZE"
    and st: "st = fold (\<lambda>pa. fa_push hhdm (of_nat pa)) (map_frames dma es) (fa_new, m)"
    "usable_frames stats = length (map_frames dma es)"
    using init by (auto simp: mm_init_def dma_base_def Let_def split: option.splits)
  have em: "e \<in> set es" "me_usable e" "DMA_ARENA_BYTES * 4 \<le> me_length e"
    using max_len_member [OF e(1)] by auto
  have small: "p mod FRAME_SIZE = 0 \<and> p + unat hhdm < 2 ^ 64" if p: "p \<in> set (map_frames dma es)" for p
  proof -
    obtain f where f: "f \<in> set es" "p mod FRAME_SIZE = 0" "p + FRAME_SIZE \<le> me_base f + me_length f"
      using map_frames_inside [OF p] by (elim bexE conjE)
    have "me_base f + me_length f + unat hhdm < 2 ^ 64" using top f(1) by (simp add: list_all_iff)
    then show ?thesis using f(2,3) by linarith
  qed
  have "free_frames hhdm st (rev (map of_nat (map_frames dma es)) @ [])"
    unfolding st(1)
    by (rule free_frames_fold [OF free_frames_new map_frames_distinct [OF dj] _ h]) (use small in auto)
  moreover have dma: "dma mod FRAME_SIZE = 0" "me_base e \<le> dma" "dma + DMA_ARENA_BYTES \<le> me_base e + me_length e"
    using align_up_bounds [of "me_base e"] em(3) by (auto simp: e(2) DMA_ARENA_BYTES_def FRAME_SIZE_def)
  moreover have "list_all (\<lambda>p. p mod FRAME_SIZE = 0 \<and> (p + FRAME_SIZE \<le> dma \<or> dma + DMA_ARENA_BYTES \<le> p) \<and>
      (\<exists>e \<in> set es. me_usable e \<and> me_base e \<le> p \<and> p + FRAME_SIZE \<le> me_base e + me_length e)) (map_frames dma es)"
    unfolding list_all_iff
  proof
    fix p assume p: "p \<in> set (map_frames dma es)"
    obtain f where f: "f \<in> set es" "me_usable f" "p mod FRAME_SIZE = 0" "me_base f \<le> p"
      "p + FRAME_SIZE \<le> me_base f + me_length f" "\<not> (dma \<le> p \<and> p < dma + DMA_ARENA_BYTES)"
      using map_frames_inside [OF p] by (elim bexE conjE)
    moreover have "p + FRAME_SIZE \<le> dma \<or> dma + DMA_ARENA_BYTES \<le> p"
      using f(3,6) dma(1) by (rule arena_apart)
    ultimately show "p mod FRAME_SIZE = 0 \<and> (p + FRAME_SIZE \<le> dma \<or> dma + DMA_ARENA_BYTES \<le> p) \<and>
      (\<exists>e \<in> set es. me_usable e \<and> me_base e \<le> p \<and> p + FRAME_SIZE \<le> me_base e + me_length e)" by blast
  qed
  ultimately show ?thesis using st(2) em by auto
qed

theorem boot_frames_witness:
  "\<exists>stats st. mm_init 0x1000 [\<lparr>me_base = 0x100000, me_length = 0x400000, me_usable = True\<rparr>] (fa_new, \<lambda>_. None) =
       Some (stats, 0x100000, st) \<and>
     free_frames 0x1000 st
       (rev (map of_nat (map_frames 0x100000 [\<lparr>me_base = 0x100000, me_length = 0x400000, me_usable = True\<rparr>])))"
proof -
  let ?es = "[\<lparr>me_base = 0x100000, me_length = 0x400000, me_usable = True\<rparr>]"
  have "dma_base ?es = Some 0x100000"
    by (simp add: dma_base_def DMA_ARENA_BYTES_def align_up_def FRAME_SIZE_def)
  then obtain stats st where i: "mm_init 0x1000 ?es (fa_new, \<lambda>_. None) = Some (stats, 0x100000, st)"
    by (simp add: mm_init_def Let_def)
  then show ?thesis using boot_frames [OF i] by simp
qed

section \<open>The walks agree\<close>

text \<open>Nine-bit table indices.\<close>

definition small :: "u64 \<Rightarrow> bool" where
  "small i \<longleftrightarrow> take_bit 9 i = i"

lemma small_bit: "small i \<Longrightarrow> bit i n \<Longrightarrow> n < 9"
  by (metis bit_take_bit_iff small_def)

lemma unat_take_bit: "unat (take_bit n (w :: u64)) = unat w mod 2 ^ n"
proof -
  have "unat (take_bit n w) = take_bit n (unat w)" by (rule unsigned_take_bit_eq)
  then show ?thesis by (simp only: take_bit_eq_mod [of n "unat w"])
qed

lemma small_iff: "small i \<longleftrightarrow> unat i < 512"
proof -
  have "unat (take_bit 9 i) = unat i mod 512" using unat_take_bit [of 9 i] by simp
  then show ?thesis by (metis small_def mod_less mod_less_divisor word_unat_eq_iff zero_less_numeral)
qed

lemma mask9: "(0x1FF :: u64) = mask 9"
  by (simp add: mask_eq_exp_minus_1)

lemma page_index_eq: "page_index v = map (\<lambda>s. take_bit 9 (drop_bit s v)) [39, 30, 21, 12]"
  unfolding page_index_def mask9 take_bit_eq_mask ..

lemma set_indices: "n \<le> 512 \<Longrightarrow> set (indices n) = {i. unat i < n}"
proof -
  assume n: "n \<le> 512"
  have "i \<in> set (indices n)" if "unat i < n" for i
    unfolding indices_def set_map using that by (intro image_eqI [of _ _ "unat i"]) auto
  moreover have "unat (of_nat k :: u64) < n" if "k < n" for k
    using that n by (simp add: unat_of_nat)
  ultimately show ?thesis by (auto simp: indices_def)
qed

lemma page_index_virt:
  assumes "small i4" "small i3" "small i2" "small i1"
  shows "page_index (virt_of i4 i3 i2 i1) = [i4, i3, i2, i1]"
proof -
  note sb = small_bit [OF assms(1)] small_bit [OF assms(2)] small_bit [OF assms(3)] small_bit [OF assms(4)]
  have "take_bit 9 (drop_bit 39 (virt_of i4 i3 i2 i1)) = i4"
    by (rule bit_eqI) (use sb in \<open>fastforce simp: virt_of_def bit_simps\<close>)
  moreover have "take_bit 9 (drop_bit 30 (virt_of i4 i3 i2 i1)) = i3"
    by (rule bit_eqI) (use sb in \<open>fastforce simp: virt_of_def bit_simps\<close>)
  moreover have "take_bit 9 (drop_bit 21 (virt_of i4 i3 i2 i1)) = i2"
    by (rule bit_eqI) (use sb in \<open>fastforce simp: virt_of_def bit_simps\<close>)
  moreover have "take_bit 9 (drop_bit 12 (virt_of i4 i3 i2 i1)) = i1"
    by (rule bit_eqI) (use sb in \<open>fastforce simp: virt_of_def bit_simps\<close>)
  ultimately show ?thesis by (simp add: page_index_eq)
qed

definition user_page :: "u64 \<Rightarrow> bool" where
  "user_page v \<longleftrightarrow> take_bit 12 v = 0 \<and> take_bit 47 v = v"

lemma user_page_bits: "user_page v \<Longrightarrow> bit v n \<Longrightarrow> 12 \<le> n \<and> n < 47"
  by (metis bit_0_eq bit_take_bit_iff bot_apply bot_bool_def not_le user_page_def)

lemma virt_page_index:
  assumes "user_page v"
  shows "v = virt_of (page_index v ! 0) (page_index v ! 1) (page_index v ! 2) (page_index v ! 3)"
proof (rule bit_eqI)
  fix n :: nat
  consider "n < 12" | "12 \<le> n" "n < 21" | "21 \<le> n" "n < 30" | "30 \<le> n" "n < 39" | "39 \<le> n" "n < 48" | "48 \<le> n"
    by linarith
  then show "bit v n = bit (virt_of (page_index v ! 0) (page_index v ! 1) (page_index v ! 2) (page_index v ! 3)) n"
    using user_page_bits [OF assms, of n]
    by cases (auto simp: page_index_eq virt_of_def bit_simps)
qed

lemma small_page_index: "i \<in> set (page_index v) \<Longrightarrow> small i"
  by (auto simp: page_index_eq small_def)

lemma user_page_virt:
  assumes "unat i4 < 256" "small i3" "small i2" "small i1"
  shows "user_page (virt_of i4 i3 i2 i1)"
proof -
  have "take_bit 8 i4 = i4"
    using assms(1) unat_take_bit [of 8 i4] unfolding word_unat_eq_iff by simp
  then have b4: "n < 8" if "bit i4 n" for n using that by (metis bit_take_bit_iff)
  note sb = small_bit [OF assms(2)] small_bit [OF assms(3)] small_bit [OF assms(4)]
  have "take_bit 12 (virt_of i4 i3 i2 i1) = 0"
    by (rule bit_eqI) (auto simp: virt_of_def bit_simps)
  moreover have "take_bit 47 (virt_of i4 i3 i2 i1) = virt_of i4 i3 i2 i1"
  proof (rule bit_eqI)
    fix n
    show "bit (take_bit 47 (virt_of i4 i3 i2 i1)) n = bit (virt_of i4 i3 i2 i1) n"
    proof (cases "n < 47")
      case False
      have "\<not> bit i4 (n - 39)" "\<not> bit i3 (n - 30)" "\<not> bit i2 (n - 21)" "\<not> bit i1 (n - 12)"
        using b4 [of "n - 39"] sb(1) [of "n - 30"] sb(2) [of "n - 21"] sb(3) [of "n - 12"] False by auto
      then show ?thesis using False by (simp add: virt_of_def bit_simps)
    qed (simp add: bit_take_bit_iff)
  qed
  ultimately show ?thesis by (simp add: user_page_def)
qed

lemma unat_small_256: "unat i < 256 \<Longrightarrow> small i"
  by (simp add: small_iff)

lemma user_page_index: "user_page v \<Longrightarrow> unat (page_index v ! 0) < 256"
proof -
  assume u: "user_page v"
  have "page_index v ! 0 = take_bit 8 (page_index v ! 0)"
    by (rule bit_eqI) (use user_page_bits [OF u] in \<open>fastforce simp: page_index_eq bit_simps\<close>)
  then have "unat (page_index v ! 0) = unat (page_index v ! 0) mod 2 ^ 8" by (metis unat_take_bit)
  also have "\<dots> < 256" by simp
  finally show ?thesis .
qed

text \<open>The table entry that maps a page.\<close>

definition leaf :: "tables \<Rightarrow> u64 \<Rightarrow> u64 \<Rightarrow> u64 option" where
  "leaf tb pml4 v =
     map_option (\<lambda>pt. tb pt (page_index v ! 3)) (walk tb 0 pml4 (take 3 (page_index v)))"

lemma UN_if: "(\<Union>i \<in> A. set (if c i then [] else f i)) = (\<Union>i \<in> {i \<in> A. \<not> c i}. set (f i))"
  by (auto split: if_splits)

lemma in_for_each:
  "(v, p, w, x) \<in> set (for_each_user_page tb pml4) \<longleftrightarrow>
   (\<exists>i4 i3 i2 i1. unat i4 < 256 \<and> unat i3 < 512 \<and> unat i2 < 512 \<and> unat i1 < 512 \<and>
      (let e4 = tb pml4 i4; e3 = tb (pte_addr e4) i3; e2 = tb (pte_addr e3) i2; e1 = tb (pte_addr e2) i1
       in present e4 \<and> present e3 \<and> \<not> huge_page e3 \<and> present e2 \<and> \<not> huge_page e2 \<and>
          present e1 \<and> user_accessible e1 \<and>
          v = virt_of i4 i3 i2 i1 \<and> p = pte_addr e1 \<and> w = writable e1 \<and> x = (\<not> no_execute e1)))"
  unfolding for_each_user_page_def Let_def set_concat set_map image_image UN_if
  by (simp add: set_indices) blast

lemma walk_four:
  assumes "\<not> huge_page (tb pml4 i4)"
  shows "walk tb 0 pml4 [i4, i3, i2, i1] = Some t \<longleftrightarrow>
    (let e4 = tb pml4 i4; e3 = tb (pte_addr e4) i3; e2 = tb (pte_addr e3) i2; e1 = tb (pte_addr e2) i1
     in present e4 \<and> present e3 \<and> \<not> huge_page e3 \<and> present e2 \<and> \<not> huge_page e2 \<and> present e1 \<and> t = pte_addr e1)"
  using assms by (auto simp: Let_def)

lemma page_index_four: "page_index v = [page_index v ! 0, page_index v ! 1, page_index v ! 2, page_index v ! 3]"
  by (simp add: page_index_def)

lemma user_page_offset: "user_page v \<Longrightarrow> v AND 0xFFF = 0"
proof -
  assume "user_page v"
  moreover have "v AND 0xFFF = take_bit 12 v" by (simp add: take_bit_eq_mask mask_eq_exp_minus_1)
  ultimately show ?thesis by (simp add: user_page_def)
qed

lemma visited_iff_translated:
  assumes nh: "\<forall>i. unat i < 256 \<longrightarrow> \<not> huge_page (tb pml4 i)"
  shows "(v, p, w, x) \<in> set (for_each_user_page tb pml4) \<longleftrightarrow>
    user_page v \<and> translate tb pml4 v = Some p \<and>
    (\<exists>e. leaf tb pml4 v = Some e \<and> user_accessible e \<and> w = writable e \<and> x = (\<not> no_execute e))"
    (is "?L \<longleftrightarrow> ?R")
proof
  assume ?L
  then obtain i4 i3 i2 i1 where i: "unat i4 < 256" "unat i3 < 512" "unat i2 < 512" "unat i1 < 512"
    and r: "let e4 = tb pml4 i4; e3 = tb (pte_addr e4) i3; e2 = tb (pte_addr e3) i2; e1 = tb (pte_addr e2) i1
       in present e4 \<and> present e3 \<and> \<not> huge_page e3 \<and> present e2 \<and> \<not> huge_page e2 \<and>
          present e1 \<and> user_accessible e1 \<and>
          v = virt_of i4 i3 i2 i1 \<and> p = pte_addr e1 \<and> w = writable e1 \<and> x = (\<not> no_execute e1)"
    unfolding in_for_each by blast
  let ?e = "tb (pte_addr (tb (pte_addr (tb (pte_addr (tb pml4 i4)) i3)) i2)) i1"
  have v: "v = virt_of i4 i3 i2 i1" using r by (simp add: Let_def)
  have sm: "small i4" "small i3" "small i2" "small i1" using i by (simp_all add: small_iff)
  have up: "user_page v" using i sm unfolding v by (intro user_page_virt)
  have ix: "page_index v = [i4, i3, i2, i1]" unfolding v by (rule page_index_virt) (use sm in auto)
  have w: "walk tb 0 pml4 [i4, i3, i2, i1] = Some p" using r nh i(1) by (subst walk_four) (auto simp: Let_def)
  then have "translate tb pml4 v = Some p" by (simp add: translate_def ix user_page_offset [OF up])
  moreover have "leaf tb pml4 v = Some ?e"
    unfolding leaf_def ix using r nh i(1) by (simp add: Let_def)
  moreover have "user_accessible ?e" "w = writable ?e" "x = (\<not> no_execute ?e)" using r by (simp_all add: Let_def)
  ultimately show ?R using up by blast
next
  assume R: ?R
  define i4 i3 i2 i1 where ids: "i4 = page_index v ! 0" "i3 = page_index v ! 1" "i2 = page_index v ! 2" "i1 = page_index v ! 3"
  have ix: "page_index v = [i4, i3, i2, i1]" unfolding ids by (rule page_index_four)
  have v: "v = virt_of i4 i3 i2 i1" unfolding ids using R by (intro virt_page_index) simp
  have i: "unat i4 < 256" "unat i3 < 512" "unat i2 < 512" "unat i1 < 512"
    using user_page_index [of v] R small_page_index [of _ v] by (simp_all add: ix small_iff)
  have "walk tb 0 pml4 [i4, i3, i2, i1] = Some p"
    using R by (auto simp: translate_def ix user_page_offset)
  then have W: "let e4 = tb pml4 i4; e3 = tb (pte_addr e4) i3; e2 = tb (pte_addr e3) i2; e1 = tb (pte_addr e2) i1
     in present e4 \<and> present e3 \<and> \<not> huge_page e3 \<and> present e2 \<and> \<not> huge_page e2 \<and> present e1 \<and> p = pte_addr e1"
    using nh i(1) by (subst (asm) walk_four) auto
  have "leaf tb pml4 v = Some (tb (pte_addr (tb (pte_addr (tb (pte_addr (tb pml4 i4)) i3)) i2)) i1)"
    unfolding leaf_def ix using W nh i(1) by (simp add: Let_def)
  then have "let e4 = tb pml4 i4; e3 = tb (pte_addr e4) i3; e2 = tb (pte_addr e3) i2; e1 = tb (pte_addr e2) i1
       in present e4 \<and> present e3 \<and> \<not> huge_page e3 \<and> present e2 \<and> \<not> huge_page e2 \<and>
          present e1 \<and> user_accessible e1 \<and>
          v = virt_of i4 i3 i2 i1 \<and> p = pte_addr e1 \<and> w = writable e1 \<and> x = (\<not> no_execute e1)"
    using R W v by (simp add: Let_def)
  then show ?L unfolding in_for_each using i by blast
qed

lemma distinct_concat_key:
  assumes "distinct js" "\<And>i. i \<in> set js \<Longrightarrow> distinct (map g (f i))"
    and "\<And>i x. i \<in> set js \<Longrightarrow> x \<in> set (f i) \<Longrightarrow> k (g x) = i"
  shows "distinct (map g (concat (map f js)))"
  using assms
proof (induction js)
  case (Cons i js)
  have IH: "distinct (map g (concat (map f js)))" using Cons by simp
  have "g x \<noteq> g y" if "x \<in> set (f i)" "j \<in> set js" "y \<in> set (f j)" for x j y
  proof
    assume "g x = g y"
    then have "i = j" using that Cons.prems(3) [of i x] Cons.prems(3) [of j y] by simp
    then show False using that(2) Cons.prems(1) by simp
  qed
  then have "g ` set (f i) \<inter> g ` set (concat (map f js)) = {}" by auto
  then show ?case using IH Cons.prems(2) [of i] by (simp add: distinct_append)
qed simp

lemma distinct_indices: "n \<le> 512 \<Longrightarrow> distinct (indices n)"
  unfolding indices_def distinct_map
proof
  assume n: "n \<le> 512"
  show "inj_on (of_nat :: nat \<Rightarrow> u64) (set [0..<n])"
    by (rule inj_onI) (use n of_nat_frame_inj in auto)
qed simp

lemma in_indices_small: "i \<in> set (indices n) \<Longrightarrow> n \<le> 512 \<Longrightarrow> small i"
  by (simp add: set_indices small_iff)

lemma for_each_distinct: "distinct (map fst (for_each_user_page tb pml4))"
proof -
  have ix: "page_index (virt_of a b c e) = [a, b, c, e]" if "small a" "small b" "small c" "small e" for a b c e
    using that by (rule page_index_virt)
  note D = distinct_concat_key [OF distinct_indices] and S = in_indices_small
  show ?thesis
    unfolding for_each_user_page_def Let_def
    apply (rule D [where k = "\<lambda>v. page_index v ! 0"])
      apply simp
     apply (simp, intro impI)
     apply (rule D [where k = "\<lambda>v. page_index v ! 1"])
       apply simp
      apply (simp, intro impI)
      apply (rule D [where k = "\<lambda>v. page_index v ! 2"])
        apply simp
       apply (simp, intro impI)
       apply (rule D [where k = "\<lambda>v. page_index v ! 3"])
    by (auto simp: ix S split: if_splits)
qed

lemma in_if: "x \<in> set (if c then [] else xs) \<longleftrightarrow> \<not> c \<and> x \<in> set xs" "x \<in> set (if c then [y] else []) \<longleftrightarrow> c \<and> x = y"
  by auto

lemma in_freed:
  "f \<in> set (free_user_address_space tb pml4) \<longleftrightarrow>
   f = frame_base pml4 \<or>
   (\<exists>i4. unat i4 < 256 \<and> present (tb pml4 i4) \<and>
     (let t4 = pte_addr (tb pml4 i4) in f = frame_base t4 \<or>
      (\<exists>i3. unat i3 < 512 \<and> present (tb t4 i3) \<and> \<not> huge_page (tb t4 i3) \<and>
        (let t3 = pte_addr (tb t4 i3) in f = frame_base t3 \<or>
         (\<exists>i2. unat i2 < 512 \<and> present (tb t3 i2) \<and> \<not> huge_page (tb t3 i2) \<and>
           (let t2 = pte_addr (tb t3 i2) in f = frame_base t2 \<or>
            (\<exists>i1. unat i1 < 512 \<and> present (tb t2 i1) \<and> f = frame_base (pte_addr (tb t2 i1)))))))))"
  unfolding free_user_address_space_def Let_def set_append set_concat set_map image_image Un_iff UN_iff in_if
  by (simp add: set_indices Bex_def) blast

lemma translated_freed:
  assumes nh: "\<forall>i. unat i < 256 \<longrightarrow> \<not> huge_page (tb pml4 i)" and "user_page v" "translate tb pml4 v = Some p"
  shows "frame_base p \<in> set (free_user_address_space tb pml4)"
proof -
  define i4 i3 i2 i1 where ids: "i4 = page_index v ! 0" "i3 = page_index v ! 1" "i2 = page_index v ! 2" "i1 = page_index v ! 3"
  have ix: "page_index v = [i4, i3, i2, i1]" unfolding ids by (rule page_index_four)
  have i: "unat i4 < 256" "unat i3 < 512" "unat i2 < 512" "unat i1 < 512"
    using user_page_index [OF assms(2)] small_page_index [of _ v] by (simp_all add: ix small_iff)
  have "walk tb 0 pml4 [i4, i3, i2, i1] = Some p"
    using assms(3) by (auto simp: translate_def ix user_page_offset [OF assms(2)])
  then have W: "let e4 = tb pml4 i4; e3 = tb (pte_addr e4) i3; e2 = tb (pte_addr e3) i2; e1 = tb (pte_addr e2) i1
     in present e4 \<and> present e3 \<and> \<not> huge_page e3 \<and> present e2 \<and> \<not> huge_page e2 \<and> present e1 \<and> p = pte_addr e1"
    using nh i(1) by (subst (asm) walk_four) auto
  then show ?thesis unfolding in_freed Let_def using i by blast
qed

lemma freed_reached:
  assumes nh: "\<forall>i. unat i < 256 \<longrightarrow> \<not> huge_page (tb pml4 i)" and f: "f \<in> set (free_user_address_space tb pml4)"
  shows "\<exists>ks t. walk tb 0 pml4 ks = Some t \<and> f = frame_base t \<and> length ks \<le> 4 \<and> list_all (\<lambda>k. unat k < 256) (take 1 ks)"
proof (cases "f = frame_base pml4")
  case True
  then show ?thesis by (intro exI [of _ "[]"]) auto
next
  case False
  then obtain i4 where i4: "unat i4 < 256" "present (tb pml4 i4)" and r4: "let t4 = pte_addr (tb pml4 i4) in f = frame_base t4 \<or>
      (\<exists>i3. unat i3 < 512 \<and> present (tb t4 i3) \<and> \<not> huge_page (tb t4 i3) \<and>
        (let t3 = pte_addr (tb t4 i3) in f = frame_base t3 \<or>
         (\<exists>i2. unat i2 < 512 \<and> present (tb t3 i2) \<and> \<not> huge_page (tb t3 i2) \<and>
           (let t2 = pte_addr (tb t3 i2) in f = frame_base t2 \<or>
            (\<exists>i1. unat i1 < 512 \<and> present (tb t2 i1) \<and> f = frame_base (pte_addr (tb t2 i1)))))))"
    using f unfolding in_freed by blast
  have w: "\<exists>t. walk tb 1 (pte_addr (tb pml4 i4)) ks = Some t \<and> f = frame_base t \<and> length ks \<le> 3 \<Longrightarrow> ?thesis" for ks
    by (rule exI [of _ "i4 # ks"]) (use i4 nh in auto)
  let ?t4 = "pte_addr (tb pml4 i4)"
  consider "f = frame_base ?t4"
    | i3 where "present (tb ?t4 i3)" "\<not> huge_page (tb ?t4 i3)" "f = frame_base (pte_addr (tb ?t4 i3))"
    | i3 i2 t3 where "present (tb ?t4 i3)" "\<not> huge_page (tb ?t4 i3)" "t3 = pte_addr (tb ?t4 i3)"
        "present (tb t3 i2)" "\<not> huge_page (tb t3 i2)" "f = frame_base (pte_addr (tb t3 i2))"
    | i3 i2 i1 t3 t2 where "present (tb ?t4 i3)" "\<not> huge_page (tb ?t4 i3)" "t3 = pte_addr (tb ?t4 i3)"
        "present (tb t3 i2)" "\<not> huge_page (tb t3 i2)" "t2 = pte_addr (tb t3 i2)"
        "present (tb t2 i1)" "f = frame_base (pte_addr (tb t2 i1))"
    using r4 unfolding Let_def by blast
  then show ?thesis
  proof cases
    case 1
    then show ?thesis by (intro w [of "[]"]) simp
  next
    case (2 i3)
    then show ?thesis by (intro w [of "[i3]"]) simp
  next
    case (3 i3 i2)
    then show ?thesis by (intro w [of "[i3, i2]"]) simp
  next
    case (4 i3 i2 i1)
    then show ?thesis by (intro w [of "[i3, i2, i1]"]) simp
  qed
qed

text \<open>C29. The walks over a process's page tables agree: the pages visited for a copy of the address
  space are exactly the user-half pages that translation finds with the user bit, each visited once
  with the frame and the rights of its entry; tearing the space down gives back the frame of every
  page translation finds, and only frames and tables reached through the user half (or the top
  table itself).\<close>

theorem page_walks_agree:
  assumes nh: "\<forall>i. unat i < 256 \<longrightarrow> \<not> huge_page (tb pml4 i)"
  shows "((v, p, w, x) \<in> set (for_each_user_page tb pml4) \<longleftrightarrow>
            user_page v \<and> translate tb pml4 v = Some p \<and>
            (\<exists>e. leaf tb pml4 v = Some e \<and> user_accessible e \<and> w = writable e \<and> x = (\<not> no_execute e))) \<and>
         distinct (map fst (for_each_user_page tb pml4)) \<and>
         (user_page v \<and> translate tb pml4 v = Some p \<longrightarrow> frame_base p \<in> set (free_user_address_space tb pml4)) \<and>
         (f \<in> set (free_user_address_space tb pml4) \<longrightarrow>
            (\<exists>ks t. walk tb 0 pml4 ks = Some t \<and> f = frame_base t \<and> length ks \<le> 4 \<and>
                    list_all (\<lambda>k. unat k < 256) (take 1 ks)))"
  using visited_iff_translated [of tb pml4, OF nh] for_each_distinct
    translated_freed [of tb pml4, OF nh] freed_reached [of tb pml4, OF nh] by blast

text \<open>One page at \<open>0x400000\<close>, behind four tables.\<close>

definition one_page :: tables where
  "one_page t i =
     (if t = 0x1000 \<and> i = 0 then 0x2007 else if t = 0x2000 \<and> i = 0 then 0x3007
      else if t = 0x3000 \<and> i = 2 then 0x4007 else if t = 0x4000 \<and> i = 0 then 0x5007 else 0)"

theorem page_walks_agree_witness:
  "(0x400000, 0x5000, True, True) \<in> set (for_each_user_page one_page 0x1000) \<and>
   0x5000 \<in> set (free_user_address_space one_page 0x1000)"
proof -
  have nh: "\<forall>i. unat i < 256 \<longrightarrow> \<not> huge_page (one_page 0x1000 i)"
    by (simp add: one_page_def huge_page_def)
  have u: "user_page 0x400000" by (simp add: user_page_def)
  have ix: "page_index 0x400000 = [0, 0, 2, 0]" by (simp add: page_index_def)
  have e: "one_page 0x1000 0 = 0x2007" "one_page 0x2000 0 = 0x3007" "one_page 0x3000 2 = 0x4007" "one_page 0x4000 0 = 0x5007"
    by (simp_all add: one_page_def)
  have b: "present 0x2007" "present 0x3007" "present 0x4007" "present 0x5007"
    "\<not> huge_page 0x2007" "\<not> huge_page 0x3007" "\<not> huge_page 0x4007"
    "pte_addr 0x2007 = 0x2000" "pte_addr 0x3007 = 0x3000" "pte_addr 0x4007 = 0x4000" "pte_addr 0x5007 = 0x5000"
    by (simp_all add: present_def huge_page_def pte_addr_def)
  have w: "walk one_page 0 0x1000 [0, 0, 2, 0] = Some 0x5000" "walk one_page 0 0x1000 [0, 0, 2] = Some 0x4000"
    by (simp_all add: e b Let_def)
  have t: "translate one_page 0x1000 0x400000 = Some 0x5000" unfolding translate_def ix w by simp
  have l: "leaf one_page 0x1000 0x400000 = Some 0x5007"
    using w(2) by (simp add: leaf_def ix e del: walk.simps)
  have "user_accessible 0x5007" "writable 0x5007" "\<not> no_execute 0x5007"
    by (simp_all add: user_accessible_def writable_def no_execute_def)
  moreover have "frame_base 0x5000 = 0x5000" by (simp add: frame_base_def)
  ultimately show ?thesis
    using page_walks_agree [of one_page "0x1000", OF nh, of "0x400000" "0x5000" True True "0x5000"] u t l by simp
qed

end
