(* ===== verification/Address_Space.thy ===== *)
theory Address_Space
  imports Paging "HOL-Library.Monad_Syntax" "HOL-Library.Sublist"
begin

text \<open>
  Address spaces (\<open>Process\<close> and \<open>Section\<close> of \<open>kernel/src/process.rs\<close>, the page operations of
  \<open>kernel/src/vmm.rs\<close>): the program break, anonymous mappings, stacks, section views, protection and
  the initial stack of a program.  Editing a page table is done by the \<open>x86_64\<close> crate: its operations
  on one process's tables are the argument \<open>mp\<close>.  Frames come from the stack of free frames that the
  allocator refines.  \<open>None\<close> is a panic: no frame left, a page that cannot be mapped, an address that
  is not canonical, a slice out of range.
\<close>

unbundle bit_operations_syntax

section \<open>Page operations\<close>

text \<open>
  The crate's interface to one address space: mapping a page to a frame with flags, which fails when
  the page is mapped already; removing a page; changing its flags; the frame and flags of a page.
  Mapping is given the frame allocator, here its stack of free frames, and takes from it a frame for
  every table that is missing on the way down, at most three; it fails when there is none left.  What
  the table frames hold is part of the tables.
\<close>

record 'pt mapper =
  mp_map_to :: "'pt \<Rightarrow> u64 list \<Rightarrow> u64 \<Rightarrow> u64 \<Rightarrow> u64 \<Rightarrow> ('pt \<times> u64 list) option"
  mp_unmap :: "'pt \<Rightarrow> u64 \<Rightarrow> 'pt option"
  mp_update_flags :: "'pt \<Rightarrow> u64 \<Rightarrow> u64 \<Rightarrow> 'pt option"
  mp_lookup :: "'pt \<Rightarrow> u64 \<Rightarrow> (u64 \<times> u64) option"

definition map_law :: "'pt mapper \<Rightarrow> bool" where
  "map_law mp \<longleftrightarrow>
     (\<forall>pt free page f fl. case mp_map_to mp pt free page f fl of
        Some (pt', free') \<Rightarrow> mp_lookup mp pt page = None \<and> mp_lookup mp pt' = (mp_lookup mp pt)(page \<mapsto> (f, fl)) \<and>
          (\<exists>t \<le> 3. t \<le> length free \<and> free' = drop t free)
      | None \<Rightarrow> True)"

definition unmap_law :: "'pt mapper \<Rightarrow> bool" where
  "unmap_law mp \<longleftrightarrow>
     (\<forall>pt page. case mp_unmap mp pt page of
        Some pt' \<Rightarrow> mp_lookup mp pt' = (mp_lookup mp pt)(page := None)
      | None \<Rightarrow> mp_lookup mp pt page = None)"

definition flags_law :: "'pt mapper \<Rightarrow> bool" where
  "flags_law mp \<longleftrightarrow>
     (\<forall>pt page fl. case mp_update_flags mp pt page fl of
        Some pt' \<Rightarrow> mp_lookup mp pt' = (mp_lookup mp pt)(page := map_option (\<lambda>(f, _). (f, fl)) (mp_lookup mp pt page))
      | None \<Rightarrow> mp_lookup mp pt page = None)"

definition mapper_laws :: "'pt mapper \<Rightarrow> bool" where
  "mapper_laws mp \<longleftrightarrow> map_law mp \<and> unmap_law mp \<and> flags_law mp"

text \<open>Three free frames are enough to map an unmapped page of the user half.\<close>

definition mapper_room :: "'pt mapper \<Rightarrow> bool" where
  "mapper_room mp \<longleftrightarrow>
     (\<forall>pt free page f fl. mp_lookup mp pt page = None \<longrightarrow> unat page < 2 ^ 47 \<longrightarrow> 3 \<le> length free \<longrightarrow>
        mp_map_to mp pt free page f fl \<noteq> None)"

text \<open>\<open>VirtAddr::new\<close> accepts an address whose upper bits repeat bit 47.\<close>

definition canonical :: "u64 \<Rightarrow> bool" where
  "canonical v \<longleftrightarrow> unat v < 2 ^ 47 \<or> 2 ^ 64 - 2 ^ 47 \<le> unat v"

definition page_flags :: "bool \<Rightarrow> bool \<Rightarrow> bool \<Rightarrow> u64" where
  "page_flags wr user exec =
     1 OR (if wr then 2 else 0) OR (if user then 4 else 0) OR (if exec then 0 else push_bit 63 1)"

definition map_page_in :: "'pt mapper \<Rightarrow> u64 \<Rightarrow> u64 \<Rightarrow> bool \<Rightarrow> bool \<Rightarrow> bool \<Rightarrow> 'pt \<Rightarrow> u64 list \<Rightarrow> ('pt \<times> u64 list) option" where
  "map_page_in mp virt phys wr user exec pt free =
     (if canonical virt then mp_map_to mp pt free (frame_base virt) (frame_base phys) (page_flags wr user exec)
      else None)"

definition unmap_page_in :: "'pt mapper \<Rightarrow> u64 \<Rightarrow> 'pt \<Rightarrow> 'pt option" where
  "unmap_page_in mp virt pt =
     (if canonical virt
      then Some (case mp_unmap mp pt (frame_base virt) of Some pt' \<Rightarrow> pt' | None \<Rightarrow> pt)
      else None)"

definition page_present_in :: "'pt mapper \<Rightarrow> u64 \<Rightarrow> 'pt \<Rightarrow> bool option" where
  "page_present_in mp virt pt =
     (if canonical virt then Some (mp_lookup mp pt (frame_base virt) \<noteq> None) else None)"

text \<open>The inner option is the result: the old rights, or nothing for an unmapped page.\<close>

definition protect_page_in :: "'pt mapper \<Rightarrow> u64 \<Rightarrow> bool \<Rightarrow> bool \<Rightarrow> 'pt \<Rightarrow> ((bool \<times> bool) option \<times> 'pt) option" where
  "protect_page_in mp virt wr exec pt =
     (if \<not> canonical virt then None
      else case mp_lookup mp pt (frame_base virt) of
             None \<Rightarrow> Some (None, pt)
           | Some (_, fl) \<Rightarrow>
               (case mp_update_flags mp pt (frame_base virt) (page_flags wr True exec) of
                  Some pt' \<Rightarrow> Some (Some (writable fl, \<not> no_execute fl), pt')
                | None \<Rightarrow> Some (None, pt)))"

section \<open>Address spaces\<close>

definition USER_ALLOC_BASE :: u64 where "USER_ALLOC_BASE = 0x0000700000000000"
definition USER_STACK_SIZE :: u64 where "USER_STACK_SIZE = 64 * 1024"
definition BRK_BASE :: u64 where "BRK_BASE = 0x0000680000000000"
definition BRK_MAX :: u64 where "BRK_MAX = BRK_BASE + 256 * 1024 * 1024"

record section_view =
  v_base :: u64
  v_pages :: nat
  v_section :: nat

record 'pt space =
  sp_pt :: 'pt
  sp_next_va :: u64
  sp_brk :: u64
  sp_views :: "section_view list"

text \<open>The free frames, top first, and the contents of every frame.\<close>

record frames =
  fr_free :: "u64 list"
  fr_mem :: "u64 \<Rightarrow> byte list"

type_synonym 'pt aspace = "'pt space \<times> frames"

definition page_round :: "u64 \<Rightarrow> u64" where
  "page_round v = (v + 0xFFF) AND NOT 0xFFF"

definition frame_alloc :: "frames \<Rightarrow> (u64 \<times> frames) option" where
  "frame_alloc fr = (case fr_free fr of [] \<Rightarrow> None | f # r \<Rightarrow> Some (f, fr\<lparr>fr_free := r\<rparr>))"

definition space_new :: "'pt \<Rightarrow> 'pt space" where
  "space_new pt = \<lparr>sp_pt = pt, sp_next_va = USER_ALLOC_BASE, sp_brk = BRK_BASE, sp_views = []\<rparr>"

definition copy_alloc_state_from :: "'pt space \<Rightarrow> 'pt space \<Rightarrow> 'pt space" where
  "copy_alloc_state_from other sp = sp\<lparr>sp_next_va := sp_next_va other, sp_brk := sp_brk other\<rparr>"

definition space_map :: "'pt mapper \<Rightarrow> u64 \<Rightarrow> u64 \<Rightarrow> bool \<Rightarrow> bool \<Rightarrow> 'pt aspace \<Rightarrow> 'pt aspace option" where
  "space_map mp virt phys wr exec st =
     (case st of (sp, fr) \<Rightarrow>
        map_option (\<lambda>(pt, free). (sp\<lparr>sp_pt := pt\<rparr>, fr\<lparr>fr_free := free\<rparr>))
          (map_page_in mp virt phys wr True exec (sp_pt sp) (fr_free fr)))"

definition map_zeroed :: "'pt mapper \<Rightarrow> u64 \<Rightarrow> 'pt aspace \<Rightarrow> 'pt aspace option" where
  "map_zeroed mp virt st =
     (case st of (sp, fr) \<Rightarrow>
        do { (f, fr1) \<leftarrow> frame_alloc fr;
             space_map mp virt f True False (sp, fr1\<lparr>fr_mem := (fr_mem fr1)(f := replicate 4096 0)\<rparr>) })"

text \<open>The loops over pages: \<open>while v < end { map_zeroed(v); v += 4096 }\<close>.\<close>

partial_function (option) map_zeroed_range :: "'pt mapper \<Rightarrow> u64 \<Rightarrow> u64 \<Rightarrow> 'pt aspace \<Rightarrow> 'pt aspace option" where
  "map_zeroed_range mp v e st =
     (if v < e then Option.bind (map_zeroed mp v st) (\<lambda>st'. map_zeroed_range mp (v + 4096) e st')
      else Some st)"

definition brk :: "'pt mapper \<Rightarrow> u64 \<Rightarrow> 'pt aspace \<Rightarrow> (u64 \<times> 'pt aspace) option" where
  "brk mp req st =
     (let cur = sp_brk (fst st)
      in if req < BRK_BASE \<or> BRK_MAX < req then Some (cur, st)
         else do { (sp, fr) \<leftarrow> map_zeroed_range mp (page_round cur) (page_round req) st;
                   Some (req, (sp\<lparr>sp_brk := req\<rparr>, fr)) })"

definition mmap_anon :: "'pt mapper \<Rightarrow> u64 \<Rightarrow> 'pt aspace \<Rightarrow> (u64 \<times> 'pt aspace) option" where
  "mmap_anon mp len0 st =
     (case st of (sp, fr) \<Rightarrow>
        let len = page_round len0; base = sp_next_va sp
        in do { st' \<leftarrow> map_zeroed_range mp base (base + len) (sp\<lparr>sp_next_va := base + (len + 0x1000)\<rparr>, fr);
                Some (base, st') })"

definition new_user_stack :: "'pt mapper \<Rightarrow> 'pt aspace \<Rightarrow> (u64 \<times> 'pt aspace) option" where
  "new_user_stack mp st =
     (case st of (sp, fr) \<Rightarrow>
        let base = sp_next_va sp
        in do { st' \<leftarrow> fold (\<lambda>i r. Option.bind r (map_zeroed mp (base + of_nat i * 4096)))
                         [0..<unat (USER_STACK_SIZE div 4096)]
                         (Some (sp\<lparr>sp_next_va := base + (USER_STACK_SIZE + 0x1000)\<rparr>, fr));
                Some (base + USER_STACK_SIZE, st') })"

text \<open>Protection of a range: first every page is checked, then every page is changed.\<close>

partial_function (option) all_present :: "'pt mapper \<Rightarrow> u64 \<Rightarrow> u64 \<Rightarrow> 'pt \<Rightarrow> bool option" where
  "all_present mp v e pt =
     (if v < e
      then Option.bind (page_present_in mp v pt) (\<lambda>p. if p then all_present mp (v + 4096) e pt else Some False)
      else Some True)"

partial_function (option) protect_range :: "'pt mapper \<Rightarrow> u64 \<Rightarrow> u64 \<Rightarrow> bool \<Rightarrow> bool \<Rightarrow> (bool \<times> bool) option \<Rightarrow> 'pt
    \<Rightarrow> ((bool \<times> bool) option \<times> 'pt) option" where
  "protect_range mp v e wr exec old pt =
     (if v < e
      then Option.bind (protect_page_in mp v wr exec pt)
             (\<lambda>(r, pt'). case r of
                           None \<Rightarrow> Some (None, pt')
                         | Some o1 \<Rightarrow> protect_range mp (v + 4096) e wr exec (case old of None \<Rightarrow> Some o1 | Some x \<Rightarrow> Some x) pt')
      else Some (old, pt))"

definition protect :: "'pt mapper \<Rightarrow> u64 \<Rightarrow> u64 \<Rightarrow> bool \<Rightarrow> bool \<Rightarrow> 'pt space \<Rightarrow> ((bool \<times> bool) option \<times> 'pt space) option" where
  "protect mp virt len wr exec sp =
     (let start = virt AND NOT 0xFFF; e = page_round (virt + len)
      in do { ok \<leftarrow> all_present mp start e (sp_pt sp);
              if \<not> ok then Some (None, sp)
              else do { (old, pt) \<leftarrow> protect_range mp start e wr exec None (sp_pt sp);
                        Some (old, sp\<lparr>sp_pt := pt\<rparr>) } })"

section \<open>Sections\<close>

text \<open>A section names the file it writes back to by number.\<close>

record sect =
  s_size :: nat
  s_frames :: "u64 list"
  s_file :: "nat option"

fun section_pages :: "byte list \<Rightarrow> nat list \<Rightarrow> frames \<Rightarrow> (u64 list \<times> frames) option" where
  "section_pages init [] fr = Some ([], fr)"
| "section_pages init (i # is) fr =
     do { (f, fr1) \<leftarrow> frame_alloc fr;
          let page = take 4096 (drop (i * 4096) init);
              fr2 = fr1\<lparr>fr_mem := (fr_mem fr1)(f := page @ replicate (4096 - length page) 0)\<rparr>
          in map_option (\<lambda>(fs, fr3). (f # fs, fr3)) (section_pages init is fr2) }"

definition section_new :: "byte list \<Rightarrow> nat option \<Rightarrow> frames \<Rightarrow> (sect \<times> frames) option" where
  "section_new init file fr =
     (let pages = max ((length init + 4095) div 4096) 1
      in map_option (\<lambda>(fs, fr'). (\<lparr>s_size = length init, s_frames = fs, s_file = file\<rparr>, fr'))
           (section_pages init [0..<pages] fr))"

definition frames_for :: "nat \<Rightarrow> nat \<Rightarrow> sect \<Rightarrow> u64 list option" where
  "frames_for off len s =
     (let first = off div 4096; lst = min (((off + len) mod 2 ^ 64 + 4095) div 4096) (length (s_frames s))
      in get_range (s_frames s) first lst)"

text \<open>
  Writing back: \<open>seek\<close> and \<open>write\<close> are the operations of the files behind the sections, on a state of
  their own; the write of a frame must take all its bytes.
\<close>

fun flush_pages :: "(byte list \<Rightarrow> 'f \<Rightarrow> int \<times> 'f) \<Rightarrow> (u64 \<Rightarrow> byte list) \<Rightarrow> nat \<Rightarrow> u64 list \<Rightarrow> 'f \<Rightarrow> bool \<times> 'f" where
  "flush_pages wr mem remaining [] f = (True, f)"
| "flush_pages wr mem remaining (fr # frs) f =
     (let n = min remaining 4096; (r, f') = wr (take n (mem fr)) f
      in if r \<noteq> int n then (False, f') else flush_pages wr mem (remaining - n) frs f')"

definition flush :: "(nat \<Rightarrow> int \<Rightarrow> 'f \<Rightarrow> int \<times> 'f) \<Rightarrow> (nat \<Rightarrow> byte list \<Rightarrow> 'f \<Rightarrow> int \<times> 'f) \<Rightarrow> (u64 \<Rightarrow> byte list) \<Rightarrow> sect \<Rightarrow> 'f
    \<Rightarrow> bool \<times> 'f" where
  "flush sk wr mem s f =
     (case s_file s of
        None \<Rightarrow> (True, f)
      | Some n \<Rightarrow> let (r, f1) = sk n 0 f
                   in if r < 0 then (False, f1) else flush_pages (wr n) mem (s_size s) (s_frames s) f1)"

fun map_frames_at :: "'pt mapper \<Rightarrow> u64 \<Rightarrow> u64 list \<Rightarrow> 'pt aspace \<Rightarrow> 'pt aspace option" where
  "map_frames_at mp v [] st = Some st"
| "map_frames_at mp v (f # fs) st =
     do { st1 \<leftarrow> space_map mp v f True False st; map_frames_at mp (v + 4096) fs st1 }"

definition map_section_view :: "'pt mapper \<Rightarrow> nat \<Rightarrow> sect \<Rightarrow> nat \<Rightarrow> nat \<Rightarrow> 'pt aspace \<Rightarrow> (u64 \<times> 'pt aspace) option" where
  "map_section_view mp sid s off len st =
     (case st of (sp, fr) \<Rightarrow>
        do { fs \<leftarrow> frames_for off len s;
             let base = sp_next_va sp
             in do { (sp1, fr1) \<leftarrow> map_frames_at mp base fs
                                     (sp\<lparr>sp_next_va := base + (of_nat (length fs) * 4096 + 0x1000)\<rparr>, fr);
                     Some (base, (sp1\<lparr>sp_views := sp_views sp1 @ [\<lparr>v_base = base, v_pages = length fs, v_section = sid\<rparr>]\<rparr>, fr1)) } })"

definition view_at :: "u64 \<Rightarrow> 'pt space \<Rightarrow> nat option" where
  "view_at base sp = map_option v_section (find (\<lambda>v. v_base v = base) (sp_views sp))"

fun unmap_pages :: "'pt mapper \<Rightarrow> u64 \<Rightarrow> nat \<Rightarrow> 'pt space \<Rightarrow> 'pt space option" where
  "unmap_pages mp v 0 sp = Some sp"
| "unmap_pages mp v (Suc n) sp =
     do { pt \<leftarrow> unmap_page_in mp v (sp_pt sp); unmap_pages mp (v + 4096) n (sp\<lparr>sp_pt := pt\<rparr>) }"

fun find_index :: "('a \<Rightarrow> bool) \<Rightarrow> 'a list \<Rightarrow> nat option" where
  "find_index P [] = None"
| "find_index P (x # xs) = (if P x then Some 0 else map_option Suc (find_index P xs))"

text \<open>Views name their section by number; \<open>secs\<close> gives the section of a number.\<close>

definition flush_view :: "(nat \<Rightarrow> sect) \<Rightarrow> (nat \<Rightarrow> int \<Rightarrow> 'f \<Rightarrow> int \<times> 'f) \<Rightarrow> (nat \<Rightarrow> byte list \<Rightarrow> 'f \<Rightarrow> int \<times> 'f)
    \<Rightarrow> (u64 \<Rightarrow> byte list) \<Rightarrow> u64 \<Rightarrow> 'pt space \<Rightarrow> 'f \<Rightarrow> bool \<times> 'f" where
  "flush_view secs sk wr mem base sp f =
     (case view_at base sp of None \<Rightarrow> (False, f) | Some sid \<Rightarrow> flush sk wr mem (secs sid) f)"

definition unmap_view :: "'pt mapper \<Rightarrow> (nat \<Rightarrow> sect) \<Rightarrow> (nat \<Rightarrow> int \<Rightarrow> 'f \<Rightarrow> int \<times> 'f) \<Rightarrow> (nat \<Rightarrow> byte list \<Rightarrow> 'f \<Rightarrow> int \<times> 'f)
    \<Rightarrow> (u64 \<Rightarrow> byte list) \<Rightarrow> u64 \<Rightarrow> 'pt space \<Rightarrow> 'f \<Rightarrow> (bool \<times> 'pt space \<times> 'f) option" where
  "unmap_view mp secs sk wr mem base sp f =
     (case find_index (\<lambda>v. v_base v = base) (sp_views sp) of
        None \<Rightarrow> Some (False, sp, f)
      | Some i \<Rightarrow>
          let v = sp_views sp ! i; f' = snd (flush sk wr mem (secs (v_section v)) f)
          in do { sp' \<leftarrow> unmap_pages mp (v_base v) (v_pages v) (sp\<lparr>sp_views := swap_remove i (sp_views sp)\<rparr>);
                  Some (True, sp', f') })"

section \<open>Mapping a range of fresh pages\<close>

abbreviation mapping :: "'pt mapper \<Rightarrow> 'pt aspace \<Rightarrow> u64 \<Rightarrow> (u64 \<times> u64) option" where
  "mapping mp st \<equiv> mp_lookup mp (sp_pt (fst st))"

lemma mapper_maps:
  assumes "mapper_laws mp" "mp_map_to mp pt free page f fl = Some (pt', free')"
  shows "mp_lookup mp pt page = None \<and> mp_lookup mp pt' = (mp_lookup mp pt)(page \<mapsto> (f, fl)) \<and>
    (\<exists>t \<le> 3. t \<le> length free \<and> free' = drop t free)"
proof -
  have "case mp_map_to mp pt free page f fl of
      Some (pt', free') \<Rightarrow> mp_lookup mp pt page = None \<and> mp_lookup mp pt' = (mp_lookup mp pt)(page \<mapsto> (f, fl)) \<and>
        (\<exists>t \<le> 3. t \<le> length free \<and> free' = drop t free)
    | None \<Rightarrow> True" using assms(1) unfolding mapper_laws_def map_law_def by blast
  then show ?thesis using assms(2) by simp
qed

lemma space_map_Some:
  assumes "mapper_laws mp" "space_map mp v f wr exec st = Some st'"
  shows "canonical v \<and> mapping mp st (frame_base v) = None \<and>
    mapping mp st' = (mapping mp st)(frame_base v \<mapsto> (frame_base f, page_flags wr True exec)) \<and>
    (\<exists>t \<le> 3. t \<le> length (fr_free (snd st)) \<and> snd st' = (snd st)\<lparr>fr_free := drop t (fr_free (snd st))\<rparr>) \<and>
    (fst st')\<lparr>sp_pt := sp_pt (fst st)\<rparr> = fst st"
proof -
  obtain sp fr where st: "st = (sp, fr)" by fastforce
  obtain pt free where p: "canonical v"
    "mp_map_to mp (sp_pt sp) (fr_free fr) (frame_base v) (frame_base f) (page_flags wr True exec) = Some (pt, free)"
    "st' = (sp\<lparr>sp_pt := pt\<rparr>, fr\<lparr>fr_free := free\<rparr>)"
    using assms(2) unfolding st by (auto simp: space_map_def map_page_in_def split: if_splits)
  show ?thesis using mapper_maps [OF assms(1) p(2)] p(1,3) by (auto simp: st)
qed

lemma map_zeroed_Some:
  assumes "mapper_laws mp" "map_zeroed mp v st = Some st'"
  shows "\<exists>f r t. fr_free (snd st) = f # r \<and> t \<le> 3 \<and> t \<le> length r \<and> canonical v \<and> mapping mp st (frame_base v) = None \<and>
    mapping mp st' = (mapping mp st)(frame_base v \<mapsto> (frame_base f, page_flags True True False)) \<and>
    snd st' = (snd st)\<lparr>fr_free := drop t r, fr_mem := (fr_mem (snd st))(f := replicate 4096 0)\<rparr> \<and>
    (fst st')\<lparr>sp_pt := sp_pt (fst st)\<rparr> = fst st"
proof -
  obtain sp fr where st: "st = (sp, fr)" by fastforce
  obtain f r where f: "fr_free fr = f # r"
    "space_map mp v f True False (sp, fr\<lparr>fr_free := r, fr_mem := (fr_mem fr)(f := replicate 4096 0)\<rparr>) = Some st'"
    using assms(2) unfolding st by (auto simp: map_zeroed_def frame_alloc_def split: list.splits)
  show ?thesis using space_map_Some [OF assms(1) f(2)] f(1) by (auto simp: st)
qed

lemma page_aligned_iff: "frame_base w = w \<longleftrightarrow> unat w mod 4096 = 0"
proof -
  have "frame_base w = w \<longleftrightarrow> take_bit 12 w = 0"
  proof
    assume "frame_base w = w"
    then have "take_bit 12 w = take_bit 12 (w AND NOT (mask 12))" by (simp add: frame_base_def mask_eq_exp_minus_1)
    also have "\<dots> = 0" by (rule bit_eqI) (auto simp: bit_simps)
    finally show "take_bit 12 w = 0" .
  qed (rule frame_base_aligned)
  also have "\<dots> \<longleftrightarrow> unat (take_bit 12 w) = 0" by (simp add: unat_eq_0)
  also have "unat (take_bit 12 w) = unat w mod 4096" using unat_take_bit [of 12 w] by simp
  finally show ?thesis .
qed

lemma page_aligned_add:
  assumes "frame_base v = v"
  shows "frame_base (v + of_nat (k * 4096)) = v + of_nat (k * 4096)"
proof -
  have "unat (v + of_nat (k * 4096)) = (unat v + k * 4096) mod 2 ^ 64"
    by (simp only: unat_word_ariths unat_of_nat len_num1 len_bit0 len_of_numeral_defs mod_add_right_eq) simp
  also have "\<dots> mod 4096 = (unat v + k * 4096) mod 4096"
    by (rule mod_mod_cancel) (simp add: dvd_power_le [of "2 :: nat" 2 12 64, simplified])
  finally show ?thesis using assms by (simp add: page_aligned_iff)
qed

lemma map_range_mono:
  assumes "mapper_laws mp" "map_zeroed_range mp v e st = Some st'"
  shows "(mapping mp st p \<noteq> None \<longrightarrow> mapping mp st' p \<noteq> None) \<and> sp_brk (fst st') = sp_brk (fst st) \<and>
    (frame_base v = v \<longrightarrow> unat v + k * 4096 < unat e \<longrightarrow> mapping mp st' (v + of_nat (k * 4096)) \<noteq> None)"
proof -
  let ?P = "\<lambda>m v e st st'. m = mp \<longrightarrow>
     (\<forall>p. mapping mp st p \<noteq> None \<longrightarrow> mapping mp st' p \<noteq> None) \<and> sp_brk (fst st') = sp_brk (fst st) \<and>
     (frame_base v = v \<longrightarrow> (\<forall>k. unat v + k * 4096 < unat e \<longrightarrow> mapping mp st' (v + of_nat (k * 4096)) \<noteq> None))"
  have "?P mp v e st st'"
  proof (rule map_zeroed_range.raw_induct [where P = ?P, OF _ assms(2)])
    fix rc and m :: "'a mapper" and v e and st st' :: "'a aspace"
    assume IH: "\<And>m v e st st'. rc m v e st = Some st' \<Longrightarrow> ?P m v e st st'"
      and b: "(if v < e then Option.bind (map_zeroed m v st) (\<lambda>st'. rc m (v + 4096) e st') else Some st) = Some st'"
    show "?P m v e st st'"
    proof (cases "v < e")
      case True
      then obtain s1 where s1: "map_zeroed m v st = Some s1" "rc m (v + 4096) e s1 = Some st'"
        using b by (auto simp: bind_eq_Some_conv)
      show ?thesis
      proof
        assume m: "m = mp"
        have z: "mapping mp s1 = (mapping mp st)(frame_base v \<mapsto> (frame_base f, page_flags True True False))"
            "sp_brk (fst s1) = sp_brk (fst st)" if "fr_free (snd st) = f # r" for f r
          using map_zeroed_Some [OF assms(1), of v st s1] s1(1) m that by (auto dest: arg_cong [of _ _ sp_brk])
        obtain f r where fr: "fr_free (snd st) = f # r"
          using map_zeroed_Some [OF assms(1), of v st s1] s1(1) m by blast
        note z = z [OF fr] and I = IH [OF s1(2), rule_format, OF m]
        have "mapping mp st' (v + of_nat (k * 4096)) \<noteq> None"
          if al: "frame_base v = v" and k: "unat v + k * 4096 < unat e" for k
        proof (cases k)
          case 0
          then show ?thesis using I z al by simp
        next
          case (Suc j)
          have "unat e < 18446744073709551616" using unsigned_less [of e] by simp
          then have lt: "unat v + 4096 < 18446744073709551616" using k Suc by simp
          then have "unat (v + 4096) = unat v + 4096" by (simp add: unat_word_ariths)
          then have "unat (v + 4096) + j * 4096 < unat e" using k Suc by simp
          moreover have "frame_base (v + 4096) = v + 4096" using page_aligned_add [OF al, of 1] by simp
          ultimately have "mapping mp st' (v + 4096 + of_nat (j * 4096)) \<noteq> None" using I by blast
          then show ?thesis using Suc by (simp add: algebra_simps)
        qed
        then show "(\<forall>p. mapping mp st p \<noteq> None \<longrightarrow> mapping mp st' p \<noteq> None) \<and> sp_brk (fst st') = sp_brk (fst st) \<and>
           (frame_base v = v \<longrightarrow> (\<forall>k. unat v + k * 4096 < unat e \<longrightarrow> mapping mp st' (v + of_nat (k * 4096)) \<noteq> None))"
          using I z by auto
      qed
    next
      case False
      then show ?thesis using b by (auto simp: word_less_nat_alt)
    qed
  qed
  then show ?thesis by blast
qed

lemma map_range_mapped:
  assumes "mapper_laws mp" "v < e" "mapping mp st (frame_base v) \<noteq> None"
  shows "map_zeroed_range mp v e st = None"
proof -
  have "map_zeroed mp v st = None"
    using map_zeroed_Some [OF assms(1), of v st] assms(3) by (cases "map_zeroed mp v st") auto
  then show ?thesis using assms(2) by (subst map_zeroed_range.simps) simp
qed

lemma unat_frame_base: "unat (frame_base w) = unat w div 4096 * 4096"
proof -
  have "frame_base w = w AND NOT (mask 12)" by (simp add: frame_base_def mask_eq_exp_minus_1)
  then have "unat (frame_base w) = push_bit 12 (drop_bit 12 (unat w))"
    by (intro bit_eqI) (auto simp: bit_simps dest: bit_imp_le_length)
  then show ?thesis by (simp add: push_bit_eq_mult drop_bit_eq_div)
qed

lemma page_round_unat:
  assumes "unat v + 0xFFF < 2 ^ 64"
  shows "unat (page_round v) = (unat v + 0xFFF) div 4096 * 4096"
proof -
  have "unat (v + 0xFFF) = unat v + 0xFFF" using assms by (simp add: unat_word_ariths)
  moreover have "page_round v = frame_base (v + 0xFFF)" by (simp add: page_round_def frame_base_def)
  ultimately show ?thesis by (simp add: unat_frame_base)
qed

lemma page_round_aligned: "frame_base (page_round v) = page_round v"
  by (simp add: page_round_def frame_base_def)

lemma brk_range_unat: "v \<le> BRK_MAX \<Longrightarrow> unat v + 0xFFF < 2 ^ 64"
  by (simp add: word_le_nat_alt BRK_MAX_def BRK_BASE_def)

lemma page_round_steps:
  assumes "u \<le> v" "unat v + 0xFFF < 2 ^ 64"
  shows "\<exists>k. page_round v = page_round u + of_nat (k * 4096) \<and> unat (page_round u) + k * 4096 = unat (page_round v)"
proof -
  have le: "unat u \<le> unat v" using assms(1) by (simp add: word_le_nat_alt)
  define a b where "a = (unat u + 0xFFF) div 4096" and "b = (unat v + 0xFFF) div 4096"
  have ab: "unat (page_round u) = a * 4096" "unat (page_round v) = b * 4096" "a \<le> b"
    using le assms(2) page_round_unat [of u] page_round_unat [of v]
    by (auto simp: a_def b_def intro: div_le_mono)
  have e: "unat (page_round u) + (b - a) * 4096 = unat (page_round v)"
    using ab by (simp add: diff_mult_distrib)
  have "page_round v = of_nat (unat (page_round u) + (b - a) * 4096)" unfolding e by simp
  also have "\<dots> = page_round u + of_nat ((b - a) * 4096)" unfolding of_nat_add by simp
  finally show ?thesis using e by blast
qed

text \<open>C30. The program break only grows safely: lowering it by a page or more keeps the pages mapped,
  and the next request that needs one of those pages again maps it a second time, which panics the
  kernel.\<close>

theorem brk_regrow_panics:
  assumes laws: "mapper_laws mp"
    and up: "brk mp hi st = Some (hi, st1)" and down: "brk mp lo st1 = Some (lo, st2)"
    and range: "BRK_BASE \<le> lo" "lo \<le> hi" "hi \<le> BRK_MAX" "lo \<le> req" "req \<le> BRK_MAX"
    and old: "sp_brk (fst st) \<le> lo" and pages: "page_round lo < page_round hi" "page_round lo < page_round req"
  shows "brk mp req st2 = None"
proof -
  let ?c = "page_round (sp_brk (fst st))"
  have rng: "\<not> hi < BRK_BASE" "\<not> BRK_MAX < hi" "\<not> lo < BRK_BASE" "\<not> BRK_MAX < lo" "\<not> req < BRK_BASE" "\<not> BRK_MAX < req"
    using range by auto
  obtain a where a: "map_zeroed_range mp ?c (page_round hi) st = Some a" "st1 = ((fst a)\<lparr>sp_brk := hi\<rparr>, snd a)"
    using up rng by (auto simp: brk_def Let_def bind_eq_Some_conv split: prod.splits)
  obtain b where b: "map_zeroed_range mp (page_round hi) (page_round lo) st1 = Some b" "st2 = ((fst b)\<lparr>sp_brk := lo\<rparr>, snd b)"
    using down rng by (auto simp: brk_def a(2) Let_def bind_eq_Some_conv split: prod.splits)
  have "\<not> page_round hi < page_round lo" using pages(1) by simp
  then have "b = st1" using b(1) by (subst (asm) map_zeroed_range.simps) simp
  obtain k where k: "page_round lo = ?c + of_nat (k * 4096)" "unat ?c + k * 4096 = unat (page_round lo)"
    using page_round_steps [OF old brk_range_unat] range by fastforce
  have "unat ?c + k * 4096 < unat (page_round hi)" using k(2) pages(1) by (simp add: word_less_nat_alt)
  then have "mapping mp a (page_round lo) \<noteq> None"
    using map_range_mono [OF laws a(1), of 0 k] page_round_aligned k(1) by simp
  then have "map_zeroed_range mp (page_round lo) (page_round req) st2 = None"
    by (intro map_range_mapped [OF laws pages(2)]) (simp add: page_round_aligned b(2) \<open>b = st1\<close> a(2))
  then show ?thesis using rng by (simp add: brk_def b(2))
qed

text \<open>
  A page table that is the list of its mapped pages; a mapping takes a frame for each of the three
  levels at which no mapped page shares the table.
\<close>

definition tables_missing :: "(u64 \<times> u64 \<times> u64) list \<Rightarrow> u64 \<Rightarrow> nat" where
  "tables_missing pt page =
     length (filter (\<lambda>s. \<not> list_ex (\<lambda>(p, _). drop_bit s p = drop_bit s page) pt) [21, 30, 39])"

definition map_mapper :: "(u64 \<times> u64 \<times> u64) list mapper" where
  "map_mapper =
     \<lparr>mp_map_to = (\<lambda>pt free page f fl.
        let t = tables_missing pt page
        in if map_of pt page = None \<and> t \<le> length free then Some ((page, f, fl) # pt, drop t free) else None),
      mp_unmap = (\<lambda>pt page. if map_of pt page = None then None else Some (filter (\<lambda>(p, _). p \<noteq> page) pt)),
      mp_update_flags = (\<lambda>pt page fl. case map_of pt page of None \<Rightarrow> None | Some (f, _) \<Rightarrow> Some ((page, f, fl) # pt)),
      mp_lookup = map_of\<rparr>"

lemma tables_missing_le: "tables_missing pt page \<le> 3"
  by (simp add: tables_missing_def)

lemma map_of_filter_ne: "map_of (filter (\<lambda>(p, _). p \<noteq> page) pt) = (map_of pt)(page := None)"
  by (induction pt) auto

lemma map_mapper_laws: "mapper_laws map_mapper" "mapper_room map_mapper"
proof -
  have "map_law map_mapper" by (auto simp: map_law_def map_mapper_def Let_def intro: tables_missing_le)
  moreover have "unmap_law map_mapper" by (simp add: unmap_law_def map_mapper_def map_of_filter_ne)
  moreover have "flags_law map_mapper" by (auto simp: flags_law_def map_mapper_def split: option.split)
  ultimately show "mapper_laws map_mapper" by (simp add: mapper_laws_def)
  have "tables_missing pt page \<le> length free" if "3 \<le> length free" for pt page and free :: "u64 list"
    using tables_missing_le [of pt page] that by linarith
  then show "mapper_room map_mapper" by (simp add: mapper_room_def map_mapper_def Let_def)
qed

definition ten_frames :: frames where
  "ten_frames = \<lparr>fr_free = map (\<lambda>k. of_nat k * 0x1000) [1..<11], fr_mem = (\<lambda>_. [])\<rparr>"

lemma ten_frames_free: "length (fr_free ten_frames) = 10" "distinct (fr_free ten_frames)"
  by (simp_all add: ten_frames_def upt_conv_Cons)

lemma map_zeroed_fresh:
  assumes "mapper_laws mp" "mapper_room mp" "frame_base v = v" "unat v < 2 ^ 47"
    and "mapping mp st v = None" "4 \<le> length (fr_free (snd st))"
  shows "\<exists>st'. map_zeroed mp v st = Some st'"
proof -
  obtain sp fr where st: "st = (sp, fr)" by fastforce
  obtain f r where f: "fr_free fr = f # r" "3 \<le> length r" using assms(6) by (cases "fr_free fr") (auto simp: st)
  have "mp_map_to mp (sp_pt sp) r v (frame_base f) (page_flags True True False) \<noteq> None"
    using assms(2,4,5) f(2) by (simp add: mapper_room_def st)
  then show ?thesis
    using f(1) assms(3,4) by (auto simp: st map_zeroed_def frame_alloc_def space_map_def map_page_in_def canonical_def)
qed

theorem brk_regrow_panics_witness:
  "\<exists>st1 st2. brk map_mapper (BRK_BASE + 0x1000) (space_new [], ten_frames) = Some (BRK_BASE + 0x1000, st1) \<and>
     brk map_mapper BRK_BASE st1 = Some (BRK_BASE, st2) \<and> brk map_mapper (BRK_BASE + 1) st2 = None"
proof -
  let ?st = "(space_new [], ten_frames)"
  have p: "page_round BRK_BASE = BRK_BASE" "page_round (BRK_BASE + 0x1000) = BRK_BASE + 0x1000"
    "page_round (BRK_BASE + 1) = BRK_BASE + 0x1000" by (simp_all add: page_round_def BRK_BASE_def)
  have lt: "BRK_BASE < BRK_BASE + 0x1000" "\<not> BRK_BASE + 0x1000 < BRK_BASE"
    "\<not> BRK_MAX < BRK_BASE + 0x1000" "\<not> BRK_MAX < BRK_BASE"
    by (simp_all add: BRK_BASE_def BRK_MAX_def)
  have stop: "map_zeroed_range map_mapper v e st = Some st" if "\<not> v < e" for v e st
    using that by (subst map_zeroed_range.simps) simp
  obtain a where a: "map_zeroed map_mapper BRK_BASE ?st = Some a"
    using map_zeroed_fresh [OF map_mapper_laws, of BRK_BASE ?st] ten_frames_free(1)
    by (auto simp: frame_base_def BRK_BASE_def space_new_def map_mapper_def)
  have r: "map_zeroed_range map_mapper BRK_BASE (BRK_BASE + 0x1000) ?st = Some a"
    by (subst map_zeroed_range.simps) (simp add: lt a stop)
  have b: "sp_brk (space_new []) = BRK_BASE" by (simp add: space_new_def)
  obtain a1 a2 where a12: "a = (a1, a2)" by fastforce
  obtain st1 where u: "brk map_mapper (BRK_BASE + 0x1000) ?st = Some (BRK_BASE + 0x1000, st1)" "sp_brk (fst st1) = BRK_BASE + 0x1000"
    using that [of "(a1\<lparr>sp_brk := BRK_BASE + 0x1000\<rparr>, a2)"] by (simp add: brk_def Let_def p lt b r a12)
  obtain st2 where d: "brk map_mapper BRK_BASE st1 = Some (BRK_BASE, st2)"
    using that [of "((fst st1)\<lparr>sp_brk := BRK_BASE\<rparr>, snd st1)"]
    by (simp add: brk_def Let_def p lt stop u(2) case_prod_unfold)
  have "brk map_mapper (BRK_BASE + 1) st2 = None"
  proof (rule brk_regrow_panics [OF map_mapper_laws(1) u(1) d])
    show "sp_brk (fst ?st) \<le> BRK_BASE" by (simp add: space_new_def)
  qed (simp_all add: p lt, simp_all add: BRK_BASE_def BRK_MAX_def)
  then show ?thesis using u d by blast
qed

section \<open>Fresh mappings\<close>

text \<open>The page \<open>k\<close> pages after an address.\<close>

definition page_at :: "u64 \<Rightarrow> nat \<Rightarrow> u64" where
  "page_at v k = v + of_nat (k * 4096)"

lemma page_at_0 [simp]: "page_at v 0 = v"
  by (simp add: page_at_def)

lemma page_at_Suc: "page_at v (Suc k) = page_at (v + 4096) k"
  by (simp add: page_at_def)

lemma unat_page_at:
  assumes "unat v + n * 4096 < 2 ^ 64"
  shows "unat (page_at v n) = unat v + n * 4096"
proof -
  have "unat (of_nat (n * 4096) :: u64) = n * 4096" using assms by (intro unat_of_nat_u64) simp
  then show ?thesis using assms by (simp add: page_at_def unat_word_ariths del: of_nat_mult)
qed

lemma page_at_inj:
  assumes "page_at v k = page_at v j" "unat v + k * 4096 < 2 ^ 64" "unat v + j * 4096 < 2 ^ 64"
  shows "k = j"
  using unat_page_at [OF assms(2)] unat_page_at [OF assms(3)] unfolding assms(1) by linarith

lemma page_at_step:
  assumes "frame_base v = v" "unat v + Suc n * 4096 < 2 ^ 47"
  shows "frame_base (v + 4096) = v + 4096" "unat (v + 4096) + n * 4096 < 2 ^ 47"
  using page_aligned_add [OF assms(1), of 1] unat_page_at [of v 1] assms(2) by (auto simp: page_at_def)

text \<open>
  The frames \<open>gs\<close> of the pages are taken in order from the first \<open>m\<close> free frames; the others of those
  are tables.
\<close>

lemma map_range_fresh:
  assumes laws: "mapper_laws mp" "mapper_room mp" and "frame_base v = v" "unat v + n * 4096 < 2 ^ 47"
    and "\<forall>k < n. mapping mp st (page_at v k) = None" "4 * n \<le> length (fr_free (snd st))"
  shows "\<exists>st' gs m. map_zeroed_range mp v (page_at v n) st = Some st' \<and> length gs = n \<and> m \<le> 4 * n \<and>
    subseq gs (take m (fr_free (snd st))) \<and> fr_free (snd st') = drop m (fr_free (snd st)) \<and>
    (\<forall>k < n. mapping mp st' (page_at v k) = Some (frame_base (gs ! k), page_flags True True False)) \<and>
    (\<forall>p. (\<forall>k < n. p \<noteq> page_at v k) \<longrightarrow> mapping mp st' p = mapping mp st p) \<and>
    (\<forall>f. fr_mem (snd st') f = (if f \<in> set gs then replicate 4096 0 else fr_mem (snd st) f)) \<and>
    (fst st')\<lparr>sp_pt := sp_pt (fst st)\<rparr> = fst st"
  using assms(3-6)
proof (induction n arbitrary: v st)
  case 0
  show ?case by (subst map_zeroed_range.simps) auto
next
  case (Suc n)
  have v0: "mapping mp st v = None" using Suc.prems(3) by (auto dest: spec [of _ 0])
  obtain s1 where s1: "map_zeroed mp v st = Some s1"
    using map_zeroed_fresh [OF laws Suc.prems(1) _ v0] Suc.prems(2,4) by force
  obtain f r t where f: "fr_free (snd st) = f # r" "t \<le> 3" "t \<le> length r"
    "mapping mp s1 = (mapping mp st)(v \<mapsto> (frame_base f, page_flags True True False))"
    "snd s1 = (snd st)\<lparr>fr_free := drop t r, fr_mem := (fr_mem (snd st))(f := replicate 4096 0)\<rparr>"
    "(fst s1)\<lparr>sp_pt := sp_pt (fst st)\<rparr> = fst st"
    using map_zeroed_Some [OF laws(1) s1] Suc.prems(1) by auto
  have apart: "page_at v (Suc k) \<noteq> v" if "k \<le> n" for k
    using page_at_inj [of v "Suc k" 0] that Suc.prems(2) by auto
  have free1: "\<forall>k < n. mapping mp s1 (page_at (v + 4096) k) = None"
    using f(4) Suc.prems(3) apart by (auto simp flip: page_at_Suc)
  note step = page_at_step [OF Suc.prems(1,2)]
  have room: "4 * n \<le> length (fr_free (snd s1))" using Suc.prems(4) f(1,2,5) by simp
  obtain s2 gs m where s2: "map_zeroed_range mp (v + 4096) (page_at v (Suc n)) s1 = Some s2" "length gs = n" "m \<le> 4 * n"
    "subseq gs (take m (drop t r))" "fr_free (snd s2) = drop m (drop t r)"
    "\<forall>k < n. mapping mp s2 (page_at v (Suc k)) = Some (frame_base (gs ! k), page_flags True True False)"
    "\<forall>p. (\<forall>k < n. p \<noteq> page_at v (Suc k)) \<longrightarrow> mapping mp s2 p = mapping mp s1 p"
    "\<forall>g. fr_mem (snd s2) g = (if g \<in> set gs then replicate 4096 0 else fr_mem (snd s1) g)"
    "(fst s2)\<lparr>sp_pt := sp_pt (fst s1)\<rparr> = fst s1"
    using Suc.IH [OF step free1 room] f(5) unfolding page_at_Suc by auto
  have "v < page_at v (Suc n)"
    using unat_page_at [of v "Suc n"] Suc.prems(2) by (simp add: word_less_nat_alt)
  then have "map_zeroed_range mp v (page_at v (Suc n)) st = Some s2"
    using s1 s2(1) by (subst map_zeroed_range.simps) simp
  moreover have "mapping mp s2 v = mapping mp s1 v" using s2(7) apart by (metis less_imp_le_nat)
  then have "\<forall>k < Suc n. mapping mp s2 (page_at v k) = Some (frame_base ((f # gs) ! k), page_flags True True False)"
    using s2(6) f(4) by (auto simp: less_Suc_eq_0_disj)
  moreover have "\<forall>p. (\<forall>k < Suc n. p \<noteq> page_at v k) \<longrightarrow> mapping mp s2 p = mapping mp st p"
  proof (intro allI impI)
    fix p assume p: "\<forall>k < Suc n. p \<noteq> page_at v k"
    then have "p \<noteq> v" "\<forall>k < n. p \<noteq> page_at v (Suc k)" using p by (auto dest: spec [of _ 0])
    then show "mapping mp s2 p = mapping mp st p" using s2(7) f(4) by simp
  qed
  moreover have "subseq (f # gs) (take (Suc (t + m)) (fr_free (snd st)))"
    using s2(4) by (simp add: f(1) take_add subseq_drop_many)
  moreover have "fr_free (snd s2) = drop (Suc (t + m)) (fr_free (snd st))" using s2(5) f(1) by (simp add: add.commute)
  moreover have "(fst s2)\<lparr>sp_pt := sp_pt (fst st)\<rparr> = fst st" using s2(9) f(6) by (metis space.update_convs(1) space.surjective)
  moreover have "\<forall>g. fr_mem (snd s2) g = (if g \<in> set (f # gs) then replicate 4096 0 else fr_mem (snd st) g)"
    using s2(8) f(5) by simp
  moreover have "length (f # gs) = Suc n" "Suc (t + m) \<le> 4 * Suc n" using s2(2,3) f(2) by simp_all
  ultimately show ?case by blast
qed

text \<open>Nothing is mapped at or above the next free address of the user half.\<close>

definition va_inv :: "'pt mapper \<Rightarrow> 'pt aspace \<Rightarrow> bool" where
  "va_inv mp st \<longleftrightarrow>
     frame_base (sp_next_va (fst st)) = sp_next_va (fst st) \<and>
     (\<forall>p. sp_next_va (fst st) \<le> p \<longrightarrow> unat p < 2 ^ 47 \<longrightarrow> mapping mp st p = None)"

lemma va_inv_above:
  assumes inv: "va_inv mp st" and al: "frame_base base = base" and base: "base = sp_next_va (fst st)"
    and nx: "sp_next_va (fst st') = page_at base (Suc n)"
    and ua: "\<And>k. k \<le> Suc n \<Longrightarrow> unat (page_at base k) = unat base + k * 4096"
    and same: "\<And>p. \<forall>k < n. p \<noteq> page_at base k \<Longrightarrow> mapping mp st' p = mapping mp st p"
  shows "va_inv mp st'"
  unfolding va_inv_def nx
proof (intro conjI allI impI)
  show "frame_base (page_at base (Suc n)) = page_at base (Suc n)"
    unfolding page_at_def by (rule page_aligned_add [OF al])
  fix p assume p: "page_at base (Suc n) \<le> p" "unat p < 2 ^ 47"
  have le: "unat base + Suc n * 4096 \<le> unat p" using p(1) ua [of "Suc n"] by (simp add: word_le_nat_alt)
  have "p \<noteq> page_at base k" if "k < n" for k using ua [of k] le that by auto
  then have "mapping mp st' p = mapping mp st p" using same by simp
  also have "\<dots> = None" using inv p(2) le by (simp add: va_inv_def word_le_nat_alt base)
  finally show "mapping mp st' p = None" .
qed

lemma page_round_at:
  assumes "unat len + 4095 < 2 ^ 64"
  shows "base + page_round len = page_at base ((unat len + 4095) div 4096)"
proof -
  have "page_round len = of_nat (unat (page_round len))" by simp
  also have "\<dots> = of_nat ((unat len + 4095) div 4096 * 4096)" using assms by (subst page_round_unat) auto
  finally show ?thesis by (simp only: page_at_def)
qed

text \<open>C31. An anonymous mapping is fresh: it starts at the next free address and covers the length
  rounded up to pages; its pages were unmapped before and are writable and not executable; their
  frames are filled with zeros and taken in order from the free list, from which at most three more
  frames per page go into page tables; the page after it stays unmapped; no other page changes; and
  the space above stays free for the next mapping.\<close>

theorem mmap_fresh:
  assumes laws: "mapper_laws mp" "mapper_room mp" and inv: "va_inv mp st"
    and n: "n = (unat len + 4095) div 4096"
    and fits: "unat (sp_next_va (fst st)) + Suc n * 4096 < 2 ^ 47" and mem: "4 * n \<le> length (fr_free (snd st))"
  shows "\<exists>st' gs m. mmap_anon mp len st = Some (sp_next_va (fst st), st') \<and> length gs = n \<and> m \<le> 4 * n \<and>
    subseq gs (take m (fr_free (snd st))) \<and> fr_free (snd st') = drop m (fr_free (snd st)) \<and>
    (let base = sp_next_va (fst st)
     in (\<forall>k < n. mapping mp st (page_at base k) = None \<and>
           mapping mp st' (page_at base k) = Some (frame_base (gs ! k), page_flags True True False) \<and>
           fr_mem (snd st') (gs ! k) = replicate 4096 0) \<and>
        mapping mp st' (page_at base n) = None \<and>
        (\<forall>p. (\<forall>k < n. p \<noteq> page_at base k) \<longrightarrow> mapping mp st' p = mapping mp st p) \<and> va_inv mp st')"
proof -
  define base where "base = sp_next_va (fst st)"
  obtain sp fr where st: "st = (sp, fr)" by fastforce
  let ?s0 = "(sp\<lparr>sp_next_va := page_at base (Suc n)\<rparr>, fr)"
  have al: "frame_base base = base" using inv by (simp add: va_inv_def base_def)
  have "unat len + 4095 < 4096 + n * 4096" unfolding n by (rule dividend_less_div_times) simp
  then have len: "unat len + 4095 < 2 ^ 64" using fits by simp
  have ua: "unat (page_at base k) = unat base + k * 4096" if "k \<le> Suc n" for k
    using that fits by (intro unat_page_at) (simp add: base_def)
  have free: "mapping mp st (page_at base k) = None" if "k \<le> n" for k
    using inv that fits ua [of k] by (auto simp: va_inv_def word_le_nat_alt base_def)
  obtain st' gs m where r: "map_zeroed_range mp base (page_at base n) ?s0 = Some st'"
    and g: "length gs = n" "m \<le> 4 * n" "subseq gs (take m (fr_free fr))" "fr_free (snd st') = drop m (fr_free fr)"
    and mp: "\<forall>k < n. mapping mp st' (page_at base k) = Some (frame_base (gs ! k), page_flags True True False)"
    and o: "\<forall>p. (\<forall>k < n. p \<noteq> page_at base k) \<longrightarrow> mapping mp st' p = mapping mp st p"
    and z: "\<forall>f. fr_mem (snd st') f = (if f \<in> set gs then replicate 4096 0 else fr_mem fr f)"
    and sp: "(fst st')\<lparr>sp_pt := sp_pt sp\<rparr> = sp\<lparr>sp_next_va := page_at base (Suc n)\<rparr>"
    using map_range_fresh [OF laws al, of n ?s0] free fits mem by (auto simp: st base_def)
  have nx: "sp_next_va (fst st') = page_at base (Suc n)" using arg_cong [OF sp, of sp_next_va] by simp
  have "mmap_anon mp len st = Some (base, st')"
    using r page_round_at [OF len, of base] by (simp add: mmap_anon_def st base_def n page_at_def Let_def algebra_simps)
  moreover have "page_at base n \<noteq> page_at base k" if "k < n" for k
    using ua [of n] ua [of k] that by auto
  then have "mapping mp st' (page_at base n) = None" using o free [of n] by simp
  moreover have "va_inv mp st'"
    by (rule va_inv_above [OF inv al base_def nx ua]) (use o in auto)
  ultimately show ?thesis
    using g mp o z free unfolding base_def [symmetric] Let_def
    by (intro exI [of _ st'] exI [of _ gs] exI [of _ m]) (simp add: st)
qed

theorem mmap_fresh_witness:
  "\<exists>st' gs m. mmap_anon map_mapper 5000 (space_new [], ten_frames) = Some (USER_ALLOC_BASE, st') \<and> length gs = 2 \<and>
     m \<le> 8 \<and> subseq gs (take m (fr_free ten_frames)) \<and> fr_free (snd st') = drop m (fr_free ten_frames) \<and>
     mapping map_mapper st' (page_at USER_ALLOC_BASE 1) = Some (frame_base (gs ! 1), page_flags True True False) \<and>
     mapping map_mapper st' (page_at USER_ALLOC_BASE 2) = None"
proof -
  let ?st = "(space_new [] :: (u64 \<times> u64 \<times> u64) list space, ten_frames)"
  have inv: "va_inv map_mapper ?st"
    by (simp add: va_inv_def space_new_def map_mapper_def frame_base_def USER_ALLOC_BASE_def)
  have b: "sp_next_va (fst ?st) = USER_ALLOC_BASE" by (simp add: space_new_def)
  have n: "(2 :: nat) = (unat (5000 :: u64) + 4095) div 4096" by simp
  have fits: "unat (sp_next_va (fst ?st)) + Suc 2 * 4096 < 2 ^ 47"
    unfolding b by (simp add: USER_ALLOC_BASE_def)
  have "4 * 2 \<le> length (fr_free (snd ?st))" by (simp add: ten_frames_free)
  from mmap_fresh [OF map_mapper_laws inv n fits this] show ?thesis
    unfolding b Let_def by force
qed

section \<open>Sections\<close>

lemma section_pages_mem:
  assumes "section_pages init is fr = Some (fs, fr')"
  shows "fs = take (length is) (fr_free fr) \<and> fr_free fr' = drop (length is) (fr_free fr) \<and> length fs = length is \<and>
    (\<forall>f. f \<notin> set fs \<longrightarrow> fr_mem fr' f = fr_mem fr f)"
  using assms
proof (induction "is" arbitrary: fr fs)
  case (Cons i "is")
  then obtain f r gs where r: "fr_free fr = f # r" "fs = f # gs"
    "section_pages init is (fr\<lparr>fr_free := r, fr_mem := (fr_mem fr)(f := take 4096 (drop (i * 4096) init) @
       replicate (4096 - length (take 4096 (drop (i * 4096) init))) 0)\<rparr>) = Some (gs, fr')"
    by (auto simp: frame_alloc_def bind_eq_Some_conv Let_def split: list.splits)
  show ?case using Cons.IH [OF r(3)] r(1,2) by auto
qed auto

lemma section_pages_contents:
  assumes "section_pages init is fr = Some (fs, fr')" "distinct (fr_free fr)"
  shows "map (fr_mem fr') fs =
    map (\<lambda>i. let p = take 4096 (drop (i * 4096) init) in p @ replicate (4096 - length p) 0) is"
  using assms
proof (induction "is" arbitrary: fr fs)
  case (Cons i "is")
  then obtain f r gs where r: "fr_free fr = f # r" "fs = f # gs"
    "section_pages init is (fr\<lparr>fr_free := r, fr_mem := (fr_mem fr)(f := take 4096 (drop (i * 4096) init) @
       replicate (4096 - length (take 4096 (drop (i * 4096) init))) 0)\<rparr>) = Some (gs, fr')"
    by (auto simp: frame_alloc_def bind_eq_Some_conv Let_def split: list.splits)
  note P = section_pages_mem [OF r(3)]
  have "f \<notin> set gs" using P Cons.prems(2) r(1) by (auto dest: in_set_takeD)
  then have "fr_mem fr' f = take 4096 (drop (i * 4096) init) @
      replicate (4096 - length (take 4096 (drop (i * 4096) init))) 0" using P by simp
  moreover have "map (fr_mem fr') gs =
      map (\<lambda>i. let p = take 4096 (drop (i * 4096) init) in p @ replicate (4096 - length p) 0) is"
    using Cons.IH [OF r(3)] Cons.prems(2) r(1) by simp
  ultimately show ?case using r(2) by (simp add: Let_def)
qed auto

text \<open>A writer that takes every byte collects the first \<open>size\<close> bytes of the frames.\<close>

lemma flush_pages_all:
  assumes "\<forall>f \<in> set fs. length (mem f) = 4096"
  shows "flush_pages (\<lambda>bs acc. (int (length bs), acc @ bs)) mem n fs acc =
    (True, acc @ take n (concat (map mem fs)))"
  using assms
proof (induction fs arbitrary: n acc)
  case (Cons f fs)
  have "take n (mem f @ concat (map mem fs)) = take (min n 4096) (mem f) @ take (n - min n 4096) (concat (map mem fs))"
    using Cons.prems by (cases "n \<le> 4096") (auto simp: min_def)
  then show ?case using Cons by (simp add: Let_def)
qed simp

lemma concat_pages:
  fixes init :: "byte list"
  shows "concat (map (\<lambda>i. let p = take 4096 (drop (i * 4096) init) in p @ replicate (4096 - length p) 0) [0..<m]) =
   take (m * 4096) init @ replicate (m * 4096 - length init) 0"
proof (induction m)
  case (Suc m)
  let ?p = "take 4096 (drop (m * 4096) init)"
  show ?case
  proof (cases "m * 4096 \<le> length init")
    case True
    then have "take (m * 4096) init @ ?p = take (Suc m * 4096) init"
      by (simp add: take_add [symmetric] add.commute)
    moreover have "4096 - length ?p = Suc m * 4096 - length init" using True by auto
    ultimately show ?thesis using Suc True by (simp add: Let_def)
  next
    case False
    then have "?p = []" "take (Suc m * 4096) init = init" "take (m * 4096) init = init" by simp_all
    moreover have "replicate (m * 4096 - length init) (0 :: byte) @ replicate 4096 0 = replicate (Suc m * 4096 - length init) 0"
      using False by (simp flip: replicate_add)
    ultimately show ?thesis using Suc by (simp add: Let_def)
  qed
qed simp

lemma map_frames_at_lookup:
  assumes "mapper_laws mp" "map_frames_at mp v fs st = Some st'"
  shows "(\<forall>p. mapping mp st p \<noteq> None \<longrightarrow> mapping mp st' p = mapping mp st p) \<and>
    (\<forall>k < length fs. mapping mp st' (frame_base (page_at v k)) = Some (frame_base (fs ! k), page_flags True True False)) \<and>
    fr_mem (snd st') = fr_mem (snd st)"
  using assms(2)
proof (induction fs arbitrary: v st)
  case (Cons f fs)
  obtain s1 where s1: "space_map mp v f True False st = Some s1" "map_frames_at mp (v + 4096) fs s1 = Some st'"
    using Cons.prems by (auto simp: bind_eq_Some_conv)
  note M = space_map_Some [OF assms(1) s1(1)] and I = Cons.IH [OF s1(2)]
  have "mapping mp st' (frame_base (page_at v k)) = Some (frame_base ((f # fs) ! k), page_flags True True False)"
    if "k < Suc (length fs)" for k
    using that I M by (cases k) (auto simp: page_at_Suc)
  moreover have "mapping mp st' p = mapping mp st p" if "mapping mp st p \<noteq> None" for p
    using that I M by (metis fun_upd_other option.distinct(1))
  moreover have "fr_mem (snd st') = fr_mem (snd st)" using I M by auto
  ultimately show ?case by simp
qed auto



lemma find_index_find: "find P xs = map_option (nth xs) (find_index P xs)"
  by (induction xs) (auto simp: option.map_comp o_def)

text \<open>Unmapping a view always flushes its section, even when the flush fails.\<close>

lemma unmap_view_flushes:
  assumes "unmap_view mp secs sk wr mem base sp f = Some (r, sp', f')"
  shows "if r then \<exists>sid. view_at base sp = Some sid \<and> f' = snd (flush_view secs sk wr mem base sp f)
         else view_at base sp = None \<and> sp' = sp \<and> f' = f"
proof (cases "find_index (\<lambda>v. v_base v = base) (sp_views sp)")
  case None
  then have "find (\<lambda>v. v_base v = base) (sp_views sp) = None" by (simp add: find_index_find)
  then show ?thesis using assms None by (simp add: unmap_view_def view_at_def)
next
  case (Some i)
  then have "find (\<lambda>v. v_base v = base) (sp_views sp) = Some (sp_views sp ! i)" by (simp add: find_index_find)
  then show ?thesis using assms Some
    by (auto simp: unmap_view_def view_at_def flush_view_def bind_eq_Some_conv Let_def)
qed

end
