(* ===== verification/Program_Load.thy ===== *)
theory Program_Load
  imports Address_Space
begin

text \<open>
  Loading a program (\<open>kernel/src/elf.rs\<close>, the stack set-up of \<open>kernel/src/process.rs\<close>): copying bytes
  into an address space, mapping the segments of an ELF image and laying out the stack its entry
  point expects.  \<open>None\<close> is a panic.
\<close>

unbundle bit_operations_syntax

section \<open>Copying into an address space\<close>

text \<open>\<open>tr\<close> is the address translation of the target space; memory is the contents of the frames.\<close>

type_synonym memory = "u64 \<Rightarrow> byte list"

definition space_translate :: "'pt mapper \<Rightarrow> 'pt space \<Rightarrow> u64 \<Rightarrow> u64 option" where
  "space_translate mp sp v =
     map_option (\<lambda>(f, _). f + (v AND 0xFFF)) (mp_lookup mp (sp_pt sp) (frame_base v))"

lemma page_offset: "unat (v AND 0xFFF) = unat v mod 4096" for v :: u64
proof -
  have "v AND 0xFFF = take_bit 12 v" by (simp add: take_bit_eq_mask mask_eq_exp_minus_1)
  then show ?thesis using unat_take_bit [of 12 v] by simp
qed

function write_user :: "(u64 \<Rightarrow> u64 option) \<Rightarrow> u64 \<Rightarrow> byte list \<Rightarrow> memory \<Rightarrow> memory option" where
  "write_user tr virt data mem =
     (if data = [] then Some mem
      else case tr virt of
             None \<Rightarrow> None
           | Some phys \<Rightarrow>
               let off = unat (virt AND 0xFFF); n = min (4096 - off) (length data);
                   f = frame_base phys
               in write_user tr (virt + of_nat n) (drop n data)
                    (mem(f := splice (unat (phys AND 0xFFF)) (take n data) (mem f))))"
  by pat_completeness auto
termination
  by (relation "measure (\<lambda>(tr, virt, data, mem). length data)") (auto simp: page_offset)

declare write_user.simps [simp del]

section \<open>The initial stack\<close>

record image =
  im_entry :: u64
  im_phdr :: u64
  im_phent :: u64
  im_phnum :: u64

definition stack_push :: "(u64 \<Rightarrow> u64 option) \<Rightarrow> byte list \<Rightarrow> u64 \<times> memory \<Rightarrow> (u64 \<times> memory) option" where
  "stack_push tr bytes st =
     (case st of (cur, mem) \<Rightarrow>
        let cur' = cur - of_nat (length bytes)
        in map_option (Pair cur') (write_user tr cur' bytes mem))"

fun push_strings :: "(u64 \<Rightarrow> u64 option) \<Rightarrow> string list \<Rightarrow> u64 \<times> memory \<Rightarrow> (u64 list \<times> u64 \<times> memory) option" where
  "push_strings tr [] st = Some ([], st)"
| "push_strings tr (s # ss) st =
     do { (cur, mem) \<leftarrow> stack_push tr (as_bytes s @ [0]) st;
          (ps, st') \<leftarrow> push_strings tr ss (cur, mem);
          Some (cur # ps, st') }"

definition word_bytes :: "u64 list \<Rightarrow> byte list" where
  "word_bytes ws = concat (map (\<lambda>w. le_bytes 8 (unat w)) ws)"

definition auxv :: "image \<Rightarrow> u64 \<Rightarrow> u64 \<Rightarrow> u64 list" where
  "auxv img rand_addr execfn =
     [3, im_phdr img, 4, im_phent img, 5, im_phnum img, 6, 4096, 9, im_entry img, 25, rand_addr, 31, execfn, 0, 0]"

definition stack_words :: "string list \<Rightarrow> u64 list \<Rightarrow> u64 list \<Rightarrow> image \<Rightarrow> u64 \<Rightarrow> u64 list" where
  "stack_words argv arg_ptrs env_ptrs img rand_addr =
     [of_nat (length argv)] @ arg_ptrs @ [0] @ env_ptrs @ [0] @
     auxv img rand_addr (case arg_ptrs of [] \<Rightarrow> 0 | p # _ \<Rightarrow> p)"

definition init_stack :: "(u64 \<Rightarrow> u64 option) \<Rightarrow> u64 \<Rightarrow> string list \<Rightarrow> string list \<Rightarrow> image \<Rightarrow> memory
    \<Rightarrow> (u64 \<times> memory) option" where
  "init_stack tr stack_top argv envp img mem =
     do { (rand_addr, mem1) \<leftarrow> stack_push tr (replicate 16 0x5A) (stack_top, mem);
          (arg_ptrs, st2) \<leftarrow> push_strings tr argv (rand_addr, mem1);
          (env_ptrs, cur, mem3) \<leftarrow> push_strings tr envp st2;
          let words = stack_words argv arg_ptrs env_ptrs img rand_addr;
              block_bytes = of_nat (length words * 8);
              cur' = cur - (cur - block_bytes) mod 16;
              rsp = cur' - block_bytes
          in map_option (Pair rsp) (write_user tr rsp (word_bytes words) mem3) }"

section \<open>ELF images\<close>

definition segment_bytes :: "byte list \<Rightarrow> u64 \<Rightarrow> u64 \<Rightarrow> u64 \<Rightarrow> u64 \<Rightarrow> byte list option" where
  "segment_bytes img p_offset p_vaddr p_filesz page =
     (let copy_lo = max page p_vaddr; copy_hi = min (page + 4096) (p_vaddr + p_filesz)
      in if copy_lo < copy_hi
         then let src = unat (p_offset + (copy_lo - p_vaddr)); n = unat (copy_hi - copy_lo); dst_off = unat (copy_lo - page)
              in map_option (\<lambda>bs. splice dst_off bs (replicate 4096 0)) (get_range img src (src + n))
         else Some (replicate 4096 0))"

definition map_segment_page :: "'pt mapper \<Rightarrow> byte list \<Rightarrow> u64 \<Rightarrow> u64 \<Rightarrow> u64 \<Rightarrow> u32 \<Rightarrow> u64 \<Rightarrow> 'pt aspace \<Rightarrow> 'pt aspace option" where
  "map_segment_page mp img p_offset p_vaddr p_filesz flags page st =
     (case st of (sp, fr) \<Rightarrow>
        do { (f, fr1) \<leftarrow> frame_alloc fr;
             content \<leftarrow> segment_bytes img p_offset p_vaddr p_filesz page;
             space_map mp page f True (flags AND 1 \<noteq> 0)
               (sp, fr1\<lparr>fr_mem := (fr_mem fr1)(f := content)\<rparr>) })"

partial_function (option) map_segment_pages :: "'pt mapper \<Rightarrow> byte list \<Rightarrow> u64 \<Rightarrow> u64 \<Rightarrow> u64 \<Rightarrow> u64 \<Rightarrow> u32 \<Rightarrow> u64 \<Rightarrow> 'pt aspace \<Rightarrow> 'pt aspace option" where
  "map_segment_pages mp img p_offset p_vaddr p_filesz vend flags page st =
     (if page < vend
      then Option.bind (map_segment_page mp img p_offset p_vaddr p_filesz flags page st)
             (\<lambda>st'. map_segment_pages mp img p_offset p_vaddr p_filesz vend flags (page + 4096) st')
      else Some st)"

definition map_segment :: "'pt mapper \<Rightarrow> byte list \<Rightarrow> u64 \<Rightarrow> u64 \<Rightarrow> u64 \<Rightarrow> u64 \<Rightarrow> u32 \<Rightarrow> 'pt aspace \<Rightarrow> 'pt aspace option" where
  "map_segment mp img p_offset p_vaddr p_filesz p_memsz flags st =
     map_segment_pages mp img p_offset p_vaddr p_filesz (p_vaddr + p_memsz) flags (frame_base p_vaddr) st"

text \<open>One program header: slices of the image are checked, out of range is a panic.\<close>

definition load_header :: "'pt mapper \<Rightarrow> byte list \<Rightarrow> u64 \<Rightarrow> u64 \<Rightarrow> nat \<Rightarrow> u64 \<times> 'pt aspace \<Rightarrow> (u64 \<times> 'pt aspace) option" where
  "load_header mp img e_phoff e_phentsize i acc =
     (case acc of (phdr, st) \<Rightarrow>
        let at = unat (e_phoff + of_nat i * e_phentsize)
        in if length img < at then None
           else do { ty \<leftarrow> rd_le 4 img at;
                     if ty \<noteq> 1 then Some (phdr, st)
                     else do { flags \<leftarrow> rd_le 4 img (at + 4);
                               p_offset \<leftarrow> rd_le 8 img (at + 8);
                               p_vaddr \<leftarrow> rd_le 8 img (at + 16);
                               p_filesz \<leftarrow> rd_le 8 img (at + 32);
                               p_memsz \<leftarrow> rd_le 8 img (at + 40);
                               let off = of_nat p_offset :: u64; va = of_nat p_vaddr :: u64; fsz = of_nat p_filesz :: u64;
                                   phdr' = (if off \<le> e_phoff \<and> e_phoff < off + fsz then va + (e_phoff - off) else phdr)
                               in map_option (Pair phdr')
                                    (map_segment mp img off va fsz (of_nat p_memsz) (of_nat flags) st) } })"

fun load_headers :: "'pt mapper \<Rightarrow> byte list \<Rightarrow> u64 \<Rightarrow> u64 \<Rightarrow> nat list \<Rightarrow> u64 \<times> 'pt aspace \<Rightarrow> (u64 \<times> 'pt aspace) option" where
  "load_headers mp img e_phoff e_phentsize [] acc = Some acc"
| "load_headers mp img e_phoff e_phentsize (i # is) acc =
     Option.bind (load_header mp img e_phoff e_phentsize i acc) (load_headers mp img e_phoff e_phentsize is)"

definition rd_at :: "nat \<Rightarrow> byte list \<Rightarrow> nat \<Rightarrow> nat" where
  "rd_at n b off = le_val (take n (drop off b))"

definition elf_load :: "'pt mapper \<Rightarrow> byte list \<Rightarrow> 'pt aspace \<Rightarrow> ((string, image) result \<times> 'pt aspace) option" where
  "elf_load mp img st =
     (if length img < 64 \<or> take 4 img \<noteq> [0x7F, 0x45, 0x4C, 0x46] then Some (Inl ''not an ELF'', st)
      else if img ! 4 \<noteq> 2 then Some (Inl ''not ELF64'', st)
      else if img ! 5 \<noteq> 1 then Some (Inl ''not little-endian'', st)
      else if rd_at 2 img 16 \<noteq> 2 then Some (Inl ''not ET_EXEC'', st)
      else if rd_at 2 img 18 \<noteq> 0x3E then Some (Inl ''not x86-64'', st)
      else let e_entry = of_nat (rd_at 8 img 24); e_phoff = of_nat (rd_at 8 img 32);
               e_phentsize = of_nat (rd_at 2 img 54); e_phnum = rd_at 2 img 56
           in map_option (\<lambda>(phdr, st'). (Inr \<lparr>im_entry = e_entry, im_phdr = phdr, im_phent = e_phentsize,
                                                im_phnum = of_nat e_phnum\<rparr>, st'))
                (load_headers mp img e_phoff e_phentsize [0..<e_phnum] (0, st)))"

section \<open>What a program finds on its stack\<close>

text \<open>
  A region of user addresses is backed when the page with number \<open>q\<close> is translated to the frame \<open>fr q\<close>,
  the frames are page-aligned and distinct, and each holds 4096 bytes.  The region's bytes are then a
  function of the address.
\<close>

definition backed :: "(u64 \<Rightarrow> u64 option) \<Rightarrow> (nat \<Rightarrow> u64) \<Rightarrow> nat \<Rightarrow> nat \<Rightarrow> bool" where
  "backed tr fr lo hi \<longleftrightarrow> hi < 2 ^ 64 \<and>
     (\<forall>a. lo \<le> a \<longrightarrow> a < hi \<longrightarrow> tr (of_nat a) = Some (fr (a div 4096) + of_nat (a mod 4096)) \<and>
           frame_base (fr (a div 4096)) = fr (a div 4096)) \<and>
     inj_on fr {q. \<exists>a. lo \<le> a \<and> a < hi \<and> q = a div 4096}"

definition full_frames :: "(nat \<Rightarrow> u64) \<Rightarrow> nat \<Rightarrow> nat \<Rightarrow> memory \<Rightarrow> bool" where
  "full_frames fr lo hi mem \<longleftrightarrow> (\<forall>a. lo \<le> a \<longrightarrow> a < hi \<longrightarrow> length (mem (fr (a div 4096))) = 4096)"

definition user_byte :: "(nat \<Rightarrow> u64) \<Rightarrow> memory \<Rightarrow> nat \<Rightarrow> byte" where
  "user_byte fr mem a = mem (fr (a div 4096)) ! (a mod 4096)"

definition user_bytes :: "(nat \<Rightarrow> u64) \<Rightarrow> memory \<Rightarrow> nat \<Rightarrow> nat \<Rightarrow> byte list" where
  "user_bytes fr mem a n = map (user_byte fr mem) [a..<a + n]"

lemma frame_offset:
  assumes "frame_base f = f" "r < 4096"
  shows "frame_base (f + of_nat r) = f" "unat ((f + of_nat r) AND 0xFFF) = r"
proof -
  have al: "unat f mod 4096 = 0" using assms(1) by (simp add: page_aligned_iff)
  have f: "unat f < 18446744073709551616" using unsigned_less [of f] by simp
  define q where "q = unat f div 4096"
  have q: "unat f = 4096 * q" using al by (simp add: q_def minus_mod_eq_mult_div [symmetric])
  then have "q < 4503599627370496" using f by simp
  then have lt: "unat f + r < 18446744073709551616" using assms(2) q by linarith
  have "unat (of_nat r :: u64) = r" using assms(2) by (intro unat_of_nat_u64) simp
  then have u: "unat (f + of_nat r) = unat f + r" using lt by (simp add: unat_word_ariths)
  then show "unat ((f + of_nat r) AND 0xFFF) = r" using assms(2) by (simp add: page_offset q)
  have "unat (frame_base (f + of_nat r)) = unat f" using assms(2) by (simp add: unat_frame_base u q)
  then show "frame_base (f + of_nat r) = f" by (simp add: word_unat_eq_iff)
qed

lemma div_mod_page:
  fixes a k :: nat
  assumes "a mod 4096 + k < 4096"
  shows "(a + k) div 4096 = a div 4096" "(a + k) mod 4096 = a mod 4096 + k"
proof -
  have e: "a + k = (a mod 4096 + k) + a div 4096 * 4096" by simp
  show "(a + k) div 4096 = a div 4096" using assms by (subst e) (simp only: div_mult_self1 div_less)
  show "(a + k) mod 4096 = a mod 4096 + k" using assms by (subst e) (simp only: mod_mult_self1 mod_less)
qed

text \<open>One round of the copy changes exactly the bytes of one page that it covers.\<close>

lemma write_round:
  assumes b: "backed tr fr lo hi" and ff: "full_frames fr lo hi mem"
    and r: "lo \<le> a" "a + n \<le> hi" "0 < n" "a mod 4096 + n \<le> 4096" and l: "length bs = n"
    and mem': "mem' = mem(fr (a div 4096) := splice (a mod 4096) bs (mem (fr (a div 4096))))"
  shows "full_frames fr lo hi mem'"
    "\<And>x. lo \<le> x \<Longrightarrow> x < hi \<Longrightarrow>
       user_byte fr mem' x = (if a \<le> x \<and> x < a + n then bs ! (x - a) else user_byte fr mem x)"
proof -
  have len: "length (mem (fr (a div 4096))) = 4096" using ff r by (simp add: full_frames_def)
  show "full_frames fr lo hi mem'" using ff len r l by (simp add: full_frames_def mem')
  fix x assume x: "lo \<le> x" "x < hi"
  have inj: "fr (x div 4096) = fr (a div 4096) \<longleftrightarrow> x div 4096 = a div 4096"
    using b x r unfolding backed_def by (intro inj_on_eq_iff [of fr "{q. \<exists>a. lo \<le> a \<and> a < hi \<and> q = a div 4096}"]) auto
  show "user_byte fr mem' x = (if a \<le> x \<and> x < a + n then bs ! (x - a) else user_byte fr mem x)"
  proof (cases "x div 4096 = a div 4096")
    case True
    have d: "x = a div 4096 * 4096 + x mod 4096" "a = a div 4096 * 4096 + a mod 4096" using True by (metis div_mult_mod_eq)+
    have "a mod 4096 \<le> x mod 4096 \<longleftrightarrow> a \<le> x" "x mod 4096 < a mod 4096 + n \<longleftrightarrow> x < a + n"
      "x mod 4096 - a mod 4096 = x - a" using d by linarith+
    then show ?thesis
      using len r l True by (simp add: user_byte_def mem' nth_splice)
  next
    case False
    have "\<not> (a \<le> x \<and> x < a + n)"
    proof
      assume ax: "a \<le> x \<and> x < a + n"
      then have "a mod 4096 + (x - a) < 4096" using r by linarith
      from div_mod_page(1) [OF this] show False using False ax by simp
    qed
    then show ?thesis using inj False by (auto simp: user_byte_def mem')
  qed
qed

lemma write_user_bytes:
  assumes b: "backed tr fr lo hi" and ff: "full_frames fr lo hi mem" and r: "lo \<le> a" "a + length data \<le> hi"
  shows "\<exists>mem'. write_user tr (of_nat a) data mem = Some mem' \<and> full_frames fr lo hi mem' \<and>
    (\<forall>x. lo \<le> x \<longrightarrow> x < hi \<longrightarrow>
       user_byte fr mem' x = (if a \<le> x \<and> x < a + length data then data ! (x - a) else user_byte fr mem x))"
  using ff r
proof (induction "length data" arbitrary: a data mem rule: less_induct)
  case less
  show ?case
  proof (cases "data = []")
    case True
    then show ?thesis using less.prems(1) by (auto simp: write_user.simps [of _ _ "[]"])
  next
    case False
    define n where "n = min (4096 - a mod 4096) (length data)"
    let ?f = "fr (a div 4096)"
    let ?m = "mem(?f := splice (a mod 4096) (take n data) (mem ?f))"
    have hi: "hi < 18446744073709551616" using b by (simp add: backed_def)
    have ah: "a < hi" using less.prems(3) False by (cases data) auto
    have ua: "unat (of_nat a :: u64) = a" using ah hi by (intro unat_of_nat_u64) simp
    have tr: "tr (of_nat a) = Some (?f + of_nat (a mod 4096))" "frame_base ?f = ?f"
      using b less.prems(2) ah unfolding backed_def by blast+
    note fo = frame_offset [OF tr(2), of "a mod 4096"]
    have n: "0 < n" "n \<le> length data" "a mod 4096 + n \<le> 4096" using False by (auto simp: n_def)
    note R = write_round [OF b less.prems(1,2) _ n(1,3), of "take n data" ?m]
    have an: "a + n \<le> hi" using less.prems(3) n(2) by linarith
    have "\<exists>mem'. write_user tr (of_nat (a + n)) (drop n data) ?m = Some mem' \<and> full_frames fr lo hi mem' \<and>
      (\<forall>x. lo \<le> x \<longrightarrow> x < hi \<longrightarrow> user_byte fr mem' x =
         (if a + n \<le> x \<and> x < a + n + length (drop n data) then drop n data ! (x - (a + n)) else user_byte fr ?m x))"
      using less.prems(2,3) n R(1) an False by (intro less.hyps) auto
    then obtain mem' where w: "write_user tr (of_nat (a + n)) (drop n data) ?m = Some mem'" "full_frames fr lo hi mem'"
      "\<And>x. lo \<le> x \<Longrightarrow> x < hi \<Longrightarrow> user_byte fr mem' x =
         (if a + n \<le> x \<and> x < a + length data then drop n data ! (x - (a + n)) else user_byte fr ?m x)"
      using n(2) by auto
    have "write_user tr (of_nat a) data mem = Some mem'"
      using w(1) False tr(1) fo by (subst write_user.simps) (simp add: page_offset ua Let_def n_def)
    moreover have "user_byte fr mem' x = (if a \<le> x \<and> x < a + length data then data ! (x - a) else user_byte fr mem x)"
      if x: "lo \<le> x" "x < hi" for x
    proof (cases "a + n \<le> x \<and> x < a + length data")
      case True
      then show ?thesis using w(3) [OF x] n(2) by (simp add: add.commute)
    next
      case False
      then have "user_byte fr mem' x = user_byte fr ?m x" by (rule trans [OF w(3) [OF x] if_not_P])
      then show ?thesis using R(2) [OF an _ _ x] n(2) False by auto
    qed
    ultimately show ?thesis using w(2) by blast
  qed
qed

text \<open>\<open>unchanged\<close> outside \<open>[a, b)\<close>.\<close>

definition only_within :: "(nat \<Rightarrow> u64) \<Rightarrow> nat \<Rightarrow> nat \<Rightarrow> nat \<Rightarrow> nat \<Rightarrow> memory \<Rightarrow> memory \<Rightarrow> bool" where
  "only_within fr lo hi a b mem mem' \<longleftrightarrow>
     (\<forall>x. lo \<le> x \<longrightarrow> x < hi \<longrightarrow> \<not> (a \<le> x \<and> x < b) \<longrightarrow> user_byte fr mem' x = user_byte fr mem x)"

lemma only_within_trans:
  "only_within fr lo hi b c m1 m2 \<Longrightarrow> only_within fr lo hi a b m2 m3 \<Longrightarrow> a \<le> b \<Longrightarrow> b \<le> c \<Longrightarrow>
   only_within fr lo hi a c m1 m3"
  by (auto simp: only_within_def)

lemma user_bytes_keep:
  assumes "only_within fr lo hi a b m m'" "lo \<le> x" "x + n \<le> hi" "b \<le> x"
  shows "user_bytes fr m' x n = user_bytes fr m x n"
  using assms by (auto simp: user_bytes_def only_within_def)

lemma write_user_block:
  assumes "backed tr fr lo hi" "full_frames fr lo hi mem" "lo \<le> a" "a + length data \<le> hi"
  shows "\<exists>mem'. write_user tr (of_nat a) data mem = Some mem' \<and> full_frames fr lo hi mem' \<and>
    only_within fr lo hi a (a + length data) mem mem' \<and> user_bytes fr mem' a (length data) = data"
proof -
  obtain mem' where w: "write_user tr (of_nat a) data mem = Some mem'" "full_frames fr lo hi mem'"
    "\<forall>x. lo \<le> x \<longrightarrow> x < hi \<longrightarrow>
       user_byte fr mem' x = (if a \<le> x \<and> x < a + length data then data ! (x - a) else user_byte fr mem x)"
    using write_user_bytes [OF assms] by blast
  have "user_bytes fr mem' a (length data) = data"
    using w(3) assms(3,4) by (auto simp: user_bytes_def intro: nth_equalityI)
  then show ?thesis using w by (auto simp: only_within_def)
qed

lemma stack_push_block:
  assumes "backed tr fr lo hi" "full_frames fr lo hi mem" "lo + length bytes \<le> cur" "cur \<le> hi"
  shows "\<exists>mem'. stack_push tr bytes (of_nat cur, mem) = Some (of_nat (cur - length bytes), mem') \<and>
    full_frames fr lo hi mem' \<and> only_within fr lo hi (cur - length bytes) cur mem mem' \<and>
    user_bytes fr mem' (cur - length bytes) (length bytes) = bytes"
  using write_user_block [of tr fr lo hi mem "cur - length bytes" bytes] assms
  by (auto simp: stack_push_def Let_def of_nat_diff)

definition strings_size :: "string list \<Rightarrow> nat" where
  "strings_size ss = sum_list (map (\<lambda>s. Suc (length s)) ss)"

text \<open>The strings \<open>ss\<close> lie at the addresses \<open>ps\<close>, each followed by a zero byte.\<close>

definition strings_at :: "(nat \<Rightarrow> u64) \<Rightarrow> memory \<Rightarrow> nat list \<Rightarrow> string list \<Rightarrow> bool" where
  "strings_at fr mem ps ss \<longleftrightarrow>
     list_all2 (\<lambda>p s. user_bytes fr mem p (Suc (length s)) = as_bytes s @ [0]) ps ss"

definition strings_in :: "nat \<Rightarrow> nat \<Rightarrow> nat list \<Rightarrow> string list \<Rightarrow> bool" where
  "strings_in a b ps ss \<longleftrightarrow> list_all2 (\<lambda>p s. a \<le> p \<and> p + Suc (length s) \<le> b) ps ss"

lemma strings_at_keep:
  assumes "strings_at fr m ps ss" "strings_in c d ps ss" "only_within fr lo hi a b m m'" "lo \<le> c" "d \<le> hi" "b \<le> c"
  shows "strings_at fr m' ps ss"
proof -
  have "user_bytes fr m' p (Suc (length s)) = user_bytes fr m p (Suc (length s))"
    if "c \<le> p" "p + Suc (length s) \<le> d" for p and s :: string
    by (rule user_bytes_keep [OF assms(3)]) (use that assms(4-6) in linarith)+
  then show ?thesis
    using assms(1,2) unfolding strings_at_def strings_in_def by (fastforce simp: list_all2_conv_all_nth)
qed

lemma push_strings_block:
  assumes b: "backed tr fr lo hi" and "full_frames fr lo hi mem" "lo + strings_size ss \<le> cur" "cur \<le> hi"
  shows "\<exists>ps mem'. push_strings tr ss (of_nat cur, mem) = Some (map of_nat ps, of_nat (cur - strings_size ss), mem') \<and>
    full_frames fr lo hi mem' \<and> only_within fr lo hi (cur - strings_size ss) cur mem mem' \<and>
    strings_at fr mem' ps ss \<and> strings_in (cur - strings_size ss) cur ps ss"
  using assms(2-4)
proof (induction ss arbitrary: cur mem)
  case Nil
  then show ?case by (auto simp: strings_size_def only_within_def strings_at_def strings_in_def)
next
  case (Cons s ss)
  let ?c = "cur - Suc (length s)"
  have sz: "strings_size (s # ss) = Suc (length s) + strings_size ss" by (simp add: strings_size_def)
  obtain m1 where m1: "stack_push tr (as_bytes s @ [0]) (of_nat cur, mem) = Some (of_nat ?c, m1)" "full_frames fr lo hi m1"
    "only_within fr lo hi ?c cur mem m1" "user_bytes fr m1 ?c (Suc (length s)) = as_bytes s @ [0]"
    using stack_push_block [OF b Cons.prems(1), of "as_bytes s @ [0]" cur] Cons.prems(2,3) sz by auto
  have room: "lo + strings_size ss \<le> ?c" "?c \<le> hi" using Cons.prems(2,3) sz by simp_all
  obtain ps m2 where m2: "push_strings tr ss (of_nat ?c, m1) = Some (map of_nat ps, of_nat (?c - strings_size ss), m2)"
    "full_frames fr lo hi m2" "only_within fr lo hi (?c - strings_size ss) ?c m1 m2"
    "strings_at fr m2 ps ss" "strings_in (?c - strings_size ss) ?c ps ss"
    using Cons.IH [OF m1(2) room] by blast
  have e: "?c - strings_size ss = cur - strings_size (s # ss)" using sz by simp
  have "user_bytes fr m2 ?c (Suc (length s)) = as_bytes s @ [0]"
    using user_bytes_keep [OF m2(3), of ?c "Suc (length s)"] m1(4) Cons.prems(2,3) sz by simp
  then have "strings_at fr m2 (?c # ps) (s # ss)" using m2(4) by (simp add: strings_at_def)
  moreover have "strings_in (cur - strings_size (s # ss)) cur (?c # ps) (s # ss)"
    using m2(5) Cons.prems(2) sz unfolding strings_in_def e by (auto elim!: list_all2_mono)
  moreover have "only_within fr lo hi (cur - strings_size (s # ss)) cur mem m2"
    using only_within_trans [OF m1(3) m2(3)] e by simp
  ultimately show ?case
    using m1(1) m2(1,2) e by (intro exI [of _ "?c # ps"] exI [of _ m2]) simp
qed

lemma length_word_bytes [simp]: "length (word_bytes ws) = 8 * length ws"
  by (induction ws) (simp_all add: word_bytes_def)

lemma length_stack_words:
  "length (stack_words argv aps eps img r) = length aps + length eps + 19"
  by (simp add: stack_words_def auxv_def)

lemma rsp_nat:
  assumes "c < 2 ^ 64" "n \<le> c"
  shows "(of_nat c :: u64) - (of_nat c - of_nat n) mod 16 - of_nat n = of_nat (c - n - (c - n) mod 16)"
proof -
  have u: "unat (of_nat (c - n) :: u64) = c - n" using assms(1) by (intro unat_of_nat_u64) simp
  have "(of_nat c - of_nat n :: u64) mod 16 = of_nat ((c - n) mod 16)"
    by (rule word_unat_eq_iff [THEN iffD2]) (use assms(2) u in \<open>simp add: unat_mod unat_of_nat flip: of_nat_diff\<close>)
  moreover have "(c - n) mod 16 \<le> c - n" by simp
  ultimately show ?thesis using assms(2) by (simp add: of_nat_diff algebra_simps)
qed

text \<open>C34. The stack a program starts with: in a backed region with enough room the set-up succeeds;
  the stack pointer is a multiple of 16 inside the region; the words from it up are the argument
  count, the argument pointers and a null, the environment pointers and a null, and the auxiliary
  vector; every pointer is the address of its string with a closing zero byte; the random bytes
  lie where the vector says; and no byte of the region below the stack pointer or from the top on
  changes.\<close>

theorem init_stack_layout:
  assumes b: "backed tr fr lo hi" and ff: "full_frames fr lo hi mem" and tp: "stop \<le> hi"
    and room: "lo + 31 + strings_size argv + strings_size envp + 8 * (length argv + length envp + 19) \<le> stop"
  shows "\<exists>rsp rand aps eps mem'. init_stack tr (of_nat stop) argv envp img mem = Some (of_nat rsp, mem') \<and>
    rsp mod 16 = 0 \<and> lo \<le> rsp \<and> rsp + 8 * (length argv + length envp + 19) \<le> stop \<and>
    user_bytes fr mem' rsp (8 * (length argv + length envp + 19)) =
      word_bytes (stack_words argv (map of_nat aps) (map of_nat eps) img (of_nat rand)) \<and>
    strings_at fr mem' aps argv \<and> strings_at fr mem' eps envp \<and>
    user_bytes fr mem' rand 16 = replicate 16 0x5A \<and> only_within fr lo hi rsp stop mem mem'"
proof -
  define n where "n = 8 * (length argv + length envp + 19)"
  define c0 where "c0 = stop - 16"
  define c1 where "c1 = c0 - strings_size argv"
  define c2 where "c2 = c1 - strings_size envp"
  define rsp where "rsp = c2 - n - (c2 - n) mod 16"
  have md: "(c2 - n) mod 16 < 16" "(c2 - n) mod 16 \<le> c2 - n" by simp_all
  have le: "lo + 15 + n \<le> c2" "c2 \<le> c1" "c1 \<le> c0" "c0 \<le> stop" "c0 + 16 = stop"
    "lo + strings_size envp \<le> c1" "lo + strings_size argv \<le> c0"
    using room by (simp_all add: n_def c0_def c1_def c2_def)
  have rsp: "lo \<le> rsp" "rsp + n \<le> c2" using le(1) md unfolding rsp_def by linarith+
  obtain m0 where m0: "stack_push tr (replicate 16 0x5A) (of_nat stop, mem) = Some (of_nat c0, m0)" "full_frames fr lo hi m0"
    "only_within fr lo hi c0 stop mem m0" "user_bytes fr m0 c0 16 = replicate 16 0x5A"
    using stack_push_block [OF b ff, of "replicate 16 0x5A" stop] room tp by (auto simp: c0_def)
  obtain aps m1 where m1: "push_strings tr argv (of_nat c0, m0) = Some (map of_nat aps, of_nat c1, m1)" "full_frames fr lo hi m1"
    "only_within fr lo hi c1 c0 m0 m1" "strings_at fr m1 aps argv" "strings_in c1 c0 aps argv"
    using push_strings_block [OF b m0(2) le(7)] le tp by (auto simp: c1_def)
  obtain eps m2 where m2: "push_strings tr envp (of_nat c1, m1) = Some (map of_nat eps, of_nat c2, m2)" "full_frames fr lo hi m2"
    "only_within fr lo hi c2 c1 m1 m2" "strings_at fr m2 eps envp" "strings_in c2 c1 eps envp"
    using push_strings_block [OF b m1(2) le(6)] le tp by (auto simp: c2_def)
  let ?ws = "stack_words argv (map of_nat aps) (map of_nat eps) img (of_nat c0)"
  have lens: "length aps = length argv" "length eps = length envp"
    using m1(4) m2(4) by (auto simp: strings_at_def dest: list_all2_lengthD)
  have len: "8 * length ?ws = n" by (simp add: length_stack_words lens n_def)
  have rn: "rsp + n \<le> hi" using rsp le tp by linarith
  obtain m3 where m3: "write_user tr (of_nat rsp) (word_bytes ?ws) m2 = Some m3"
    "only_within fr lo hi rsp (rsp + n) m2 m3" "user_bytes fr m3 rsp n = word_bytes ?ws"
    using write_user_block [OF b m2(2) rsp(1), of "word_bytes ?ws"] rn len by auto
  have c2: "c2 < 2 ^ 64" "n \<le> c2" using b le tp by (auto simp: backed_def)
  have "init_stack tr (of_nat stop) argv envp img mem = Some (of_nat rsp, m3)"
    using m0(1) m1(1) m2(1) m3(1) rsp_nat [OF c2] len
    by (simp add: init_stack_def Let_def rsp_def mult.commute del: of_nat_mult)
  moreover have w3: "only_within fr lo hi rsp c2 m2 m3" using m3(2) rsp(2) by (auto simp: only_within_def)
  note w2 = only_within_trans [OF m2(3) w3] and rl = rsp(2) le
  have "strings_at fr m3 eps envp" by (rule strings_at_keep [OF m2(4,5) w3]) (use rl rsp tp in linarith)+
  moreover have w1: "only_within fr lo hi rsp c1 m1 m3" by (rule w2) (use rl in linarith)+
  have "strings_at fr m3 aps argv" by (rule strings_at_keep [OF m1(4,5) w1]) (use rl rsp tp in linarith)+
  moreover have w0: "only_within fr lo hi rsp c0 m0 m3" by (rule only_within_trans [OF m1(3) w1]) (use rl in linarith)+
  have "user_bytes fr m3 c0 16 = replicate 16 0x5A"
    unfolding m0(4) [symmetric] by (rule user_bytes_keep [OF w0]) (use rl rsp tp in linarith)+
  moreover have "only_within fr lo hi rsp stop mem m3" by (rule only_within_trans [OF m0(3) w0]) (use rl in linarith)+
  moreover have "rsp mod 16 = 0" unfolding rsp_def by (metis minus_mod_eq_mult_div mod_mult_self1_is_0)
  moreover have "rsp + n \<le> stop" using rl by linarith
  ultimately show ?thesis using m3(3) rsp(1) unfolding n_def
    by - (rule exI [of _ rsp], rule exI [of _ c0], rule exI [of _ aps], rule exI [of _ eps], rule exI [of _ m3],
          (intro conjI; assumption))
qed

text \<open>Two pages translated to themselves.\<close>

lemma backed_identity: "backed Some (\<lambda>q. of_nat (q * 4096)) 0x10000 0x12000"
proof -
  have i: "inj_on (\<lambda>q. of_nat (q * 4096) :: u64) {q. \<exists>a \<ge> 0x10000. a < 0x12000 \<and> q = a div 4096}"
  proof (rule inj_onI)
    fix x y :: nat
    assume x: "x \<in> {q. \<exists>a \<ge> 0x10000. a < 0x12000 \<and> q = a div 4096}" and y: "y \<in> {q. \<exists>a \<ge> 0x10000. a < 0x12000 \<and> q = a div 4096}"
      and e: "(of_nat (x * 4096) :: u64) = of_nat (y * 4096)"
    have "x * 4096 < 2 ^ 64" "y * 4096 < 2 ^ 64" using x y by auto
    then show "x = y" using e unat_of_nat_u64 [of "x * 4096"] unat_of_nat_u64 [of "y * 4096"] by simp
  qed
  have a: "(of_nat a :: u64) = of_nat (a div 4096 * 4096) + of_nat (a mod 4096)" for a
    by (simp only: of_nat_add [symmetric] div_mult_mod_eq)
  have f: "frame_base (of_nat (q * 4096)) = of_nat (q * 4096)" for q
    using page_aligned_add [of 0 q] by (simp add: frame_base_def)
  show ?thesis
    unfolding backed_def
  proof (intro conjI allI impI i f)
    show "Some (of_nat x :: u64) = Some (of_nat (x div 4096 * 4096) + of_nat (x mod 4096))" for x
      by (rule arg_cong [OF a])
  qed simp
qed

theorem init_stack_layout_witness:
  "\<exists>rsp rand aps eps mem'.
     init_stack Some 0x12000 [''sh'', ''-c''] [''A=1''] \<lparr>im_entry = 0x400000, im_phdr = 0x400040, im_phent = 56, im_phnum = 2\<rparr>
       (\<lambda>_. replicate 4096 0) = Some (of_nat rsp, mem') \<and> rsp mod 16 = 0 \<and>
     strings_at (\<lambda>q. of_nat (q * 4096)) mem' aps [''sh'', ''-c''] \<and> strings_at (\<lambda>q. of_nat (q * 4096)) mem' eps [''A=1''] \<and>
     user_bytes (\<lambda>q. of_nat (q * 4096)) mem' rand 16 = replicate 16 0x5A"
proof -
  have "full_frames (\<lambda>q. of_nat (q * 4096)) 0x10000 0x12000 (\<lambda>_. replicate 4096 0)" by (simp add: full_frames_def)
  from init_stack_layout [OF backed_identity this, of "0x12000" "[''sh'', ''-c'']" "[''A=1'']"
      "\<lparr>im_entry = 0x400000, im_phdr = 0x400040, im_phent = 56, im_phnum = 2\<rparr>"]
  show ?thesis by (simp add: strings_size_def del: of_nat_mult) (elim exE conjE, intro exI conjI, assumption+)
qed

section \<open>What a program finds in its segments\<close>

lemma segment_bytes_at:
  assumes img: "length img < 2 ^ 64" "unat off + unat fsz \<le> length img"
    and r: "unat va + unat fsz < 2 ^ 47" "unat page < 2 ^ 47" "unat va < unat page + 4096"
  shows "\<exists>c. segment_bytes img off va fsz page = Some c \<and> length c = 4096 \<and>
    (\<forall>j < 4096. c ! j = (if unat va \<le> unat page + j \<and> unat page + j < unat va + unat fsz
                          then img ! (unat off + (unat page + j - unat va)) else 0))"
proof -
  define V P F where "V = unat va" and "P = unat page" and "F = unat fsz"
  have pu: "unat (page + 4096) = P + 4096" using r(2) by (simp add: unat_word_ariths P_def)
  have vu: "unat (va + fsz) = V + F" using r(1) by (simp add: unat_word_ariths V_def F_def)
  define lo hi where "lo = max page va" and "hi = min (page + 4096) (va + fsz)"
  have lu: "unat lo = max P V" by (simp add: lo_def max_def word_le_nat_alt P_def V_def)
  have hu: "unat hi = min (P + 4096) (V + F)" using pu vu by (simp add: hi_def min_def word_le_nat_alt)
  show ?thesis
  proof (cases "lo < hi")
    case False
    then have "\<not> max P V < min (P + 4096) (V + F)" using lu hu by (simp add: word_less_nat_alt)
    then have "\<not> (V \<le> P + j \<and> P + j < V + F)" if "j < 4096" for j using that r(3) by (auto simp: P_def V_def)
    then show ?thesis using False by (auto simp: segment_bytes_def Let_def simp flip: lo_def hi_def P_def V_def F_def)
  next
    case True
    then have lt: "max P V < min (P + 4096) (V + F)" using lu hu by (simp add: word_less_nat_alt)
    define d where "d = max P V - V"
    have l1: "unat (lo - va) = d" using lu by (simp add: unat_sub word_le_nat_alt d_def V_def)
    have l2: "unat (lo - page) = max P V - P" using lu by (simp add: unat_sub word_le_nat_alt P_def)
    have l3: "unat (hi - lo) = min (P + 4096) (V + F) - max P V" using lu hu lt by (simp add: unat_sub word_le_nat_alt)
    have dF: "d + (min (P + 4096) (V + F) - max P V) \<le> F" using lt unfolding d_def by auto
    then have "unat off + d < 18446744073709551616" using img lt unfolding F_def by auto
    then have src: "unat (off + (lo - va)) = unat off + d" using l1 by (simp add: unat_word_ariths)
    define n k bs where "n = min (P + 4096) (V + F) - max P V" and "k = max P V - P"
      and "bs = take n (drop (unat off + d) img)"
    have rng: "unat off + d + n \<le> length img" using dF img(2) by (simp add: F_def n_def)
    then have g: "get_range img (unat off + d) (unat off + d + n) = Some bs" "length bs = n"
      by (simp_all add: get_range_Some bs_def)
    have kn: "k + n \<le> 4096" using lt by (auto simp: k_def n_def)
    have run: "segment_bytes img off va fsz page = Some (splice k bs (replicate 4096 0))"
      using True g(1) src l2 l3 by (simp add: segment_bytes_def Let_def n_def k_def flip: lo_def hi_def)
    have cov: "k \<le> j \<and> j < k + n \<longleftrightarrow> V \<le> P + j \<and> P + j < V + F" if "j < 4096" for j
      using that lt by (auto simp: k_def n_def)
    have pos: "d + (j - k) = P + j - V" if "k \<le> j" for j
      using that unfolding d_def k_def by (cases "P \<le> V") (auto simp: max_def)
    have "splice k bs (replicate 4096 0) ! j = (if V \<le> P + j \<and> P + j < V + F then img ! (unat off + (P + j - V)) else 0)"
      if j: "j < 4096" for j
    proof (cases "k \<le> j \<and> j < k + n")
      case True
      have "bs ! (j - k) = img ! (unat off + (d + (j - k)))" 
      proof -
        have "j - k < n" "unat off + d \<le> length img" using True rng by auto
        then show ?thesis by (simp add: bs_def add.assoc)
      qed
      then have "bs ! (j - k) = img ! (unat off + (P + j - V))" using pos [of j] True by (simp only:)
      moreover have "splice k bs (replicate 4096 0) ! j = bs ! (j - k)" using True kn j g(2) by (subst nth_splice) auto
      ultimately show ?thesis using True cov [OF j] by (simp only: if_True simp_thms)
    next
      case False
      then have "splice k bs (replicate 4096 0) ! j = 0" using kn j g(2) by (auto simp: nth_splice)
      then show ?thesis using False cov [OF j] by auto
    qed
    then show ?thesis
      using run kn g(2) unfolding P_def V_def F_def by (intro exI [of _ "splice k bs (replicate 4096 0)"]) simp
  qed
qed

lemma subseq_subset: "subseq xs ys \<Longrightarrow> set xs \<subseteq> set ys"
  by (induction rule: list_emb.induct) auto

lemma space_map_fresh:
  assumes "mapper_room mp" "frame_base v = v" "unat v < 2 ^ 47" "mapping mp st v = None" "3 \<le> length (fr_free (snd st))"
  shows "\<exists>st'. space_map mp v f wr exec st = Some st'"
proof -
  obtain sp fr where st: "st = (sp, fr)" by fastforce
  have "mp_map_to mp (sp_pt sp) (fr_free fr) v (frame_base f) (page_flags wr True exec) \<noteq> None"
    using assms(1,3,4,5) by (simp add: mapper_room_def st)
  then show ?thesis using assms(2,3) by (auto simp: st space_map_def map_page_in_def canonical_def)
qed

lemma map_segment_page_fresh:
  assumes laws: "mapper_laws mp" "mapper_room mp" and "frame_base v = v" "unat v < 2 ^ 47" "mapping mp st v = None"
    and "4 \<le> length (fr_free (snd st))" and c: "segment_bytes img off va fsz v = Some c"
  shows "\<exists>st' f r t. map_segment_page mp img off va fsz flags v st = Some st' \<and> fr_free (snd st) = f # r \<and> t \<le> 3 \<and>
    t \<le> length r \<and> mapping mp st' = (mapping mp st)(v \<mapsto> (frame_base f, page_flags True True (flags AND 1 \<noteq> 0))) \<and>
    snd st' = (snd st)\<lparr>fr_free := drop t r, fr_mem := (fr_mem (snd st))(f := c)\<rparr>"
proof -
  obtain sp fr where st: "st = (sp, fr)" by fastforce
  obtain f r where f: "fr_free fr = f # r" "3 \<le> length r" using assms(6) by (cases "fr_free fr") (auto simp: st)
  let ?s = "(sp, fr\<lparr>fr_free := r, fr_mem := (fr_mem fr)(f := c)\<rparr>)"
  obtain st' where s: "space_map mp v f True (flags AND 1 \<noteq> 0) ?s = Some st'"
    using space_map_fresh [OF laws(2) assms(3,4), of ?s f True "flags AND 1 \<noteq> 0"] assms(5) f(2) by (auto simp: st)
  have "map_segment_page mp img off va fsz flags v st = Some st'"
    using s f(1) c by (simp add: map_segment_page_def st frame_alloc_def)
  then show ?thesis using space_map_Some [OF laws(1) s] f(1) assms(3) by (auto simp: st)
qed

lemma map_segment_pages_fresh:
  assumes laws: "mapper_laws mp" "mapper_room mp"
    and c: "\<And>page. unat page < unat vend \<Longrightarrow> unat start < unat page + 4096 \<Longrightarrow> segment_bytes img off va fsz page \<noteq> None"
    and vend: "unat vend < 2 ^ 47"
    and "frame_base v = v" "unat start < unat v + 4096" "unat vend \<le> unat v + n * 4096" "\<forall>k < n. unat v + k * 4096 < unat vend"
    and "\<forall>k < n. mapping mp st (page_at v k) = None" "4 * n \<le> length (fr_free (snd st))" "distinct (fr_free (snd st))"
  shows "\<exists>st' gs m. map_segment_pages mp img off va fsz vend flags v st = Some st' \<and> length gs = n \<and> m \<le> 4 * n \<and>
    subseq gs (take m (fr_free (snd st))) \<and> fr_free (snd st') = drop m (fr_free (snd st)) \<and>
    (\<forall>k < n. mapping mp st' (page_at v k) = Some (frame_base (gs ! k), page_flags True True (flags AND 1 \<noteq> 0)) \<and>
       segment_bytes img off va fsz (page_at v k) = Some (fr_mem (snd st') (gs ! k))) \<and>
    (\<forall>p. (\<forall>k < n. p \<noteq> page_at v k) \<longrightarrow> mapping mp st' p = mapping mp st p) \<and>
    (\<forall>f. f \<notin> set gs \<longrightarrow> fr_mem (snd st') f = fr_mem (snd st) f)"
  using assms(5-11)
proof (induction n arbitrary: v st)
  case 0
  then have "\<not> v < vend" by (simp add: word_less_nat_alt)
  then show ?case by (subst map_segment_pages.simps) auto
next
  case (Suc n)
  have lt: "unat v < unat vend" using Suc.prems(4) by (auto dest: spec [of _ 0])
  have bound: "unat v + k * 4096 < 2 ^ 47" if "k < Suc n" for k using Suc.prems(4) vend that by fastforce
  have v4: "unat (v + 4096) = unat v + 4096" using lt vend by (simp add: unat_word_ariths)
  obtain b where b: "segment_bytes img off va fsz v = Some b" using c [OF lt Suc.prems(2)] by blast
  have v0: "mapping mp st v = None" using Suc.prems(5) by (auto dest: spec [of _ 0])
  obtain s1 f r t where s1: "map_segment_page mp img off va fsz flags v st = Some s1" "fr_free (snd st) = f # r" "t \<le> 3"
    "t \<le> length r" "mapping mp s1 = (mapping mp st)(v \<mapsto> (frame_base f, page_flags True True (flags AND 1 \<noteq> 0)))"
    "snd s1 = (snd st)\<lparr>fr_free := drop t r, fr_mem := (fr_mem (snd st))(f := b)\<rparr>"
    using map_segment_page_fresh [OF laws Suc.prems(1) _ v0 _ b, of flags] lt vend Suc.prems(6) by auto
  have apart: "page_at v (Suc k) \<noteq> v" if "k < n" for k
    using unat_page_at [of v "Suc k"] bound [of "Suc k"] that by auto
  have al: "frame_base (v + 4096) = v + 4096" using page_aligned_add [OF Suc.prems(1), of 1] by simp
  have "\<forall>k < n. mapping mp s1 (page_at (v + 4096) k) = None"
    using s1(5) Suc.prems(5) apart by (auto simp flip: page_at_Suc)
  moreover have "\<forall>k < n. unat (v + 4096) + k * 4096 < unat vend" using Suc.prems(4) v4 by fastforce
  moreover have "unat start < unat (v + 4096) + 4096" "unat vend \<le> unat (v + 4096) + n * 4096"
    "4 * n \<le> length (fr_free (snd s1))" "distinct (fr_free (snd s1))"
    using Suc.prems(2,3,6,7) v4 s1(2,3,6) by auto
  moreover have fr1: "fr_free (snd s1) = drop t r" using s1(6) by simp
  ultimately obtain s2 gs m where s2: "map_segment_pages mp img off va fsz vend flags (v + 4096) s1 = Some s2"
    "length gs = n" "m \<le> 4 * n" "subseq gs (take m (drop t r))" "fr_free (snd s2) = drop m (drop t r)"
    "\<forall>k < n. mapping mp s2 (page_at v (Suc k)) = Some (frame_base (gs ! k), page_flags True True (flags AND 1 \<noteq> 0)) \<and>
       segment_bytes img off va fsz (page_at v (Suc k)) = Some (fr_mem (snd s2) (gs ! k))"
    "\<forall>p. (\<forall>k < n. p \<noteq> page_at v (Suc k)) \<longrightarrow> mapping mp s2 p = mapping mp s1 p"
    "\<forall>g. g \<notin> set gs \<longrightarrow> fr_mem (snd s2) g = fr_mem (snd s1) g"
    using Suc.IH [OF al, of s1] unfolding page_at_Suc fr1 by blast
  have "set gs \<subseteq> set r" using subseq_subset [OF s2(4)] by (auto dest!: in_set_takeD in_set_dropD)
  then have fg: "f \<notin> set gs" using Suc.prems(7) s1(2) by auto
  have run: "map_segment_pages mp img off va fsz vend flags v st = Some s2"
    using s1(1) s2(1) lt by (subst map_segment_pages.simps) (simp add: word_less_nat_alt)
  have "mapping mp s2 v = mapping mp s1 v" using s2(7) apart by metis
  then have pages: "\<forall>k < Suc n. mapping mp s2 (page_at v k) = Some (frame_base ((f # gs) ! k), page_flags True True (flags AND 1 \<noteq> 0)) \<and>
      segment_bytes img off va fsz (page_at v k) = Some (fr_mem (snd s2) ((f # gs) ! k))"
    using s2(6,8) s1(5,6) fg b by (auto simp: less_Suc_eq_0_disj)
  have other: "mapping mp s2 p = mapping mp st p" if p: "\<forall>k < Suc n. p \<noteq> page_at v k" for p
    using p s2(7) s1(5) by (auto dest: spec [of _ 0])
  have "subseq (f # gs) (take (Suc (t + m)) (fr_free (snd st)))"
    using s2(4) by (simp add: s1(2) take_add subseq_drop_many)
  moreover have "fr_free (snd s2) = drop (Suc (t + m)) (fr_free (snd st))" using s2(5) s1(2) by (simp add: add.commute)
  moreover have "\<forall>g. g \<notin> set (f # gs) \<longrightarrow> fr_mem (snd s2) g = fr_mem (snd st) g" using s2(8) s1(6) by simp
  moreover have "length (f # gs) = Suc n" "Suc (t + m) \<le> 4 * Suc n" using s2(2,3) s1(3) by simp_all
  ultimately show ?case using run pages other by blast
qed

text \<open>The byte a program reads at an address of the user half, through its page tables.\<close>

definition read_at :: "'pt mapper \<Rightarrow> 'pt aspace \<Rightarrow> nat \<Rightarrow> byte option" where
  "read_at mp st x =
     map_option (\<lambda>(f, _). fr_mem (snd st) f ! (x mod 4096)) (mapping mp st (of_nat (x div 4096 * 4096)))"

lemma page_of_address:
  assumes "frame_base v = v" "unat v \<le> x" "x < 2 ^ 47"
  shows "(of_nat (x div 4096 * 4096) :: u64) = page_at v ((x - unat v) div 4096)"
    "unat v + (x - unat v) div 4096 * 4096 + x mod 4096 = x"
proof -
  obtain q where q: "unat v = 4096 * q" using assms(1) by (auto simp: page_aligned_iff elim!: dvdE simp flip: dvd_eq_mod_eq_0)
  have e: "(x - unat v) div 4096 = x div 4096 - q" using div_mult_self4 [of 4096 "x - 4096 * q" q] assms(2) q by simp
  have le: "q \<le> x div 4096" using assms(2) q by (simp add: less_eq_div_iff_mult_less_eq mult.commute)
  have s: "unat v + (x - unat v) div 4096 * 4096 = x div 4096 * 4096"
    using e le q by (simp add: diff_mult_distrib)
  show "unat v + (x - unat v) div 4096 * 4096 + x mod 4096 = x" unfolding s by simp
  have "unat (page_at v ((x - unat v) div 4096)) = x div 4096 * 4096"
    using unat_page_at [of v "(x - unat v) div 4096"] s assms(3) by simp
  moreover have "x div 4096 * 4096 \<le> x" by simp
  then have "unat (of_nat (x div 4096 * 4096) :: u64) = x div 4096 * 4096" using assms(3) by (intro unat_of_nat_u64) simp
  ultimately show "(of_nat (x div 4096 * 4096) :: u64) = page_at v ((x - unat v) div 4096)"
    by (simp only: word_unat_eq_iff)
qed

lemma segment_page_mapped:
  assumes "mapper_laws mp" "mapping mp st v \<noteq> None" "frame_base v = v"
  shows "map_segment_page mp img off va fsz flags v st = None"
proof (rule ccontr)
  assume "map_segment_page mp img off va fsz flags v st \<noteq> None"
  then obtain st' f s where "space_map mp v f True (flags AND 1 \<noteq> 0) s = Some st'" "mapping mp s = mapping mp st"
    by (cases st) (fastforce simp: map_segment_page_def frame_alloc_def bind_eq_Some_conv split: list.splits)
  then show False using space_map_Some [OF assms(1)] assms(2,3) by fastforce
qed

lemma page_count:
  fixes v e n :: nat
  assumes "n = (e - v + 4095) div 4096" "v < e"
  shows "e \<le> v + n * 4096" "\<forall>k < n. v + k * 4096 < e"
proof -
  show "e \<le> v + n * 4096" using dividend_less_div_times [of 4096 "e - v + 4095"] assms by simp
  have "n * 4096 \<le> e - v + 4095" using assms(1) by simp
  then show "\<forall>k < n. v + k * 4096 < e" using assms(2) by auto
qed



end
