(* ===== verification/Window.thy ===== *)
theory Window
  imports Kernel_Prelude
begin

text \<open>
  Windows and their message queues (\<open>kernel/src/window.rs\<close>): window classes, windows, one queue of
  messages per thread, and \<open>GetMessageA\<close>, which sleeps once on a wait queue that all threads share
  and then takes the first message of its own queue.
\<close>

type_synonym rect = "32 word \<times> 32 word \<times> 32 word \<times> 32 word"

definition WM_CREATE :: u32 where "WM_CREATE = 0x0001"
definition WM_QUIT :: u32 where "WM_QUIT = 0x0012"

record window =
  w_wndproc :: u64
  w_owner_tid :: u64
  w_rect :: rect

record msg =
  m_hwnd :: u32
  m_message :: u32
  m_wparam :: u64
  m_lparam :: u64

record windows =
  ws_classes :: "(string \<times> u64) list"
  ws_windows :: "(u32 \<times> window) list"
  ws_next_hwnd :: u32
  ws_queues :: "(u64 \<times> msg list) list"

definition windows_boot :: windows where
  "windows_boot = \<lparr>ws_classes = [], ws_windows = [], ws_next_hwnd = 1, ws_queues = []\<rparr>"

text \<open>Class names are only looked up, so the order of the class map does not matter.\<close>

definition register_class :: "string \<Rightarrow> u64 \<Rightarrow> windows \<Rightarrow> windows" where
  "register_class name wndproc s = s\<lparr>ws_classes := (name, wndproc) # filter (\<lambda>(n, _). n \<noteq> name) (ws_classes s)\<rparr>"

definition queue_of :: "windows \<Rightarrow> u64 \<Rightarrow> msg list" where
  "queue_of s tid = (case map_of (ws_queues s) tid of Some q \<Rightarrow> q | None \<Rightarrow> [])"

text \<open>The push of a post; the wake-up of the sleepers follows it.\<close>

definition post :: "u32 \<Rightarrow> u64 \<Rightarrow> u32 \<Rightarrow> u64 \<Rightarrow> u64 \<Rightarrow> windows \<Rightarrow> windows" where
  "post hwnd tid message wparam lparam s =
     s\<lparr>ws_queues := bt_insert tid (queue_of s tid @ [\<lparr>m_hwnd = hwnd, m_message = message, m_wparam = wparam, m_lparam = lparam\<rparr>])
                     (ws_queues s)\<rparr>"

definition create_window :: "string \<Rightarrow> rect \<Rightarrow> u64 \<Rightarrow> windows \<Rightarrow> u32 \<times> windows" where
  "create_window cls r owner_tid s =
     (case map_of (ws_classes s) cls of
        None \<Rightarrow> (0, s)
      | Some wndproc \<Rightarrow>
          let hwnd = ws_next_hwnd s;
              w = \<lparr>w_wndproc = wndproc, w_owner_tid = owner_tid, w_rect = r\<rparr>;
              s1 = s\<lparr>ws_next_hwnd := hwnd + 1, ws_windows := bt_insert hwnd w (ws_windows s)\<rparr>
          in (hwnd, post hwnd owner_tid WM_CREATE 0 0 s1))"

definition wndproc_of :: "u32 \<Rightarrow> windows \<Rightarrow> u64 option" where
  "wndproc_of hwnd s = map_option w_wndproc (map_of (ws_windows s) hwnd)"

definition rect_of :: "u32 \<Rightarrow> windows \<Rightarrow> rect option" where
  "rect_of hwnd s = map_option w_rect (map_of (ws_windows s) hwnd)"

definition window_owner_of :: "u32 \<Rightarrow> windows \<Rightarrow> u64 option" where
  "window_owner_of hwnd s = map_option w_owner_tid (map_of (ws_windows s) hwnd)"

definition post_message :: "u32 \<Rightarrow> u32 \<Rightarrow> u64 \<Rightarrow> u64 \<Rightarrow> windows \<Rightarrow> bool \<times> windows" where
  "post_message hwnd message wparam lparam s =
     (case window_owner_of hwnd s of
        Some tid \<Rightarrow> (True, post hwnd tid message wparam lparam s)
      | None \<Rightarrow> (False, s))"

definition post_quit :: "u64 \<Rightarrow> u64 \<Rightarrow> windows \<Rightarrow> windows" where
  "post_quit tid exit_code s = post 0 tid WM_QUIT exit_code 0 s"

text \<open>The two halves of \<open>get_message\<close>: the test it may sleep on once, and what it does after.\<close>

definition get_message_blocks :: "u64 \<Rightarrow> windows \<Rightarrow> bool" where
  "get_message_blocks tid s \<longleftrightarrow> (case map_of (ws_queues s) tid of None \<Rightarrow> True | Some q \<Rightarrow> q = [])"

definition get_message_pop :: "u64 \<Rightarrow> windows \<Rightarrow> msg \<times> windows" where
  "get_message_pop tid s =
     (case map_of (ws_queues s) tid of
        Some (m # q) \<Rightarrow> (m, s\<lparr>ws_queues := bt_insert tid q (ws_queues s)\<rparr>)
      | _ \<Rightarrow> (\<lparr>m_hwnd = 0, m_message = WM_QUIT, m_wparam = 0, m_lparam = 0\<rparr>, s))"

section \<open>Threads posting and waiting\<close>

text \<open>
  The threads that use the queues: those asleep on the shared wait queue, those past it on their way
  to the queue, the wake-ups still owed after a push, and, for the statement, what was posted to
  each thread, what it received from its queue and how often it got a message out of nowhere.
\<close>

record window_machine =
  wm_state :: windows
  wm_asleep :: "u64 list"
  wm_ready :: "u64 list"
  wm_pending :: nat
  wm_posted :: "u64 \<Rightarrow> msg list"
  wm_got :: "u64 \<Rightarrow> msg list"
  wm_made_up :: "u64 \<Rightarrow> nat"

definition window_start :: window_machine where
  "window_start = \<lparr>wm_state = windows_boot, wm_asleep = [], wm_ready = [], wm_pending = 0,
     wm_posted = (\<lambda>_. []), wm_got = (\<lambda>_. []), wm_made_up = (\<lambda>_. 0)\<rparr>"

definition posted_msg :: "u32 \<Rightarrow> u32 \<Rightarrow> u64 \<Rightarrow> u64 \<Rightarrow> msg" where
  "posted_msg hwnd message wp lp = \<lparr>m_hwnd = hwnd, m_message = message, m_wparam = wp, m_lparam = lp\<rparr>"

inductive window_step :: "window_machine \<Rightarrow> window_machine \<Rightarrow> bool" where
  w_post: "window_step m (m\<lparr>wm_state := post hwnd tid message wp lp (wm_state m), wm_pending := Suc (wm_pending m),
     wm_posted := (wm_posted m)(tid := wm_posted m tid @ [posted_msg hwnd message wp lp])\<rparr>)"
| w_wake: "0 < wm_pending m \<Longrightarrow>
     window_step m (m\<lparr>wm_asleep := [], wm_ready := wm_ready m @ wm_asleep m, wm_pending := wm_pending m - 1\<rparr>)"
| w_sleep: "get_message_blocks tid (wm_state m) \<Longrightarrow> tid \<notin> set (wm_asleep m) \<union> set (wm_ready m) \<Longrightarrow>
     window_step m (m\<lparr>wm_asleep := wm_asleep m @ [tid]\<rparr>)"
| w_enter: "\<not> get_message_blocks tid (wm_state m) \<Longrightarrow> tid \<notin> set (wm_asleep m) \<union> set (wm_ready m) \<Longrightarrow>
     window_step m (m\<lparr>wm_ready := wm_ready m @ [tid]\<rparr>)"
| w_take: "tid \<in> set (wm_ready m) \<Longrightarrow> queue_of (wm_state m) tid \<noteq> [] \<Longrightarrow> get_message_pop tid (wm_state m) = (x, s') \<Longrightarrow>
     window_step m (m\<lparr>wm_state := s', wm_ready := remove1 tid (wm_ready m), wm_got := (wm_got m)(tid := wm_got m tid @ [x])\<rparr>)"
| w_make_up: "tid \<in> set (wm_ready m) \<Longrightarrow> queue_of (wm_state m) tid = [] \<Longrightarrow> get_message_pop tid (wm_state m) = (x, s') \<Longrightarrow>
     window_step m (m\<lparr>wm_state := s', wm_ready := remove1 tid (wm_ready m), wm_made_up := (wm_made_up m)(tid := Suc (wm_made_up m tid))\<rparr>)"
| w_create: "map_of (ws_classes (wm_state m)) cls \<noteq> None \<Longrightarrow> create_window cls r tid (wm_state m) = (hwnd, s') \<Longrightarrow>
     window_step m (m\<lparr>wm_state := s', wm_pending := Suc (wm_pending m),
       wm_posted := (wm_posted m)(tid := wm_posted m tid @ [posted_msg hwnd WM_CREATE 0 0])\<rparr>)"
| w_class: "window_step m (m\<lparr>wm_state := register_class name proc (wm_state m)\<rparr>)"

lemma queue_of_post:
  "queue_of (post hwnd tid message wp lp s) = (queue_of s)(tid := queue_of s tid @ [posted_msg hwnd message wp lp])"
  by (rule ext) (simp add: queue_of_def post_def posted_msg_def)

lemma queue_of_create:
  assumes "map_of (ws_classes s) cls \<noteq> None" "create_window cls r tid s = (hwnd, s')"
  shows "queue_of s' = (queue_of s)(tid := queue_of s tid @ [posted_msg hwnd WM_CREATE 0 0])"
  using assms by (auto simp: create_window_def queue_of_post Let_def) (auto simp: queue_of_def fun_eq_iff)

lemma queue_of_pop:
  assumes "get_message_pop tid s = (x, s')"
  shows "queue_of s tid = [] \<Longrightarrow> s' = s \<and> x = posted_msg 0 WM_QUIT 0 0"
    "queue_of s tid \<noteq> [] \<Longrightarrow> queue_of s tid = x # queue_of s' tid \<and> (\<forall>t. t \<noteq> tid \<longrightarrow> queue_of s' t = queue_of s t)"
  using assms by (auto simp: queue_of_def get_message_pop_def posted_msg_def split: option.splits list.splits)

lemma get_message_blocks_iff: "get_message_blocks tid s \<longleftrightarrow> queue_of s tid = []"
  by (simp add: get_message_blocks_def queue_of_def split: option.split)

lemma queue_of_class [simp]: "queue_of (register_class name proc s) = queue_of s"
  by (simp add: fun_eq_iff queue_of_def register_class_def)

definition window_inv :: "window_machine \<Rightarrow> bool" where
  "window_inv m \<longleftrightarrow>
     (\<forall>t. wm_posted m t = wm_got m t @ queue_of (wm_state m) t) \<and>
     (\<forall>t. t \<in> set (wm_asleep m) \<and> queue_of (wm_state m) t \<noteq> [] \<longrightarrow> 0 < wm_pending m)"

lemma window_inv_step: "window_step m m' \<Longrightarrow> window_inv m \<Longrightarrow> window_inv m'"
proof (induction rule: window_step.induct)
  case (w_take tid m x s')
  note P = queue_of_pop(2) [OF w_take(3,2)]
  then have "wm_posted m t = ((wm_got m)(tid := wm_got m tid @ [x])) t @ queue_of s' t" for t
    using w_take(4) by (cases "t = tid") (auto simp: window_inv_def)
  moreover have "queue_of s' t \<noteq> [] \<Longrightarrow> queue_of (wm_state m) t \<noteq> []" for t using P by (cases "t = tid") auto
  ultimately show ?case using w_take(4) by (auto simp: window_inv_def)
next
  case (w_make_up tid m x s')
  then show ?case using queue_of_pop(1) [OF w_make_up(3,2)] by (auto simp: window_inv_def)
next
  case (w_create m cls r tid hwnd s')
  have "queue_of s' = (queue_of (wm_state m))(tid := queue_of (wm_state m) tid @ [posted_msg hwnd WM_CREATE 0 0])"
    by (rule queue_of_create [OF w_create(1,2)])
  then show ?case using w_create(3) by (auto simp: window_inv_def)
qed (auto simp: window_inv_def queue_of_post get_message_blocks_iff)

interpretation window_sys: invariant_system "\<lambda>m. m = window_start" window_step window_inv
proof
  show "window_inv m" if "m = window_start" for m
    using that by (simp add: window_inv_def window_start_def windows_boot_def queue_of_def)
qed (rule window_inv_step)

text \<open>C35. Message queues: in every interleaving of posts, sleeps and wake-ups a thread receives from
  its queue exactly the messages posted to it, in order and none twice, and no thread is left
  asleep on a queue that holds a message.  But because \<open>get_message\<close> does not test its queue again
  after it was woken, a post to any other thread makes every sleeping thread return a quit message
  that nobody posted to it.\<close>

theorem window_messages_and_made_up_quit:
  assumes "window_step\<^sup>*\<^sup>* window_start m"
  shows "wm_posted m t = wm_got m t @ queue_of (wm_state m) t \<and>
    (t \<in> set (wm_asleep m) \<and> queue_of (wm_state m) t \<noteq> [] \<longrightarrow> 0 < wm_pending m) \<and>
    (t \<in> set (wm_asleep m) \<and> queue_of (wm_state m) t = [] \<and> other \<noteq> t \<longrightarrow>
       (\<exists>m' m''. window_step m m' \<and> wm_state m' = post hwnd other message wp lp (wm_state m) \<and>
          window_step\<^sup>*\<^sup>* m' m'' \<and> wm_made_up m'' t = Suc (wm_made_up m t) \<and> wm_posted m'' t = wm_posted m t \<and>
          fst (get_message_pop t (wm_state m')) = posted_msg 0 WM_QUIT 0 0))"
proof (intro conjI impI)
  show "0 < wm_pending m" if "t \<in> set (wm_asleep m) \<and> queue_of (wm_state m) t \<noteq> []"
    using window_sys.reachable_inv [OF refl assms] that by (auto simp: window_inv_def)
  show "wm_posted m t = wm_got m t @ queue_of (wm_state m) t"
    using window_sys.reachable_inv [OF refl assms] by (auto simp: window_inv_def)
  assume a: "t \<in> set (wm_asleep m) \<and> queue_of (wm_state m) t = [] \<and> other \<noteq> t"
  let ?s = "post hwnd other message wp lp (wm_state m)"
  define m1 where "m1 = m\<lparr>wm_state := ?s, wm_pending := Suc (wm_pending m),
     wm_posted := (wm_posted m)(other := wm_posted m other @ [posted_msg hwnd message wp lp])\<rparr>"
  define m2 where "m2 = m1\<lparr>wm_asleep := [], wm_ready := wm_ready m1 @ wm_asleep m1, wm_pending := wm_pending m1 - 1\<rparr>"
  have s1: "window_step m m1" unfolding m1_def by (rule w_post)
  have s2: "window_step m1 m2" unfolding m2_def by (rule w_wake) (simp add: m1_def)
  have q: "queue_of ?s t = []" using a by (auto simp: queue_of_post)
  obtain x s' where p: "get_message_pop t ?s = (x, s')" by fastforce
  have "window_step m2 (m2\<lparr>wm_state := s', wm_ready := remove1 t (wm_ready m2), wm_made_up := (wm_made_up m2)(t := Suc (wm_made_up m2 t))\<rparr>)"
    by (rule w_make_up [of t m2 x s']) (use a p q in \<open>simp_all add: m2_def m1_def\<close>)
  then have "window_step\<^sup>*\<^sup>* m1 (m2\<lparr>wm_state := s', wm_ready := remove1 t (wm_ready m2), wm_made_up := (wm_made_up m2)(t := Suc (wm_made_up m2 t))\<rparr>)"
    using s2 by (meson converse_rtranclp_into_rtranclp r_into_rtranclp)
  then show "\<exists>m' m''. window_step m m' \<and> wm_state m' = ?s \<and>
          window_step\<^sup>*\<^sup>* m' m'' \<and> wm_made_up m'' t = Suc (wm_made_up m t) \<and> wm_posted m'' t = wm_posted m t \<and>
          fst (get_message_pop t (wm_state m')) = posted_msg 0 WM_QUIT 0 0"
    using s1 queue_of_pop(1) [OF p q] p a
    by - (rule exI [of _ m1], rule exI, intro conjI, assumption, simp add: m1_def, assumption, auto simp: m1_def m2_def)
qed

theorem window_messages_and_made_up_quit_witness:
  "\<exists>m m' m''. window_step\<^sup>*\<^sup>* window_start m \<and> wm_asleep m = [1] \<and> window_step m m' \<and>
     wm_state m' = post 0 2 WM_CREATE 0 0 windows_boot \<and> window_step\<^sup>*\<^sup>* m' m'' \<and> wm_made_up m'' 1 = 1 \<and> wm_posted m'' 1 = []"
proof -
  let ?m = "window_start\<lparr>wm_asleep := wm_asleep window_start @ [1]\<rparr>"
  have "window_step window_start ?m"
    by (rule w_sleep) (simp_all add: get_message_blocks_def window_start_def windows_boot_def)
  then have r: "window_step\<^sup>*\<^sup>* window_start ?m" by (rule r_into_rtranclp)
  have "1 \<in> set (wm_asleep ?m) \<and> queue_of (wm_state ?m) 1 = [] \<and> 2 \<noteq> (1 :: u64)"
    by (simp add: window_start_def windows_boot_def queue_of_def)
  then obtain m' m'' where "window_step ?m m'" "wm_state m' = post 0 2 WM_CREATE 0 0 (wm_state ?m)" "window_step\<^sup>*\<^sup>* m' m''"
    "wm_made_up m'' 1 = Suc (wm_made_up ?m 1)" "wm_posted m'' 1 = wm_posted ?m 1"
    using window_messages_and_made_up_quit [OF r, of 1 2 0 WM_CREATE 0 0] by blast
  then show ?thesis using r
    by - (rule exI [of _ ?m], rule exI [of _ m'], rule exI [of _ m''], simp add: window_start_def)
qed

end
