(* ===== verification/Syscalls.thy ===== *)
theory Syscalls
  imports Tasks Files Console Address_Space
begin

text \<open>
  The POSIX system calls (\<open>kernel/src/syscall.rs\<close>, the rest of the open files of
  \<open>kernel/src/file.rs\<close>): user pointers, descriptors of every kind of open file, opening and creating
  with the permission check, directories, modes and owners, and the dispatcher.  A system call gives
  its outcome and the new state; \<open>None\<close> is a halt of the kernel, by a panic or by a fault on a user
  pointer, which the kernel dereferences as it is.
\<close>

unbundle bit_operations_syntax

section \<open>State\<close>

text \<open>
  Open files and pipes are named by their position in a list.  User memory is what the page tables of
  the caller map, by virtual address, kernel half included.
\<close>

datatype file_obj =
  FKeyboard | FConsole bool | FExt2 ext2_file | FFat fat_file | FDir dir_file | FPipeRead nat | FPipeWrite nat

type_synonym umem = "u64 \<Rightarrow> byte option"

record kernel =
  k_tasks :: task_table
  k_me :: "u64 option"
  k_files :: "file_obj list"
  k_pipes :: "pipe list"
  k_disk :: disk
  k_console :: console
  k_mem :: umem
  k_rng :: u64
  k_user_exits :: u64
  k_fsbase :: u64
  k_cpus :: nat

text \<open>
  The outcome of a call: a value for \<open>rax\<close>, a sleep (with the progress made), the end of the calling
  thread, or a request to the layer that owns address spaces and threads: \<open>RYield\<close> is the thousand
  yields of a sleep call, which then returns 0.
\<close>

datatype request =
  RFork | RExec "byte list" "string list" "string list" | RElevate "byte list" "string list" | RBrk u64 | RMmap u64
  | RWait u64 u64 | RYield | RNt u64

datatype outcome = Ret int | Sleep nat | Gone | Ask request

definition ENOENT :: int where "ENOENT = - 2"
definition EPERM :: int where "EPERM = - 1"
definition EACCES :: int where "EACCES = - 13"
definition EEXIST :: int where "EEXIST = - 17"
definition ENOTTY :: int where "ENOTTY = - 25"
definition ENOTEMPTY :: int where "ENOTEMPTY = - 39"
definition ENOSYS :: int where "ENOSYS = - 38"
definition ECHILD :: int where "ECHILD = - 10"
definition ERANGE :: int where "ERANGE = - 34"

section \<open>User memory\<close>

definition load_bytes :: "umem \<Rightarrow> u64 \<Rightarrow> nat \<Rightarrow> byte list option" where
  "load_bytes m p n = those (map (\<lambda>i. m (p + of_nat i)) [0..<n])"

definition load_le :: "nat \<Rightarrow> umem \<Rightarrow> u64 \<Rightarrow> nat option" where
  "load_le w m p = map_option le_val (load_bytes m p w)"

definition store_bytes :: "u64 \<Rightarrow> byte list \<Rightarrow> umem \<Rightarrow> umem option" where
  "store_bytes p xs m =
     (if list_all (\<lambda>i. m (p + of_nat i) \<noteq> None) [0..<length xs]
      then Some (\<lambda>a. if unat (a - p) < length xs then Some (xs ! unat (a - p)) else m a)
      else None)"

definition store :: "u64 \<Rightarrow> byte list \<Rightarrow> kernel \<Rightarrow> kernel option" where
  "store p xs k = map_option (\<lambda>m. k\<lparr>k_mem := m\<rparr>) (store_bytes p xs (k_mem k))"

fun cstr_bytes :: "nat \<Rightarrow> u64 \<Rightarrow> umem \<Rightarrow> byte list option" where
  "cstr_bytes 0 p m = Some []"
| "cstr_bytes (Suc n) p m =
     (case m p of
        None \<Rightarrow> None
      | Some b \<Rightarrow> if b = 0 then Some [] else map_option (Cons b) (cstr_bytes n (p + 1) m))"

text \<open>\<open>String::from_utf8_lossy\<close>: a maximal invalid piece becomes one replacement character.\<close>

definition utf8_bad_len :: "nat list \<Rightarrow> nat" where
  "utf8_bad_len ns =
     (if utf8_width (ns ! 0) < 2 \<or> length ns < 2 \<or> \<not> second_ok (ns ! 0) (ns ! 1) then 1
      else if length ns < 3 \<or> \<not> cont (ns ! 2) then 2 else 3)"

function utf8_lossy :: "nat list \<Rightarrow> nat list" where
  "utf8_lossy ns =
     (if ns = [] then []
      else case utf8_step ns of
             Some r \<Rightarrow> take (length ns - length r) ns @ utf8_lossy r
           | None \<Rightarrow> [239, 191, 189] @ utf8_lossy (drop (utf8_bad_len ns) ns))"
  by pat_completeness auto
termination
  by (relation "measure length") (auto dest: utf8_step_shorter simp: utf8_bad_len_def)

declare utf8_lossy.simps [simp del]

definition from_utf8_lossy :: "byte list \<Rightarrow> string" where
  "from_utf8_lossy xs = map char_of (utf8_lossy (map unat xs))"

definition user_cstr :: "u64 \<Rightarrow> umem \<Rightarrow> string option" where
  "user_cstr p m = map_option from_utf8_lossy (cstr_bytes 4096 p m)"

fun cstr_array :: "nat \<Rightarrow> u64 \<Rightarrow> umem \<Rightarrow> string list option" where
  "cstr_array 0 p m = Some []"
| "cstr_array (Suc n) p m =
     do { sp \<leftarrow> load_le 8 m p;
          if sp = 0 then Some []
          else do { s \<leftarrow> user_cstr (of_nat sp) m; r \<leftarrow> cstr_array n (p + 8) m; Some (s # r) } }"

definition user_cstr_array :: "u64 \<Rightarrow> umem \<Rightarrow> string list option" where
  "user_cstr_array p m = (if p = 0 then Some [] else cstr_array 256 p m)"

section \<open>The current task and its descriptors\<close>

definition cur_task :: "kernel \<Rightarrow> task option" where
  "cur_task k = Option.bind (k_me k) (map_of (tt_tasks (k_tasks k)))"

definition upd_task :: "(task \<Rightarrow> task) \<Rightarrow> kernel \<Rightarrow> kernel" where
  "upd_task f k = (case k_me k of None \<Rightarrow> k | Some pid \<Rightarrow> k\<lparr>k_tasks := with_task pid f (k_tasks k)\<rparr>)"

definition current_cwd :: "kernel \<Rightarrow> string" where
  "current_cwd k = (case cur_task k of Some t \<Rightarrow> t_cwd t | None \<Rightarrow> ''/'')"

definition resolve :: "string \<Rightarrow> kernel \<Rightarrow> string" where
  "resolve path k = resolve_path (current_cwd k) path"

definition cur_fd :: "u64 \<Rightarrow> kernel \<Rightarrow> nat option" where
  "cur_fd fd k = (case cur_task k of None \<Rightarrow> None | Some t \<Rightarrow> fd_get (t_fds t) (ucast fd))"

definition new_file :: "file_obj \<Rightarrow> kernel \<Rightarrow> nat \<times> kernel" where
  "new_file obj k = (length (k_files k), k\<lparr>k_files := k_files k @ [obj]\<rparr>)"

definition set_file :: "nat \<Rightarrow> file_obj \<Rightarrow> kernel \<Rightarrow> kernel" where
  "set_file f obj k = k\<lparr>k_files := (k_files k)[f := obj]\<rparr>"

definition set_pipe :: "nat \<Rightarrow> pipe \<Rightarrow> kernel \<Rightarrow> kernel" where
  "set_pipe p x k = k\<lparr>k_pipes := (k_pipes k)[p := x]\<rparr>"

text \<open>A change of the current descriptor table that gives a result; \<open>None\<close> without a task.\<close>

definition on_fds :: "(fds \<Rightarrow> 'a \<times> fds) \<Rightarrow> kernel \<Rightarrow> ('a \<times> kernel) option" where
  "on_fds f k =
     map_option (\<lambda>t. let (r, fds) = f (t_fds t) in (r, upd_task (\<lambda>u. u\<lparr>t_fds := fds\<rparr>) k)) (cur_task k)"

text \<open>
  A file object goes away with the last descriptor that names it; the end of a pipe then tells the
  pipe.  \<open>entry_files\<close> lists the file objects of a table.
\<close>

definition entry_files :: "fds \<Rightarrow> nat list" where
  "entry_files fds =
     concat (map (\<lambda>s. case s of Some e \<Rightarrow> (case fe_obj e of HFile f \<Rightarrow> [f] | _ \<Rightarrow> []) | None \<Rightarrow> []) fds)"

definition referenced :: "nat \<Rightarrow> kernel \<Rightarrow> bool" where
  "referenced f k = list_ex (\<lambda>(_, t). f \<in> set (entry_files (t_fds t))) (tt_tasks (k_tasks k))"

definition drop_file :: "nat \<Rightarrow> kernel \<Rightarrow> kernel" where
  "drop_file f k =
     (if referenced f k then k
      else case k_files k ! f of
             FPipeRead p \<Rightarrow> set_pipe p (drop_read_end (k_pipes k ! p)) k
           | FPipeWrite p \<Rightarrow> set_pipe p (drop_write_end (k_pipes k ! p)) k
           | _ \<Rightarrow> k)"

definition drop_files :: "nat list \<Rightarrow> kernel \<Rightarrow> kernel" where
  "drop_files fs k = fold drop_file (remdups fs) k"

section \<open>Open files of every kind\<close>

definition S_IFIFO :: nat where "S_IFIFO = 0x1000"
definition S_IFCHR :: nat where "S_IFCHR = 0x2000"
definition S_IFDIR :: nat where "S_IFDIR = 0x4000"
definition S_IFREG :: nat where "S_IFREG = 0x8000"

datatype io = IO int "byte list" | Blocks nat

definition keyboard_read :: "nat \<Rightarrow> kernel \<Rightarrow> io \<times> kernel" where
  "keyboard_read n k =
     (let (bytes, c) = console_read n (k_console k)
      in if bytes \<noteq> [] then (IO (int (length bytes)) bytes, k\<lparr>k_console := c\<rparr>) else (Blocks 0, k))"

definition file_read :: "nat \<Rightarrow> nat \<Rightarrow> kernel \<Rightarrow> io \<times> kernel" where
  "file_read f n k =
     (case k_files k ! f of
        FKeyboard \<Rightarrow> keyboard_read n k
      | FConsole _ \<Rightarrow> (IO 0 [], k)
      | FExt2 e \<Rightarrow> (let (r, bytes, e') = ext2_file_read n e in (IO r bytes, set_file f (FExt2 e') k))
      | FFat e \<Rightarrow> (let (r, bytes, e') = fat_file_read n e in (IO r bytes, set_file f (FFat e') k))
      | FDir _ \<Rightarrow> (IO EISDIR [], k)
      | FPipeRead p \<Rightarrow>
          (case pipe_read_round n (k_pipes k ! p) of
             (PRead bytes, p') \<Rightarrow> (IO (int (length bytes)) bytes, set_pipe p p' k)
           | (PEof, _) \<Rightarrow> (IO 0 [], k)
           | (PReadBlock, _) \<Rightarrow> (Blocks 0, k))
      | FPipeWrite _ \<Rightarrow> (IO EBADF [], k))"

text \<open>The write loop of a pipe, until it is done or has to sleep.\<close>

function pipe_write_loop :: "byte list \<Rightarrow> nat \<Rightarrow> pipe \<Rightarrow> io \<times> pipe" where
  "pipe_write_loop src don p =
     (case pipe_write_round src don p of
        (PDone r, p') \<Rightarrow> (IO r [], p')
      | (PMore don', p') \<Rightarrow> pipe_write_loop src don' p'
      | (PWriteBlock, p') \<Rightarrow> (Blocks don, p'))"
  by pat_completeness auto
termination
  by (relation "measure (\<lambda>(src, don, p). length src - don)")
    (auto simp: pipe_write_round_def Let_def split: if_splits)

declare pipe_write_loop.simps [simp del]

definition write_volume :: "string \<Rightarrow> byte list \<Rightarrow> disk \<Rightarrow> (bool \<times> disk) option" where
  "write_volume path dat d =
     (case ext2_open d of
        Inl _ \<Rightarrow> Some (False, d)
      | Inr fs \<Rightarrow> map_option (\<lambda>(r, d'). (r = Inr (), d')) (write_path fs path dat d))"

definition console_file_write :: "bool \<Rightarrow> byte list option \<Rightarrow> kernel \<Rightarrow> (io \<times> kernel) option" where
  "console_file_write w src k =
     (if \<not> w then Some (IO EBADF [], k)
      else map_option (\<lambda>b. (IO (int (length b)) [], k\<lparr>k_console := serial_write b (k_console k)\<rparr>)) src)"

text \<open>The source bytes are a user range: \<open>None\<close> when it is not mapped, a fault once they are read.\<close>

definition file_write :: "nat \<Rightarrow> byte list option \<Rightarrow> kernel \<Rightarrow> (io \<times> kernel) option" where
  "file_write f src k =
     (case k_files k ! f of
        FKeyboard \<Rightarrow> Some (IO EBADF [], k)
      | FConsole w \<Rightarrow> console_file_write w src k
      | FExt2 e \<Rightarrow>
          do { b \<leftarrow> src;
               (r, e', d) \<leftarrow> ext2_file_write write_volume b e (k_disk k);
               Some (IO r [], (set_file f (FExt2 e') k)\<lparr>k_disk := d\<rparr>) }
      | FFat _ \<Rightarrow> Some (IO EROFS [], k)
      | FDir _ \<Rightarrow> Some (IO EISDIR [], k)
      | FPipeRead _ \<Rightarrow> Some (IO EBADF [], k)
      | FPipeWrite p \<Rightarrow>
          do { b \<leftarrow> src;
               let (r, p') = pipe_write_loop b 0 (k_pipes k ! p) in Some (r, set_pipe p p' k) })"

definition file_seek :: "nat \<Rightarrow> int \<Rightarrow> nat \<Rightarrow> kernel \<Rightarrow> int \<times> kernel" where
  "file_seek f off whence k =
     (case k_files k ! f of
        FExt2 e \<Rightarrow> (let (r, e') = ext2_file_seek off whence e in (r, set_file f (FExt2 e') k))
      | FFat e \<Rightarrow> (let (r, e') = fat_file_seek off whence e in (r, set_file f (FFat e') k))
      | FDir e \<Rightarrow> (let (r, e') = dir_file_seek off whence e in (r, set_file f (FDir e') k))
      | _ \<Rightarrow> (ESPIPE, k))"

definition file_stat :: "nat \<Rightarrow> kernel \<Rightarrow> nat \<times> nat" where
  "file_stat f k =
     (case k_files k ! f of
        FKeyboard \<Rightarrow> (S_IFCHR + 0x190, 0)
      | FConsole _ \<Rightarrow> (S_IFCHR + 0x190, 0)
      | FExt2 e \<Rightarrow> (S_IFREG + 0x1A4, length (ef_buf e))
      | FFat e \<Rightarrow> (S_IFREG + 0x124, length (ff_buf e))
      | FDir e \<Rightarrow> (S_IFDIR + 0x1ED, length (df_blob e))
      | FPipeRead _ \<Rightarrow> (S_IFIFO + 0x180, 0)
      | FPipeWrite _ \<Rightarrow> (S_IFIFO + 0x180, 0))"

definition file_getdents64 :: "nat \<Rightarrow> nat \<Rightarrow> kernel \<Rightarrow> (int \<times> byte list \<times> kernel) option" where
  "file_getdents64 f cap k =
     (case k_files k ! f of
        FDir e \<Rightarrow> map_option (\<lambda>(r, bytes, e'). (r, bytes, set_file f (FDir e') k)) (getdents64 cap e)
      | _ \<Rightarrow> Some (ENOTDIR, [], k))"

section \<open>Reading, writing, pipes\<close>

fun io_outcome :: "io \<Rightarrow> outcome" where
  "io_outcome (IO r _) = Ret r"
| "io_outcome (Blocks n) = Sleep n"

definition sys_write :: "u64 \<Rightarrow> u64 \<Rightarrow> u64 \<Rightarrow> kernel \<Rightarrow> (outcome \<times> kernel) option" where
  "sys_write fd p len k =
     (case cur_fd fd k of
        None \<Rightarrow> Some (Ret EBADF, k)
      | Some f \<Rightarrow> map_option (map_prod io_outcome id) (file_write f (load_bytes (k_mem k) p (unat len)) k))"

definition sys_read :: "u64 \<Rightarrow> u64 \<Rightarrow> u64 \<Rightarrow> kernel \<Rightarrow> (outcome \<times> kernel) option" where
  "sys_read fd p len k =
     (case cur_fd fd k of
        None \<Rightarrow> Some (Ret EBADF, k)
      | Some f \<Rightarrow>
          (case file_read f (unat len) k of
             (IO r xs, k1) \<Rightarrow> map_option (Pair (Ret r)) (store p xs k1)
           | (Blocks n, k1) \<Rightarrow> Some (Sleep n, k1)))"

fun sys_writev :: "u64 \<Rightarrow> u64 \<Rightarrow> nat \<Rightarrow> int \<Rightarrow> kernel \<Rightarrow> (outcome \<times> kernel) option" where
  "sys_writev fd iov 0 tot k = Some (Ret tot, k)"
| "sys_writev fd iov (Suc n) tot k =
     do { base \<leftarrow> load_le 8 (k_mem k) iov;
          len \<leftarrow> load_le 8 (k_mem k) (iov + 8);
          (o1, k1) \<leftarrow> sys_write fd (of_nat base) (of_nat len) k;
          case o1 of
            Ret r \<Rightarrow> if r < 0 then Some (Ret (if tot = 0 then r else tot), k1)
                      else sys_writev fd (iov + 16) n (tot + r) k1
          | x \<Rightarrow> Some (x, k1) }"

definition O_CLOEXEC :: u64 where "O_CLOEXEC = 0x80000"

definition sys_pipe :: "u64 \<Rightarrow> u64 \<Rightarrow> kernel \<Rightarrow> (outcome \<times> kernel) option" where
  "sys_pipe fds_ptr flags k =
     (if cur_task k = None then Some (Ret EBADF, k)
      else let cloexec = (flags AND O_CLOEXEC \<noteq> 0); p = length (k_pipes k);
               (r, k1) = new_file (FPipeRead p) (k\<lparr>k_pipes := k_pipes k @ [pipe_new]\<rparr>);
               (w, k2) = new_file (FPipeWrite p) k1
           in do { (rfd, k3) \<leftarrow> on_fds (fd_alloc_flags r cloexec) k2;
                   (wfd, k4) \<leftarrow> on_fds (fd_alloc_flags w cloexec) k3;
                   k5 \<leftarrow> store fds_ptr (le_bytes 4 (unat rfd)) k4;
                   k6 \<leftarrow> store (fds_ptr + 4) (le_bytes 4 (unat wfd)) k5;
                   Some (Ret 0, k6) })"

definition sys_close :: "u64 \<Rightarrow> kernel \<Rightarrow> (outcome \<times> kernel) option" where
  "sys_close fd k =
     (case on_fds (fd_close (ucast fd)) k of
        None \<Rightarrow> Some (Ret EBADF, k)
      | Some (ok, k1) \<Rightarrow>
          if ok then Some (Ret 0, drop_files (case cur_fd fd k of Some f \<Rightarrow> [f] | None \<Rightarrow> []) k1) else Some (Ret EBADF, k1))"

definition i64_of :: "u64 \<Rightarrow> int" where
  "i64_of w = sint w"

definition sys_lseek :: "u64 \<Rightarrow> u64 \<Rightarrow> u64 \<Rightarrow> kernel \<Rightarrow> (outcome \<times> kernel) option" where
  "sys_lseek fd off whence k =
     (case cur_fd fd k of
        None \<Rightarrow> Some (Ret EBADF, k)
      | Some f \<Rightarrow> Some (map_prod Ret id (file_seek f (i64_of off) (unat (ucast whence :: u32)) k)))"

definition sys_getdents64 :: "u64 \<Rightarrow> u64 \<Rightarrow> u64 \<Rightarrow> kernel \<Rightarrow> (outcome \<times> kernel) option" where
  "sys_getdents64 fd p len k =
     (case cur_fd fd k of
        None \<Rightarrow> Some (Ret EBADF, k)
      | Some f \<Rightarrow>
          do { (r, xs, k1) \<leftarrow> file_getdents64 f (unat len) k; k2 \<leftarrow> store p xs k1; Some (Ret r, k2) })"

text \<open>\<open>sendfile\<close>: the copy loop ends, fails before the first byte, or sleeps.\<close>

datatype send_result = SendEnd int | SendFail int | SendSleep int

function sendfile_loop :: "nat \<Rightarrow> nat \<Rightarrow> nat \<Rightarrow> int \<Rightarrow> kernel \<Rightarrow> (send_result \<times> kernel) option" where
  "sendfile_loop src dst left tot k =
     (if left = 0 then Some (SendEnd tot, k)
      else case file_read src (min left 4096) k of
             (Blocks _, k1) \<Rightarrow> Some (SendSleep tot, k1)
           | (IO n xs, k1) \<Rightarrow>
               if n \<le> 0 then Some (if n < 0 \<and> tot = 0 then SendFail n else SendEnd tot, k1)
               else (case file_write dst (Some xs) k1 of
                       None \<Rightarrow> None
                     | Some (Blocks b, k2) \<Rightarrow> Some (SendSleep (tot + int b), k2)
                     | Some (IO w _, k2) \<Rightarrow>
                         if w < 0 then Some (if tot = 0 then SendFail w else SendEnd tot, k2)
                         else if w < n then Some (SendEnd (tot + w), k2)
                         else sendfile_loop src dst (left - nat w) (tot + w) k2))"
  by pat_completeness auto
termination
  by (relation "measure (\<lambda>(src, dst, left, tot, k). left)") auto

declare sendfile_loop.simps [simp del]

definition sys_sendfile :: "u64 \<Rightarrow> u64 \<Rightarrow> u64 \<Rightarrow> u64 \<Rightarrow> kernel \<Rightarrow> (outcome \<times> kernel) option" where
  "sys_sendfile out_fd in_fd off_ptr cnt k =
     (case (cur_fd in_fd k, cur_fd out_fd k) of
        (Some src, Some dst) \<Rightarrow>
          do { (bad, k1) \<leftarrow>
                 (if off_ptr \<noteq> 0
                  then do { v \<leftarrow> load_le 8 (k_mem k) off_ptr;
                            let (r, k1) = file_seek src (i64_of (of_nat v)) SEEK_SET k in Some (r < 0, k1) }
                  else Some (False, k));
               if bad then Some (Ret EINVAL, k1)
               else do { (res, k2) \<leftarrow> sendfile_loop src dst (unat cnt) 0 k1;
                         case res of
                           SendFail n \<Rightarrow> Some (Ret n, k2)
                         | SendSleep n \<Rightarrow> Some (Sleep (nat n), k2)
                         | SendEnd tot \<Rightarrow>
                             if off_ptr = 0 then Some (Ret tot, k2)
                             else let (cur, k3) = file_seek src 0 SEEK_CUR k2
                                  in if cur < 0 then Some (Ret tot, k3)
                                     else do { k4 \<leftarrow> store off_ptr (le_bytes 8 (nat cur)) k3; Some (Ret tot, k4) } } }
      | _ \<Rightarrow> Some (Ret EBADF, k))"

section \<open>Paths: removing, creating, modes and owners\<close>

definition unlink_errno :: "(string, unit) result \<Rightarrow> int" where
  "unlink_errno r =
     (case r of
        Inr _ \<Rightarrow> 0
      | Inl e \<Rightarrow> if e = ''no such file'' \<or> e = ''no such directory'' \<or> e = ''parent dir missing'' then ENOENT
                 else if e = ''is a directory'' then EISDIR
                 else if e = ''not a directory'' then ENOTDIR
                 else if e = ''directory not empty'' then ENOTEMPTY
                 else EINVAL)"

definition sys_unlink :: "u64 \<Rightarrow> bool \<Rightarrow> kernel \<Rightarrow> (outcome \<times> kernel) option" where
  "sys_unlink path_ptr dir k =
     do { raw \<leftarrow> user_cstr path_ptr (k_mem k);
          let path = resolve raw k
          in case ext2_open (k_disk k) of
               Inl _ \<Rightarrow> Some (Ret EIO, k)
             | Inr fs \<Rightarrow>
                 do { (r, d) \<leftarrow> (if dir then rmdir_path fs path (k_disk k) else unlink_path fs path (k_disk k));
                      Some (Ret (unlink_errno r), k\<lparr>k_disk := d\<rparr>) } }"

definition parent_of :: "string \<Rightarrow> string option" where
  "parent_of path = map_option (\<lambda>idx. if idx = 0 then ''/'' else take idx path) (rfind (CHR ''/'') path)"

text \<open>The check before an entry is created: the parent exists and refuses the caller to write.\<close>

definition parent_denies :: "ext2 \<Rightarrow> disk \<Rightarrow> string \<Rightarrow> task \<Rightarrow> bool option" where
  "parent_denies fs d path t =
     (case parent_of path of
        None \<Rightarrow> Some False
      | Some parent \<Rightarrow>
          do { pi \<leftarrow> path_lookup fs d parent;
               case pi of
                 None \<Rightarrow> Some False
               | Some pino \<Rightarrow> do { node \<leftarrow> read_inode fs d pino; Some (\<not> access_ok node (t_uid t) (t_gid t) True) } })"

definition mkdir_errno :: "(string, unit) result \<Rightarrow> int" where
  "mkdir_errno r =
     (case r of
        Inr _ \<Rightarrow> 0
      | Inl e \<Rightarrow> if e = ''already exists'' then EEXIST
                 else if e = ''parent dir missing'' \<or> e = ''no such directory'' then ENOENT
                 else if e = ''not a directory'' then ENOTDIR
                 else EINVAL)"

definition sys_mkdir :: "u64 \<Rightarrow> kernel \<Rightarrow> (outcome \<times> kernel) option" where
  "sys_mkdir path_ptr k =
     do { raw \<leftarrow> user_cstr path_ptr (k_mem k);
          let path = resolve raw k
          in case cur_task k of
               None \<Rightarrow> Some (Ret EBADF, k)
             | Some t \<Rightarrow>
                 (case ext2_open (k_disk k) of
                    Inl _ \<Rightarrow> Some (Ret EIO, k)
                  | Inr fs \<Rightarrow>
                      do { no \<leftarrow> parent_denies fs (k_disk k) path t;
                           if no then Some (Ret EACCES, k)
                           else do { (r, d) \<leftarrow> mkdir_path_owned fs path (t_uid t) (t_gid t) (k_disk k);
                                     Some (Ret (mkdir_errno r), k\<lparr>k_disk := d\<rparr>) } }) }"

definition sys_chmod :: "u64 \<Rightarrow> u64 \<Rightarrow> kernel \<Rightarrow> (outcome \<times> kernel) option" where
  "sys_chmod path_ptr mode k =
     do { raw \<leftarrow> user_cstr path_ptr (k_mem k);
          let path = resolve raw k
          in case cur_task k of
               None \<Rightarrow> Some (Ret EBADF, k)
             | Some t \<Rightarrow>
                 (case ext2_open (k_disk k) of
                    Inl _ \<Rightarrow> Some (Ret EIO, k)
                  | Inr fs \<Rightarrow>
                      do { i \<leftarrow> path_lookup fs (k_disk k) path;
                           case i of
                             None \<Rightarrow> Some (Ret ENOENT, k)
                           | Some ino \<Rightarrow>
                               do { node \<leftarrow> read_inode fs (k_disk k) ino;
                                    if t_uid t \<noteq> 0 \<and> t_uid t \<noteq> i_uid node then Some (Ret EPERM, k)
                                    else do { (r, d) \<leftarrow> chmod_path fs path (ucast mode) (k_disk k);
                                              Some (Ret (case r of Inr _ \<Rightarrow> 0 | Inl _ \<Rightarrow> EINVAL), k\<lparr>k_disk := d\<rparr>) } } }) }"

definition sys_chown :: "u64 \<Rightarrow> u64 \<Rightarrow> u64 \<Rightarrow> kernel \<Rightarrow> (outcome \<times> kernel) option" where
  "sys_chown path_ptr uid gid k =
     do { raw \<leftarrow> user_cstr path_ptr (k_mem k);
          let path = resolve raw k
          in case cur_task k of
               None \<Rightarrow> Some (Ret EBADF, k)
             | Some t \<Rightarrow>
                 if t_uid t \<noteq> 0 then Some (Ret EPERM, k)
                 else (case ext2_open (k_disk k) of
                         Inl _ \<Rightarrow> Some (Ret EIO, k)
                       | Inr fs \<Rightarrow>
                           do { (r, d) \<leftarrow> chown_path fs path (ucast uid) (ucast gid) (k_disk k);
                                Some (Ret (case r of Inr _ \<Rightarrow> 0 | Inl _ \<Rightarrow> ENOENT), k\<lparr>k_disk := d\<rparr>) }) }"

section \<open>Opening\<close>

definition O_CREAT :: u64 where "O_CREAT = 0x40"
definition O_EXCL :: u64 where "O_EXCL = 0x80"

definition open_resolved_access :: "string \<Rightarrow> bool \<Rightarrow> bool \<Rightarrow> kernel \<Rightarrow> (int \<times> kernel) option" where
  "open_resolved_access path want_read want_write k =
     (case cur_task k of
        None \<Rightarrow> Some (EBADF, k)
      | Some t \<Rightarrow>
          (case ext2_open (k_disk k) of
             Inl _ \<Rightarrow> Some (EIO, k)
           | Inr fs \<Rightarrow>
               do { i \<leftarrow> path_lookup fs (k_disk k) path;
                    case i of
                      None \<Rightarrow> Some (ENOENT, k)
                    | Some ino \<Rightarrow>
                        do { node \<leftarrow> read_inode fs (k_disk k) ino;
                             if want_read \<and> \<not> access_ok node (t_uid t) (t_gid t) False \<or>
                                want_write \<and> \<not> access_ok node (t_uid t) (t_gid t) True
                             then Some (EACCES, k)
                             else do { obj \<leftarrow> (if i_mode node AND 0xF000 = 0x4000
                                              then map_option (\<lambda>es. FDir (dir_file_new (map (\<lambda>(i, ty, n). (unat i, ty, n)) es)))
                                                     (read_dir fs (k_disk k) ino)
                                              else map_option (\<lambda>dat. FExt2 (ext2_file_new path dat)) (read_file fs (k_disk k) node));
                                       let (f, k1) = new_file obj k
                                       in map_option (\<lambda>(fd, k2). (sint fd, k2)) (on_fds (fd_alloc f) k1) } } }))"

text \<open>The creating half: an error, or the state in which the path is opened.\<close>

definition open_create :: "string \<Rightarrow> u64 \<Rightarrow> kernel \<Rightarrow> ((int, kernel) result \<times> kernel) option" where
  "open_create path flags k =
     (case cur_task k of
        None \<Rightarrow> Some (Inl EBADF, k)
      | Some t \<Rightarrow>
          (case ext2_open (k_disk k) of
             Inl _ \<Rightarrow> Some (Inl EIO, k)
           | Inr fs \<Rightarrow>
               do { i \<leftarrow> path_lookup fs (k_disk k) path;
                    case i of
                      Some _ \<Rightarrow> if flags AND O_EXCL \<noteq> 0 then Some (Inl EEXIST, k) else Some (Inr k, k)
                    | None \<Rightarrow>
                        do { no \<leftarrow> parent_denies fs (k_disk k) path t;
                             if no then Some (Inl EACCES, k)
                             else do { (r, d) \<leftarrow> write_path_owned fs path [] (t_uid t) (t_gid t) (k_disk k);
                                       let k1 = k\<lparr>k_disk := d\<rparr>
                                       in Some (case r of Inl _ \<Rightarrow> Inl ENOENT | Inr _ \<Rightarrow> Inr k1, k1) } } }))"

definition open_resolved :: "string \<Rightarrow> u64 \<Rightarrow> kernel \<Rightarrow> (int \<times> kernel) option" where
  "open_resolved path flags k =
     do { (r, k1) \<leftarrow> (if flags AND O_CREAT \<noteq> 0 then open_create path flags k else Some (Inr k, k));
          case r of
            Inl e \<Rightarrow> Some (e, k1)
          | Inr k2 \<Rightarrow> let accmode = flags AND 3 in open_resolved_access path (accmode \<noteq> 1) (accmode \<noteq> 0) k2 }"

definition sys_open :: "u64 \<Rightarrow> u64 \<Rightarrow> kernel \<Rightarrow> (outcome \<times> kernel) option" where
  "sys_open path_ptr flags k =
     do { raw \<leftarrow> user_cstr path_ptr (k_mem k);
          (r, k1) \<leftarrow> open_resolved (resolve raw k) flags k;
          Some (Ret r, k1) }"

section \<open>File information and terminals\<close>

text \<open>The 144 bytes of \<open>struct stat\<close>.\<close>

definition stat_image :: "nat \<Rightarrow> nat \<Rightarrow> byte list" where
  "stat_image mode sz =
     splice 64 (le_bytes 8 (((sz + 511) mod 2 ^ 64) div 512))
       (splice 56 (le_bytes 8 4096)
         (splice 48 (le_bytes 8 sz)
           (splice 24 (le_bytes 4 mode)
             (splice 16 (le_bytes 8 1) (replicate 144 0)))))"

definition sys_fstat :: "u64 \<Rightarrow> u64 \<Rightarrow> kernel \<Rightarrow> (outcome \<times> kernel) option" where
  "sys_fstat fd buf k =
     (case cur_fd fd k of
        None \<Rightarrow> Some (Ret EBADF, k)
      | Some f \<Rightarrow> (case file_stat f k of (mode, sz) \<Rightarrow> map_option (Pair (Ret 0)) (store buf (stat_image mode sz) k)))"

definition sys_newfstatat :: "u64 \<Rightarrow> u64 \<Rightarrow> u64 \<Rightarrow> u64 \<Rightarrow> kernel \<Rightarrow> (outcome \<times> kernel) option" where
  "sys_newfstatat dirfd path_ptr buf flags k =
     do { raw \<leftarrow> user_cstr path_ptr (k_mem k);
          if raw = [] \<and> flags AND 0x1000 \<noteq> 0 then sys_fstat dirfd buf k
          else case ext2_open (k_disk k) of
                 Inl _ \<Rightarrow> Some (Ret EIO, k)
               | Inr fs \<Rightarrow>
                   do { i \<leftarrow> path_lookup fs (k_disk k) (resolve raw k);
                        case i of
                          None \<Rightarrow> Some (Ret ENOENT, k)
                        | Some ino \<Rightarrow>
                            do { node \<leftarrow> read_inode fs (k_disk k) ino;
                                 k1 \<leftarrow> store buf (stat_image (unat (i_mode node)) (i_size node)) k;
                                 Some (Ret 0, k1) } } }"

definition current_pid :: "kernel \<Rightarrow> u64" where
  "current_pid k = (case cur_task k of Some t \<Rightarrow> t_pid t | None \<Rightarrow> 0)"

definition termios_image :: "byte list" where
  "termios_image =
     le_bytes 4 0x0100 @ le_bytes 4 0x0005 @ le_bytes 4 0x00bf @ le_bytes 4 0x0003 @ [0] @
     [3, 28, 0x7f, 21, 4, 0, 1] @ replicate 12 0"

definition sys_ioctl :: "u64 \<Rightarrow> u64 \<Rightarrow> u64 \<Rightarrow> kernel \<Rightarrow> (outcome \<times> kernel) option" where
  "sys_ioctl fd cmd arg k =
     (if cur_fd fd k = None then Some (Ret EBADF, k)
      else if cmd = 0x5401 then map_option (Pair (Ret 0)) (store arg termios_image k)
      else if cmd = 0x5402 \<or> cmd = 0x5403 \<or> cmd = 0x5404 then Some (Ret 0, k)
      else if cmd = 0x5413 then map_option (Pair (Ret 0)) (store arg [25, 0, 80, 0, 0, 0, 0, 0] k)
      else if cmd = 0x540f then map_option (Pair (Ret 0)) (store arg (le_bytes 4 (unat (current_pid k) mod 2 ^ 32)) k)
      else if cmd = 0x5410 then Some (Ret 0, k)
      else Some (Ret ENOTTY, k))"

section \<open>The remaining calls\<close>

definition sys_utimensat :: "u64 \<Rightarrow> kernel \<Rightarrow> (outcome \<times> kernel) option" where
  "sys_utimensat path_ptr k =
     (if path_ptr = 0 then Some (Ret 0, k)
      else do { raw \<leftarrow> user_cstr path_ptr (k_mem k);
                case ext2_open (k_disk k) of
                  Inl _ \<Rightarrow> Some (Ret ENOENT, k)
                | Inr fs \<Rightarrow> do { i \<leftarrow> path_lookup fs (k_disk k) (resolve raw k);
                                  Some (Ret (if i = None then ENOENT else 0), k) } })"

definition sys_time :: "u64 \<Rightarrow> kernel \<Rightarrow> (outcome \<times> kernel) option" where
  "sys_time p k =
     (let t = 1735689600
      in if p = 0 then Some (Ret (int t), k) else map_option (Pair (Ret (int t))) (store p (le_bytes 8 t) k))"

text \<open>The address of a thread-local block must be canonical: \<open>VirtAddr::new\<close> panics.\<close>

definition sys_arch_prctl :: "u64 \<Rightarrow> u64 \<Rightarrow> kernel \<Rightarrow> (outcome \<times> kernel) option" where
  "sys_arch_prctl code addr k =
     (if code = 0x1002 then (if canonical addr then Some (Ret 0, k\<lparr>k_fsbase := addr\<rparr>) else None)
      else if code = 0x1003 then map_option (Pair (Ret 0)) (store addr (le_bytes 8 (unat (k_fsbase k))) k)
      else Some (Ret EINVAL, k))"

fun rng_bytes :: "nat \<Rightarrow> u64 \<Rightarrow> byte list" where
  "rng_bytes 0 x = []"
| "rng_bytes (Suc n) x = (let y = xorshift x in ucast y # rng_bytes n y)"

definition sys_getrandom :: "u64 \<Rightarrow> u64 \<Rightarrow> kernel \<Rightarrow> (outcome \<times> kernel) option" where
  "sys_getrandom p len k =
     map_option (Pair (Ret (i64_of len)))
       (store p (rng_bytes (unat len) (k_rng k)) (k\<lparr>k_rng := k_rng k + 0x9E3779B97F4A7C15\<rparr>))"

definition sys_chdir :: "u64 \<Rightarrow> kernel \<Rightarrow> (outcome \<times> kernel) option" where
  "sys_chdir path_ptr k =
     do { raw \<leftarrow> user_cstr path_ptr (k_mem k);
          let path = resolve raw k
          in case ext2_open (k_disk k) of
               Inl _ \<Rightarrow> Some (Ret ENOENT, k)
             | Inr fs \<Rightarrow>
                 do { i \<leftarrow> path_lookup fs (k_disk k) path;
                      case i of
                        None \<Rightarrow> Some (Ret ENOENT, k)
                      | Some ino \<Rightarrow>
                          do { node \<leftarrow> read_inode fs (k_disk k) ino;
                               if i_mode node AND 0xF000 = 0x4000
                               then Some (Ret 0, upd_task (\<lambda>t. t\<lparr>t_cwd := path\<rparr>) k)
                               else Some (Ret ENOTDIR, k) } } }"

text \<open>
  Duplicating a descriptor: the description a number was taken from goes away with its last
  descriptor.
\<close>

definition sys_dup_with :: "(fds \<Rightarrow> i32 \<times> fds) \<Rightarrow> kernel \<Rightarrow> int \<times> kernel" where
  "sys_dup_with f k =
     (case cur_task k of
        None \<Rightarrow> (EBADF, k)
      | Some t \<Rightarrow>
          (case on_fds f k of
             None \<Rightarrow> (EBADF, k)
           | Some (fd, k1) \<Rightarrow> (sint fd, drop_files (entry_files (t_fds t)) k1)))"

definition sys_dup3 :: "u64 \<Rightarrow> u64 \<Rightarrow> u64 \<Rightarrow> kernel \<Rightarrow> int \<times> kernel" where
  "sys_dup3 oldfd newfd flags k =
     (if oldfd = newfd then (EINVAL, k)
      else sys_dup_with (fd_dup3 (ucast oldfd) (ucast newfd) (flags AND O_CLOEXEC \<noteq> 0)) k)"

definition sys_fcntl :: "u64 \<Rightarrow> u64 \<Rightarrow> u64 \<Rightarrow> kernel \<Rightarrow> int \<times> kernel" where
  "sys_fcntl fd cmd arg k =
     (if cmd = 0 then sys_dup_with (fd_dup (ucast fd) (ucast arg)) k
      else if cmd = 1030
      then (let (r, k1) = sys_dup_with (fd_dup (ucast fd) (ucast arg)) k
            in (r, if 0 \<le> r then snd (sys_dup_with (fd_set_cloexec (word_of_int r) True) k1) else k1))
      else if cmd = 1 then ((case cur_task k of Some t \<Rightarrow> sint (fd_get_cloexec (ucast fd) (t_fds t)) | None \<Rightarrow> EBADF), k)
      else if cmd = 2 then sys_dup_with (fd_set_cloexec (ucast fd) (arg AND 1 \<noteq> 0)) k
      else if cmd = 3 then (2, k)
      else (0, k))"

text \<open>\<open>poll\<close>: the events of every entry become none, or \<open>POLLNVAL\<close> for a number that is not open.\<close>

fun sys_poll :: "u64 \<Rightarrow> nat \<Rightarrow> int \<Rightarrow> kernel \<Rightarrow> (outcome \<times> kernel) option" where
  "sys_poll p 0 ready k = Some (Ret ready, k)"
| "sys_poll p (Suc n) ready k =
     do { fd \<leftarrow> load_le 4 (k_mem k) p;
          let bad = (cur_fd (of_nat fd) k = None)
          in do { k1 \<leftarrow> store (p + 6) [if bad then 0x20 else 0, 0] k;
                  sys_poll (p + 8) n (if bad then ready + 1 else ready) k1 } }"

definition sys_getaffinity :: "u64 \<Rightarrow> u64 \<Rightarrow> kernel \<Rightarrow> (outcome \<times> kernel) option" where
  "sys_getaffinity size_arg p k =
     (let len = min (unat size_arg) 8;
          mask = le_bytes 8 (unat (push_bit (min (k_cpus k) 64 mod 64) 1 - 1 :: u64))
      in map_option (Pair (Ret (int len))) (store p (take len mask) k))"

definition exit_with :: "i32 \<Rightarrow> kernel \<Rightarrow> kernel" where
  "exit_with code k =
     (let k1 = (case (k_me k, cur_task k) of
                  (Some pid, Some t) \<Rightarrow>
                    drop_files (entry_files (t_fds t)) (k\<lparr>k_tasks := set_exit_status pid code (k_tasks k)\<rparr>)
                | _ \<Rightarrow> k)
      in k1\<lparr>k_user_exits := k_user_exits k + 1\<rparr>)"

definition sys_kill :: "u64 \<Rightarrow> kernel \<Rightarrow> outcome \<times> kernel" where
  "sys_kill sig k =
     (if sig = 6 \<or> sig = 9 \<or> sig = 15 then (Gone, exit_with (128 + ucast sig) k) else (Ret 0, k))"

definition sys_getcwd :: "u64 \<Rightarrow> u64 \<Rightarrow> kernel \<Rightarrow> (outcome \<times> kernel) option" where
  "sys_getcwd p len k =
     (let cwd = current_cwd k; need = length cwd + 1
      in if p = 0 \<or> unat len < need then Some (Ret ERANGE, k)
         else map_option (Pair (Ret (int need))) (store p (as_bytes cwd @ [0]) k))"

definition sys_execve :: "u64 \<Rightarrow> u64 \<Rightarrow> u64 \<Rightarrow> kernel \<Rightarrow> (outcome \<times> kernel) option" where
  "sys_execve path_ptr argv_ptr envp_ptr k =
     do { raw \<leftarrow> user_cstr path_ptr (k_mem k);
          argv \<leftarrow> user_cstr_array argv_ptr (k_mem k);
          envp \<leftarrow> user_cstr_array envp_ptr (k_mem k);
          case ext2_open (k_disk k) of
            Inl _ \<Rightarrow> Some (Ret ENOENT, k)
          | Inr fs \<Rightarrow>
              do { bytes \<leftarrow> read_path fs (k_disk k) (resolve raw k);
                   case bytes of
                     None \<Rightarrow> Some (Ret ENOENT, k)
                   | Some b \<Rightarrow> Some (Ask (RExec b argv envp), k) } }"

definition sys_wait4 :: "u64 \<Rightarrow> u64 \<Rightarrow> kernel \<Rightarrow> (outcome \<times> kernel) option" where
  "sys_wait4 pid status_ptr k =
     (case wait4_round (current_pid k) pid (k_tasks k) of
        (Reaped cpid st, tt) \<Rightarrow>
          (let k1 = k\<lparr>k_tasks := tt\<rparr>
           in if status_ptr = 0 then Some (Ret (i64_of cpid), k1)
              else map_option (Pair (Ret (i64_of cpid))) (store status_ptr (le_bytes 4 (unat st)) k1))
      | (NoChild, _) \<Rightarrow> Some (Ret ECHILD, k)
      | (WaitBlocks, _) \<Rightarrow> Some (Sleep 0, k))"

text \<open>The native call \<open>elevate\<close>; \<open>sha\<close> is the digest of the credential store.\<close>

definition sys_elevate :: "(byte list \<Rightarrow> byte list) \<Rightarrow> u64 \<Rightarrow> u64 \<Rightarrow> u64 \<Rightarrow> kernel \<Rightarrow> (outcome \<times> kernel) option" where
  "sys_elevate sha path_ptr argv_ptr password_ptr k =
     (case cur_task k of
        None \<Rightarrow> Some (Ret EBADF, k)
      | Some t \<Rightarrow>
          if t_uid t \<noteq> ADMIN_UID then Some (Ret EPERM, k)
          else (case ext2_open (k_disk k) of
                  Inl _ \<Rightarrow> Some (Ret EIO, k)
                | Inr fs \<Rightarrow>
                    do { stored \<leftarrow> read_path fs (k_disk k) CRED_PATH;
                         case cred_load stored of
                           None \<Rightarrow> Some (Ret EPERM, k)
                         | Some c \<Rightarrow>
                             do { password \<leftarrow> user_cstr password_ptr (k_mem k);
                                  if \<not> cred_verify sha c (cr_name c) password then Some (Ret EACCES, k)
                                  else do { raw \<leftarrow> user_cstr path_ptr (k_mem k);
                                            bytes \<leftarrow> read_path fs (k_disk k) (resolve raw k);
                                            case bytes of
                                              None \<Rightarrow> Some (Ret ENOENT, k)
                                            | Some b \<Rightarrow>
                                                do { argv \<leftarrow> user_cstr_array argv_ptr (k_mem k);
                                                     Some (Ask (RElevate b argv), k) } } } }))"

section \<open>The dispatcher\<close>

definition current_ppid :: "kernel \<Rightarrow> u64" where
  "current_ppid k = (case cur_task k of Some t \<Rightarrow> t_ppid t | None \<Rightarrow> 0)"

definition current_uid :: "kernel \<Rightarrow> u32" where
  "current_uid k = (case cur_task k of Some t \<Rightarrow> t_uid t | None \<Rightarrow> 0)"

definition current_gid :: "kernel \<Rightarrow> u32" where
  "current_gid k = (case cur_task k of Some t \<Rightarrow> t_gid t | None \<Rightarrow> 0)"

definition ret_value :: "int \<times> kernel \<Rightarrow> (outcome \<times> kernel) option" where
  "ret_value x = Some (Ret (fst x), snd x)"

definition store_zeros :: "u64 \<Rightarrow> nat \<Rightarrow> kernel \<Rightarrow> (outcome \<times> kernel) option" where
  "store_zeros p n k = map_option (Pair (Ret 0)) (store p (replicate n 0) k)"

definition NT_BASE :: u64 where "NT_BASE = 0x4E540000"

text \<open>
  \<open>thos_syscall_dispatch\<close> in three parts, in the order of its arms: files, the rest of the Linux
  numbers, and the ranges of the NT personality and the native calls.  A call for the process layer
  is a request; \<open>interactive\<close> is the build option.
\<close>

definition dispatch_native :: "(byte list \<Rightarrow> byte list) \<Rightarrow> bool \<Rightarrow> u64 \<Rightarrow> u64 \<Rightarrow> u64 \<Rightarrow> u64 \<Rightarrow> kernel \<Rightarrow> (outcome \<times> kernel) option" where
  "dispatch_native sha interactive nr a1 a2 a3 k =
     (if nr AND NOT 0xFFFF = NT_BASE then Some (Ask (RNt (nr AND 0xFFFF)), k)
      else if nr = 0x54480000 then (if interactive then sys_elevate sha a1 a2 a3 k else Some (Ret ENOSYS, k))
      else Some (Ret ENOSYS, k))"

definition dispatch_other :: "(byte list \<Rightarrow> byte list) \<Rightarrow> bool \<Rightarrow> u64 \<Rightarrow> u64 \<Rightarrow> u64 \<Rightarrow> u64 \<Rightarrow> u64 \<Rightarrow> kernel \<Rightarrow> (outcome \<times> kernel) option" where
  "dispatch_other sha interactive nr a1 a2 a3 a4 k =
     (if nr \<in> {39, 186, 218, 111, 121} then Some (Ret (i64_of (current_pid k)), k)
      else if nr = 110 then Some (Ret (i64_of (current_ppid k)), k)
      else if nr \<in> {102, 107} then Some (Ret (uint (current_uid k)), k)
      else if nr \<in> {104, 108} then Some (Ret (uint (current_gid k)), k)
      else if nr = 16 then sys_ioctl a1 a2 a3 k
      else if nr \<in> {13, 14, 15, 273, 302, 131, 10, 28, 11, 202, 157, 81, 109, 112} then Some (Ret 0, k)
      else if nr = 334 then Some (Ret ENOSYS, k)
      else if nr = 80 then sys_chdir a1 k
      else if nr = 22 then sys_pipe a1 0 k
      else if nr = 293 then sys_pipe a1 a2 k
      else if nr = 32 then ret_value (sys_dup_with (fd_dup (ucast a1) 0) k)
      else if nr = 33 then ret_value (sys_dup_with (fd_dup2 (ucast a1) (ucast a2)) k)
      else if nr = 292 then ret_value (sys_dup3 a1 a2 a3 k)
      else if nr = 72 then ret_value (sys_fcntl a1 a2 a3 k)
      else if nr \<in> {35, 230} then Some (Ask RYield, k)
      else if nr = 99 then store_zeros a1 112 k
      else if nr = 247 then Some (Ret ECHILD, k)
      else if nr \<in> {7, 271} then sys_poll a1 (unat a2) 0 k
      else if nr = 228 then store_zeros a2 16 k
      else if nr = 204 then sys_getaffinity a2 a3 k
      else if nr \<in> {62, 200} then Some (sys_kill a2 k)
      else if nr = 234 then Some (sys_kill a3 k)
      else if nr = 79 then sys_getcwd a1 a2 k
      else if nr \<in> {89, 267} then Some (Ret EINVAL, k)
      else if nr = 63 then store_zeros a1 390 k
      else if nr = 57 then Some (Ask RFork, k)
      else if nr = 56 then Some (if a1 AND 0x100 \<noteq> 0 then Ret ENOSYS else Ask RFork, k)
      else if nr = 262 then sys_newfstatat a1 a2 a3 a4 k
      else if nr \<in> {105, 106} then Some (Ret 0, k)
      else if nr = 59 then sys_execve a1 a2 a3 k
      else if nr = 61 then sys_wait4 a1 a2 k
      else if nr \<in> {60, 231} then Some (Gone, exit_with (ucast a1) k)
      else dispatch_native sha interactive nr a1 a2 a3 k)"

definition thos_syscall_dispatch :: "(byte list \<Rightarrow> byte list) \<Rightarrow> bool \<Rightarrow> u64 \<Rightarrow> u64 \<Rightarrow> u64 \<Rightarrow> u64 \<Rightarrow> u64 \<Rightarrow> kernel \<Rightarrow> (outcome \<times> kernel) option" where
  "thos_syscall_dispatch sha interactive nr a1 a2 a3 a4 k =
     (if nr = 1 then sys_write a1 a2 a3 k
      else if nr = 0 then sys_read a1 a2 a3 k
      else if nr = 20 then sys_writev a1 a2 (unat a3) 0 k
      else if nr = 2 then sys_open a1 a2 k
      else if nr = 257 then sys_open a2 a3 k
      else if nr = 87 then sys_unlink a1 False k
      else if nr = 84 then sys_unlink a1 True k
      else if nr = 263 then sys_unlink a2 (a3 AND 0x200 \<noteq> 0) k
      else if nr = 83 then sys_mkdir a1 k
      else if nr = 258 then sys_mkdir a2 k
      else if nr = 90 then sys_chmod a1 a2 k
      else if nr = 268 then sys_chmod a2 a3 k
      else if nr = 92 then sys_chown a1 a2 a3 k
      else if nr = 94 then sys_chown a1 a2 a3 k
      else if nr = 260 then sys_chown a2 a3 a4 k
      else if nr = 280 then sys_utimensat a2 k
      else if nr = 3 then sys_close a1 k
      else if nr = 8 then sys_lseek a1 a2 a3 k
      else if nr = 201 then sys_time a1 k
      else if nr = 40 then sys_sendfile a1 a2 a3 a4 k
      else if nr = 217 then sys_getdents64 a1 a2 a3 k
      else if nr = 5 then sys_fstat a1 a2 k
      else if nr = 158 then sys_arch_prctl a1 a2 k
      else if nr = 12 then Some (if cur_task k = None then Ret EINVAL else Ask (RBrk a1), k)
      else if nr = 9 then Some (if cur_task k = None then Ret EINVAL else Ask (RMmap a2), k)
      else if nr = 318 then sys_getrandom a1 a2 k
      else dispatch_other sha interactive nr a1 a2 a3 a4 k)"

section \<open>The task side of fork, exec and spawn\<close>

text \<open>
  What the three do to tasks and descriptors; \<open>space\<close> names the address space made for the task.
  A fresh task starts with a table of console objects.
\<close>

definition seed_files :: "kernel \<Rightarrow> nat \<times> nat \<times> kernel" where
  "seed_files k =
     (let (stdin, k1) = new_file FKeyboard k; (out, k2) = new_file (FConsole True) k1 in (stdin, out, k2))"

definition fork_task :: "nat \<Rightarrow> kernel \<Rightarrow> (u64 \<times> kernel) option" where
  "fork_task space k =
     map_option (\<lambda>parent.
       let (stdin, out, k1) = seed_files k;
           (child, tt) = task_new stdin out (t_pid parent) space (k_tasks k1)
       in (t_pid child,
           k1\<lparr>k_tasks := with_task (t_pid child)
                 (\<lambda>t. thread_spawned (t\<lparr>t_fds := t_fds parent, t_cwd := t_cwd parent\<rparr>)) tt\<rparr>))
     (cur_task k)"

definition exec_task :: "nat \<Rightarrow> kernel \<Rightarrow> kernel option" where
  "exec_task space k =
     map_option (\<lambda>t.
       (drop_files (entry_files (t_fds t))
          (upd_task (\<lambda>u. snd (swap_space space (u\<lparr>t_fds := close_on_exec (t_fds u)\<rparr>))) k))\<lparr>k_fsbase := 0\<rparr>)
     (cur_task k)"

definition spawn_task :: "nat \<Rightarrow> u64 \<Rightarrow> u32 \<Rightarrow> u32 \<Rightarrow> kernel \<Rightarrow> u64 \<times> kernel" where
  "spawn_task space ppid uid gid k =
     (let (stdin, out, k1) = seed_files k;
          (t, tt) = task_new_with_ids stdin out ppid space uid gid (k_tasks k1)
      in (t_pid t, k1\<lparr>k_tasks := with_task (t_pid t) thread_spawned tt\<rparr>))"

end
