(* ===== verification/Syscall_Types.thy ===== *)
theory Syscall_Types
  imports Syscalls
begin

text \<open>
  The typing of the kernel state under system calls: descriptors name open files, the ends of pipes
  name pipes, the counts of a pipe say whether an end is open in any process, and a file object never
  changes its kind.  Every call of every task keeps it.
\<close>

unbundle bit_operations_syntax

section \<open>Kinds and the typing of a state\<close>

datatype kind = KKeyboard | KConsole bool | KExt2 | KFat | KDir | KRead nat | KWrite nat

fun kind_of :: "file_obj \<Rightarrow> kind" where
  "kind_of FKeyboard = KKeyboard"
| "kind_of (FConsole w) = KConsole w"
| "kind_of (FExt2 _) = KExt2"
| "kind_of (FFat _) = KFat"
| "kind_of (FDir _) = KDir"
| "kind_of (FPipeRead p) = KRead p"
| "kind_of (FPipeWrite p) = KWrite p"

definition kinds :: "kernel \<Rightarrow> kind list" where
  "kinds k = map kind_of (k_files k)"

text \<open>The open files that some task names.\<close>

definition refs :: "kernel \<Rightarrow> nat set" where
  "refs k = (\<Union>t \<in> ran (map_of (tt_tasks (k_tasks k))). set (entry_files (t_fds t)))"

definition end_ok :: "nat set \<Rightarrow> pipe list \<Rightarrow> nat \<Rightarrow> kind \<Rightarrow> bool" where
  "end_ok R P f kd \<longleftrightarrow>
     (case kd of
        KRead p \<Rightarrow> p < length P \<and> p_readers (P ! p) = (if f \<in> R then 1 else 0)
      | KWrite p \<Rightarrow> p < length P \<and> p_writers (P ! p) = (if f \<in> R then 1 else 0)
      | _ \<Rightarrow> True)"

definition is_end :: "kind \<Rightarrow> bool" where
  "is_end kd \<longleftrightarrow> (case kd of KRead _ \<Rightarrow> True | KWrite _ \<Rightarrow> True | _ \<Rightarrow> False)"

definition view_ok :: "nat set \<Rightarrow> kind list \<Rightarrow> pipe list \<Rightarrow> bool" where
  "view_ok R K P \<longleftrightarrow>
     (\<forall>f \<in> R. f < length K) \<and>
     (\<forall>f < length K. end_ok R P f (K ! f)) \<and>
     (\<forall>f < length K. \<forall>g < length K. is_end (K ! f) \<and> K ! f = K ! g \<longrightarrow> f = g) \<and>
     (\<forall>p < length P. KRead p \<in> set K \<and> KWrite p \<in> set K) \<and>
     (\<forall>p \<in> set P. length (p_buf p) \<le> PIPE_CAP)"

definition tasks_ok :: "task_table \<Rightarrow> bool" where
  "tasks_ok tt \<longleftrightarrow> table_ok tt \<and> (\<forall>t \<in> ran (map_of (tt_tasks tt)). t_exited t \<longrightarrow> entry_files (t_fds t) = [])"

definition kernel_typed :: "kernel \<Rightarrow> bool" where
  "kernel_typed k \<longleftrightarrow> tasks_ok (k_tasks k) \<and> view_ok (refs k) (kinds k) (k_pipes k)"

definition grows :: "kernel \<Rightarrow> kernel \<Rightarrow> bool" where
  "grows k k' \<longleftrightarrow> (\<exists>more. kinds k' = kinds k @ more)"

definition alive :: "kernel \<Rightarrow> bool" where
  "alive k \<longleftrightarrow> (case cur_task k of Some t \<Rightarrow> \<not> t_exited t | None \<Rightarrow> True)"

text \<open>What a call may do: keep the typing, the kinds and the caller's life.\<close>

definition safe_to :: "kernel \<Rightarrow> kernel \<Rightarrow> bool" where
  "safe_to k k' \<longleftrightarrow> (kernel_typed k \<and> alive k \<longrightarrow> kernel_typed k' \<and> grows k k' \<and> alive k')"

lemma grows_refl [simp]: "grows k k"
  by (simp add: grows_def)

lemma safe_refl [simp]: "safe_to k k"
  by (simp add: safe_to_def)

lemma safe_trans [trans]: "safe_to a b \<Longrightarrow> safe_to b c \<Longrightarrow> safe_to a c"
  by (auto simp: safe_to_def grows_def)

text \<open>A change outside tasks, files and pipes.\<close>

lemma safe_rest:
  assumes "k_tasks k' = k_tasks k" "k_me k' = k_me k" "k_files k' = k_files k" "k_pipes k' = k_pipes k"
  shows "safe_to k k'"
  using assms by (simp add: safe_to_def kernel_typed_def refs_def kinds_def grows_def alive_def cur_task_def)

lemma store_safe: "store p xs k = Some k' \<Longrightarrow> safe_to k k'"
  by (rule safe_rest) (auto simp: store_def)

lemma set_file_safe: "kind_of obj = kind_of (k_files k ! f) \<Longrightarrow> safe_to k (set_file f obj k)"
proof -
  assume "kind_of obj = kind_of (k_files k ! f)"
  then have "kinds (set_file f obj k) = kinds k"
    by (cases "f < length (k_files k)") (simp_all add: kinds_def set_file_def map_update list_update_same_conv list_update_beyond not_less)
  then show ?thesis by (simp add: safe_to_def kernel_typed_def refs_def grows_def alive_def cur_task_def set_file_def)
qed

lemma end_ok_same:
  "map (\<lambda>p. (p_readers p, p_writers p)) P' = map (\<lambda>p. (p_readers p, p_writers p)) P \<Longrightarrow> end_ok R P' f kd = end_ok R P f kd"
proof -
  assume a: "map (\<lambda>p. (p_readers p, p_writers p)) P' = map (\<lambda>p. (p_readers p, p_writers p)) P"
  have "length P' = length P" using map_eq_imp_length_eq [OF a] .
  moreover have "p < length P \<Longrightarrow> (p_readers (P' ! p), p_writers (P' ! p)) = (p_readers (P ! p), p_writers (P ! p))" for p
    using arg_cong [OF a, of "\<lambda>xs. xs ! p"] calculation by simp
  ultimately show ?thesis by (auto simp: end_ok_def split: kind.split)
qed

lemma set_pipe_safe:
  assumes "p_readers x = p_readers (k_pipes k ! p)" "p_writers x = p_writers (k_pipes k ! p)"
    "length (p_buf (k_pipes k ! p)) \<le> PIPE_CAP \<Longrightarrow> length (p_buf x) \<le> PIPE_CAP"
  shows "safe_to k (set_pipe p x k)"
proof -
  have "map (\<lambda>p. (p_readers p, p_writers p)) ((k_pipes k)[p := x]) = map (\<lambda>p. (p_readers p, p_writers p)) (k_pipes k)"
    using assms(1,2) by (cases "p < length (k_pipes k)") (simp_all add: map_update list_update_same_conv list_update_beyond not_less)
  note e = end_ok_same [OF this]
  have "view_ok R K (k_pipes k) \<Longrightarrow> view_ok R K ((k_pipes k)[p := x])" for R K
    using assms(3) by (cases "p < length (k_pipes k)")
      (auto simp: view_ok_def e list_update_beyond not_less dest!: set_update_subset_insert [THEN subsetD])
  then show ?thesis by (simp add: safe_to_def kernel_typed_def refs_def grows_def alive_def cur_task_def set_pipe_def kinds_def)
qed

section \<open>File operations\<close>

lemma pipe_write_loop_keeps:
  assumes "pipe_write_loop src don p = (r, p')"
  shows "p_readers p' = p_readers p \<and> p_writers p' = p_writers p \<and> (length (p_buf p) \<le> PIPE_CAP \<longrightarrow> length (p_buf p') \<le> PIPE_CAP)"
  using assms
proof (induction src don p rule: pipe_write_loop.induct)
  case (1 src don p)
  show ?case
  proof (cases "pipe_write_round src don p")
    case (Pair w q)
    have q: "p_readers q = p_readers p \<and> p_writers q = p_writers p \<and> (length (p_buf p) \<le> PIPE_CAP \<longrightarrow> length (p_buf q) \<le> PIPE_CAP)"
      using Pair by (auto simp: pipe_write_round_def Let_def split: if_splits)
    have l: "pipe_write_loop src don p = (case w of PDone r \<Rightarrow> (IO r [], q) | PMore don' \<Rightarrow> pipe_write_loop src don' q | PWriteBlock \<Rightarrow> (Blocks don, q))"
      by (subst pipe_write_loop.simps) (simp add: Pair)
    show ?thesis
    proof (cases w)
      case (PMore d)
      then have "pipe_write_loop src d q = (r, p')" using l 1(2) by simp
      from 1(1) [OF Pair [symmetric] PMore this] show ?thesis using q by simp
    qed (use l 1(2) q in auto)
  qed
qed

lemma file_read_safe: "file_read f n k = (r, k') \<Longrightarrow> safe_to k k'"
  unfolding file_read_def keyboard_read_def Let_def
  by (auto split: file_obj.splits prod.splits if_splits pipe_read.splits
      intro!: set_file_safe set_pipe_safe intro: safe_rest simp: pipe_read_round_def)

lemma file_write_safe: "file_write f src k = Some (r, k') \<Longrightarrow> safe_to k k'"
  unfolding file_write_def console_file_write_def Let_def
  by (auto split: file_obj.splits prod.splits if_splits bind_splits dest!: pipe_write_loop_keeps
      intro!: set_pipe_safe intro: safe_rest safe_trans [OF set_file_safe safe_rest, rotated])

lemma file_seek_safe: "file_seek f off w k = (r, k') \<Longrightarrow> safe_to k k'"
  unfolding file_seek_def Let_def by (auto split: file_obj.splits prod.splits intro!: set_file_safe)

lemma file_getdents64_safe: "file_getdents64 f cap k = Some (r, xs, k') \<Longrightarrow> safe_to k k'"
  unfolding file_getdents64_def by (auto split: file_obj.splits intro!: set_file_safe)

section \<open>Descriptor tables\<close>

lemma entry_files_iff:
  "f \<in> set (entry_files fds) \<longleftrightarrow> (\<exists>e. Some e \<in> set fds \<and> fe_obj e = HFile f)"
  by (force simp: entry_files_def split: option.splits handle_object.splits)

lemma entry_files_update: "set (entry_files (fds[i := e])) \<subseteq> set (entry_files fds) \<union> set (entry_files [e])"
  by (auto simp: entry_files_iff dest!: set_update_subset_insert [THEN subsetD])

lemma entry_files_alloc: "handle_alloc (HFile g) c fds = (fd, fds') \<Longrightarrow> set (entry_files fds') \<subseteq> insert g (set (entry_files fds))"
  by (auto simp: handle_alloc_def Let_def entry_files_iff split: option.splits dest!: set_update_subset_insert [THEN subsetD])


lemma position_update: "position Option.is_none fds = Some i \<Longrightarrow> Some e \<in> set fds \<Longrightarrow> Some e \<in> set (fds[i := x])"
  by (induction fds arbitrary: i) (auto split: if_splits)

lemma entry_files_alloc_keeps: "handle_alloc obj c fds = (fd, fds') \<Longrightarrow> set (entry_files fds) \<subseteq> set (entry_files fds')"
  by (auto simp: handle_alloc_def Let_def entry_files_iff split: option.splits) (blast dest: position_update)

lemma entry_files_alloc_new: "handle_alloc (HFile g) c fds = (fd, fds') \<Longrightarrow> g \<in> set (entry_files fds')"
proof -
  assume a: "handle_alloc (HFile g) c fds = (fd, fds')"
  have "position Option.is_none fds = Some i \<Longrightarrow> i < length fds" for i
    by (induction fds arbitrary: i) (auto split: if_splits)
  then have "Some \<lparr>fe_obj = HFile g, fe_cloexec = c\<rparr> \<in> set fds'"
    using a by (auto simp: handle_alloc_def Let_def split: option.splits intro: set_update_memI)
  then show ?thesis by (force simp: entry_files_iff)
qed

section \<open>Dropped descriptors\<close>

lemma view_ok_add:
  assumes "view_ok R K P" "R \<subseteq> R'" "\<forall>f \<in> R' - R. f < length K \<and> \<not> is_end (K ! f)"
  shows "view_ok R' K P"
proof -
  have "end_ok R' P f (K ! f) = end_ok R P f (K ! f)" if "f < length K" for f
  proof (cases "f \<in> R' - R")
    case True
    then show ?thesis using assms(3) by (auto simp: is_end_def end_ok_def split: kind.splits)
  next
    case False
    then have "f \<in> R' \<longleftrightarrow> f \<in> R" using assms(2) by blast
    then show ?thesis by (simp add: end_ok_def)
  qed
  then show ?thesis using assms unfolding view_ok_def by auto
qed

lemma referenced_iff: "table_ok (k_tasks k) \<Longrightarrow> referenced f k \<longleftrightarrow> f \<in> refs k"
  by (force simp: referenced_def refs_def list_ex_iff ran_def table_ok_def bt_sorted_def strict_sorted_iff map_of_eq_Some_iff)

lemma drop_file_same [simp]:
  "k_tasks (drop_file f k) = k_tasks k" "k_me (drop_file f k) = k_me k" "k_files (drop_file f k) = k_files k"
  by (auto simp: drop_file_def set_pipe_def split: file_obj.splits)

lemma drop_files_same [simp]:
  "k_tasks (drop_files fs k) = k_tasks k" "k_me (drop_files fs k) = k_me k" "k_files (drop_files fs k) = k_files k"
proof -
  have "k_tasks (fold drop_file gs k) = k_tasks k \<and> k_me (fold drop_file gs k) = k_me k \<and> k_files (fold drop_file gs k) = k_files k" for gs
    by (induction gs arbitrary: k) auto
  then show "k_tasks (drop_files fs k) = k_tasks k" "k_me (drop_files fs k) = k_me k" "k_files (drop_files fs k) = k_files k"
    by (simp_all add: drop_files_def)
qed

lemma list_update_nth: "xs[i := x] ! j = (if i = j \<and> i < length xs then x else xs ! j)"
  by (cases "i < length xs") (auto simp: nth_list_update list_update_beyond not_less)

lemma end_ok_drop_read:
  assumes "g \<noteq> f" "kd \<noteq> KRead p"
  shows "end_ok (R - {f}) (P[p := drop_read_end (P ! p)]) g kd = end_ok R P g kd"
  using assms by (cases kd) (auto simp: end_ok_def list_update_nth drop_read_end_def)

lemma end_ok_drop_write:
  assumes "g \<noteq> f" "kd \<noteq> KWrite p"
  shows "end_ok (R - {f}) (P[p := drop_write_end (P ! p)]) g kd = end_ok R P g kd"
  using assms by (cases kd) (auto simp: end_ok_def list_update_nth drop_write_end_def)

lemma end_ok_drop_none: "g \<noteq> f \<or> \<not> is_end kd \<Longrightarrow> end_ok (R - {f}) P g kd = end_ok R P g kd"
  by (cases kd) (auto simp: end_ok_def is_end_def)

lemma p_buf_drop [simp]: "p_buf (drop_read_end p) = p_buf p" "p_buf (drop_write_end p) = p_buf p"
  by (simp_all add: drop_read_end_def drop_write_end_def)

lemma bufs_update:
  "\<forall>p \<in> set P. length (p_buf p) \<le> PIPE_CAP \<Longrightarrow> (i < length P \<Longrightarrow> p_buf x = p_buf (P ! i)) \<Longrightarrow>
    \<forall>p \<in> set (P[i := x]). length (p_buf p) \<le> PIPE_CAP"
  by (cases "i < length P") (auto simp: list_update_beyond not_less dest!: set_update_subset_insert [THEN subsetD])

lemma drop_file_view:
  assumes v: "view_ok R (kinds k) (k_pipes k)" and f: "f \<in> R" "f \<notin> refs k" and t: "table_ok (k_tasks k)"
  shows "view_ok (R - {f}) (kinds k) (k_pipes (drop_file f k))"
proof -
  let ?K = "kinds k" and ?P = "k_pipes k"
  have l: "f < length ?K" "\<forall>f \<in> R. f < length ?K" and bufs: "\<forall>p \<in> set ?P. length (p_buf p) \<le> PIPE_CAP"
    and ends: "\<And>g. g < length ?K \<Longrightarrow> end_ok R ?P g (?K ! g)"
    and uni: "\<And>g h. g < length ?K \<Longrightarrow> h < length ?K \<Longrightarrow> is_end (?K ! g) \<Longrightarrow> ?K ! g = ?K ! h \<Longrightarrow> g = h"
    using v f by (auto simp: view_ok_def)
  have kf: "?K ! f = kind_of (k_files k ! f)" using l by (simp add: kinds_def)
  have nr: "\<not> referenced f k" using f t by (simp add: referenced_iff)
  have "(\<forall>g < length ?K. end_ok (R - {f}) (k_pipes (drop_file f k)) g (?K ! g)) \<and>
    (\<forall>p \<in> set (k_pipes (drop_file f k)). length (p_buf p) \<le> PIPE_CAP)"
  proof (cases "k_files k ! f")
    case (FPipeRead p)
    then have P: "k_pipes (drop_file f k) = ?P[p := drop_read_end (?P ! p)]" using nr by (simp add: drop_file_def set_pipe_def)
    have kp: "?K ! f = KRead p" using FPipeRead kf by simp
    have "end_ok (R - {f}) (?P[p := drop_read_end (?P ! p)]) g (?K ! g)" if g: "g < length ?K" for g
    proof (cases "g = f")
      case True
      then show ?thesis using ends [OF l(1)] f(1) by (simp add: kp end_ok_def drop_read_end_def)
    next
      case False
      then have "?K ! g \<noteq> KRead p" using uni [OF l(1) g] kp by (auto simp: is_end_def)
      then show ?thesis using end_ok_drop_read [OF False] ends [OF g] by simp
    qed
    then show ?thesis using bufs_update [OF bufs, of p "drop_read_end (?P ! p)"] by (simp add: P)
  next
    case (FPipeWrite p)
    then have P: "k_pipes (drop_file f k) = ?P[p := drop_write_end (?P ! p)]" using nr by (simp add: drop_file_def set_pipe_def)
    have kp: "?K ! f = KWrite p" using FPipeWrite kf by simp
    have "end_ok (R - {f}) (?P[p := drop_write_end (?P ! p)]) g (?K ! g)" if g: "g < length ?K" for g
    proof (cases "g = f")
      case True
      then show ?thesis using ends [OF l(1)] f(1) by (simp add: kp end_ok_def drop_write_end_def)
    next
      case False
      then have "?K ! g \<noteq> KWrite p" using uni [OF l(1) g] kp by (auto simp: is_end_def)
      then show ?thesis using end_ok_drop_write [OF False] ends [OF g] by simp
    qed
    then show ?thesis using bufs_update [OF bufs, of p "drop_write_end (?P ! p)"] by (simp add: P)
  qed (use bufs ends kf in \<open>auto simp: drop_file_def is_end_def end_ok_drop_none dest: end_ok_drop_none\<close>)
  moreover have "length (k_pipes (drop_file f k)) = length ?P" by (simp add: drop_file_def set_pipe_def split: file_obj.split)
  ultimately show ?thesis using l(2) uni v unfolding view_ok_def by (auto simp del: Diff_iff)
qed

lemma drop_files_view:
  assumes "view_ok R (kinds k) (k_pipes k)" "set fs \<subseteq> R" "table_ok (k_tasks k)"
  shows "view_ok (R - (set fs - refs k)) (kinds k) (k_pipes (drop_files fs k))"
proof -
  have "distinct gs \<Longrightarrow> set gs \<subseteq> R \<Longrightarrow> view_ok R (kinds k) (k_pipes k) \<Longrightarrow> table_ok (k_tasks k) \<Longrightarrow>
    view_ok (R - (set gs - refs k)) (kinds k) (k_pipes (fold drop_file gs k))" for gs
  proof (induction gs arbitrary: R k)
    case (Cons f gs)
    have same: "kinds (drop_file f k) = kinds k" "refs (drop_file f k) = refs k" by (simp_all add: kinds_def refs_def)
    show ?case
    proof (cases "f \<in> refs k")
      case True
      then have "drop_file f k = k" using Cons.prems by (simp add: drop_file_def referenced_iff)
      moreover have "set (f # gs) - refs k = set gs - refs k" using True by auto
      ultimately show ?thesis using Cons by simp
    next
      case False
      have "view_ok (R - {f} - (set gs - refs k)) (kinds k) (k_pipes (fold drop_file gs (drop_file f k)))"
        using Cons.IH [of "R - {f}" "drop_file f k"] drop_file_view [OF Cons.prems(3) _ False Cons.prems(4)] Cons.prems same by auto
      moreover have "R - (set (f # gs) - refs k) = R - {f} - (set gs - refs k)" using False by auto
      ultimately show ?thesis by simp
    qed
  qed simp
  from this [of "remdups fs"] show ?thesis using assms by (simp add: drop_files_def)
qed

section \<open>Changes of the caller's table\<close>

lemma cur_task_map: "cur_task k = Some t \<Longrightarrow> \<exists>pid. k_me k = Some pid \<and> map_of (tt_tasks (k_tasks k)) pid = Some t"
  by (cases "k_me k") (auto simp: cur_task_def)

text \<open>The caller's table becomes \<open>fds'\<close>; nothing else of tasks, files and pipes changes.\<close>

definition table_change :: "fds \<Rightarrow> kernel \<Rightarrow> kernel \<Rightarrow> bool" where
  "table_change fds' k k1 \<longleftrightarrow>
     (\<exists>pid t t'. k_me k = Some pid \<and> map_of (tt_tasks (k_tasks k)) pid = Some t \<and> t_fds t' = fds' \<and> t_pid t' = t_pid t \<and>
        (t_exited t' \<longrightarrow> t_exited t \<or> entry_files fds' = []) \<and>
        k_tasks k1 = (k_tasks k)\<lparr>tt_tasks := bt_insert pid t' (tt_tasks (k_tasks k))\<rparr> \<and>
        k_me k1 = k_me k \<and> k_files k1 = k_files k \<and> k_pipes k1 = k_pipes k)"

lemma ran_fun_upd: "m a = Some b \<Longrightarrow> ran (m(a \<mapsto> c)) = insert c (ran (m(a := None)))"
  by (auto simp: ran_def split: if_splits)

lemma table_change_refs:
  assumes "table_change fds' k k1" "cur_task k = Some t"
  shows "refs k1 \<subseteq> refs k \<union> set (entry_files fds')" "refs k \<subseteq> refs k1 \<union> set (entry_files (t_fds t))"
    "set (entry_files fds') \<subseteq> refs k1" "set (entry_files (t_fds t)) \<subseteq> refs k"
proof -
  obtain pid t' where h: "map_of (tt_tasks (k_tasks k)) pid = Some t" "t_fds t' = fds'"
    "k_tasks k1 = (k_tasks k)\<lparr>tt_tasks := bt_insert pid t' (tt_tasks (k_tasks k))\<rparr>"
    using assms by (auto simp: table_change_def cur_task_def)
  let ?m = "map_of (tt_tasks (k_tasks k))" and ?u = "\<lambda>T. \<Union>t \<in> T. set (entry_files (t_fds t))"
  have "ran ?m = insert t (ran (?m(pid := None)))" using ran_fun_upd [of ?m pid t t] h(1) by (simp add: map_upd_triv)
  then have "refs k = set (entry_files (t_fds t)) \<union> ?u (ran (?m(pid := None)))" by (simp add: refs_def)
  moreover have "refs k1 = set (entry_files fds') \<union> ?u (ran (?m(pid := None)))"
    using h ran_fun_upd [of ?m pid t t'] by (simp add: refs_def)
  ultimately show "refs k1 \<subseteq> refs k \<union> set (entry_files fds')" "refs k \<subseteq> refs k1 \<union> set (entry_files (t_fds t))"
    "set (entry_files fds') \<subseteq> refs k1" "set (entry_files (t_fds t)) \<subseteq> refs k" by auto
qed

lemma table_change_rest:
  assumes "table_change fds' k k1" "tasks_ok (k_tasks k)" "alive k"
  shows "tasks_ok (k_tasks k1)" "kinds k1 = kinds k" "k_pipes k1 = k_pipes k"
proof -
  obtain pid t t' where h: "k_me k = Some pid" "map_of (tt_tasks (k_tasks k)) pid = Some t" "t_fds t' = fds'" "t_pid t' = t_pid t"
    "t_exited t' \<longrightarrow> t_exited t \<or> entry_files fds' = []"
    "k_tasks k1 = (k_tasks k)\<lparr>tt_tasks := bt_insert pid t' (tt_tasks (k_tasks k))\<rparr>" "k_files k1 = k_files k" "k_pipes k1 = k_pipes k"
    using assms(1) by (auto simp: table_change_def)
  have "\<not> t_exited t" using assms(3) h(1,2) by (simp add: alive_def cur_task_def)
  then have "\<forall>t \<in> ran (map_of (tt_tasks (k_tasks k1))). t_exited t \<longrightarrow> entry_files (t_fds t) = []"
    using h assms(2) by (auto simp: tasks_ok_def ran_def split: if_splits)
  moreover have "t_pid t = pid" using h(2) assms(2) by (auto simp: tasks_ok_def table_ok_def dest: map_of_SomeD)
  then have "table_ok (k_tasks k1)" using h assms(2) by (simp add: table_ok_insert tasks_ok_def)
  ultimately show "tasks_ok (k_tasks k1)" by (simp add: tasks_ok_def)
  show "kinds k1 = kinds k" "k_pipes k1 = k_pipes k" using h by (simp_all add: kinds_def)
qed

lemma bt_insert_twice: "bt_insert a v (bt_insert a w m) = bt_insert a v m"
  by (induction a w m rule: bt_insert.induct) auto

lemma table_change_trans: "table_change a k k1 \<Longrightarrow> table_change b k1 k2 \<Longrightarrow> alive k1 \<Longrightarrow> table_change b k k2"
  by (fastforce simp: table_change_def bt_insert_twice alive_def cur_task_def)

text \<open>A table that loses descriptors, with the files it named dropped.\<close>

lemma table_shrinks:
  assumes c: "table_change fds' k k1" and t: "cur_task k = Some t" and sub: "set (entry_files fds') \<subseteq> set (entry_files (t_fds t))"
    and ty: "kernel_typed k" "alive k" and fs: "set (entry_files (t_fds t)) - set (entry_files fds') \<subseteq> set fs" "set fs \<subseteq> set (entry_files (t_fds t))"
  shows "kernel_typed (drop_files fs k1)" "grows k (drop_files fs k1)"
proof -
  have tk: "tasks_ok (k_tasks k)" using ty(1) by (simp add: kernel_typed_def)
  note r = table_change_rest [OF c tk ty(2)] and R = table_change_refs [OF c t]
  have "view_ok (refs k) (kinds k1) (k_pipes k1)" using ty(1) r by (simp add: kernel_typed_def)
  from drop_files_view [OF this, of fs]
  have "view_ok (refs k - (set fs - refs k1)) (kinds k1) (k_pipes (drop_files fs k1))" using fs(2) R(4) r(1) by (auto simp: tasks_ok_def)
  moreover have "refs k - (set fs - refs k1) = refs k1" using R sub fs by auto
  ultimately show "kernel_typed (drop_files fs k1)" using r by (simp add: kernel_typed_def refs_def kinds_def)
  show "grows k (drop_files fs k1)" using r by (simp add: grows_def kinds_def)
qed

text \<open>A table that gains a file that is not an end of a pipe.\<close>

lemma table_gains:
  assumes c: "table_change fds' k k1" and t: "cur_task k = Some t" and ty: "kernel_typed k" "alive k"
    and old: "set (entry_files (t_fds t)) \<subseteq> set (entry_files fds')"
    and new: "\<forall>f \<in> set (entry_files fds') - set (entry_files (t_fds t)). f < length (kinds k) \<and> \<not> is_end (kinds k ! f)"
  shows "kernel_typed k1" "grows k k1"
proof -
  have tk: "tasks_ok (k_tasks k)" using ty(1) by (simp add: kernel_typed_def)
  note r = table_change_rest [OF c tk ty(2)] and R = table_change_refs [OF c t]
  have "view_ok (refs k) (kinds k1) (k_pipes k1)" using ty(1) r by (simp add: kernel_typed_def)
  then have "view_ok (refs k1) (kinds k1) (k_pipes k1)"
    by (rule view_ok_add) (use R old new r in auto)
  then show "kernel_typed k1" using r by (simp add: kernel_typed_def)
  show "grows k k1" using r by (simp add: grows_def)
qed

lemma on_fds_change:
  assumes "on_fds f k = Some (r, k1)" "alive k"
  shows "\<exists>t. cur_task k = Some t \<and> r = fst (f (t_fds t)) \<and> table_change (snd (f (t_fds t))) k k1 \<and> alive k1 \<and>
    (\<exists>t'. cur_task k1 = Some t' \<and> t_fds t' = snd (f (t_fds t)))"
proof -
  obtain t where t: "cur_task k = Some t" using assms(1) by (auto simp: on_fds_def)
  then obtain pid where p: "k_me k = Some pid" "map_of (tt_tasks (k_tasks k)) pid = Some t" using cur_task_map by blast
  obtain x fds' where f: "f (t_fds t) = (x, fds')" by fastforce
  have k1: "r = x" "k1 = k\<lparr>k_tasks := (k_tasks k)\<lparr>tt_tasks := bt_insert pid (t\<lparr>t_fds := fds'\<rparr>) (tt_tasks (k_tasks k))\<rparr>\<rparr>"
    using assms(1) t p f by (auto simp: on_fds_def upd_task_def with_task_def)
  have "table_change fds' k k1" using p k1 by (auto simp: table_change_def intro!: exI [of _ "t\<lparr>t_fds := fds'\<rparr>"])
  moreover have "cur_task k1 = Some (t\<lparr>t_fds := fds'\<rparr>)" using p k1 by (simp add: cur_task_def)
  ultimately show ?thesis using t f k1 assms(2) by (simp add: alive_def)
qed

section \<open>Calls that change descriptors\<close>

definition shrinking :: "(fds \<Rightarrow> 'a \<times> fds) \<Rightarrow> bool" where
  "shrinking f \<longleftrightarrow> (\<forall>fds. set (entry_files (snd (f fds))) \<subseteq> set (entry_files fds))"

lemma fd_entry_at_in: "fd_entry_at fds fd = Some e \<Longrightarrow> Some e \<in> set fds"
  by (auto simp: fd_entry_at_def split: if_splits) (metis nth_mem)

lemma entry_files_append [simp]: "entry_files (a @ b) = entry_files a @ entry_files b"
  by (simp add: entry_files_def)

lemma entry_files_none [simp]: "entry_files (replicate n None) = []" "entry_files [] = []" "entry_files (None # fds) = entry_files fds"
  by (simp_all add: entry_files_def)

lemma entry_files_cloexec [simp]: "entry_files [Some (e\<lparr>fe_cloexec := c\<rparr>)] = entry_files [Some e]"
  by (simp add: entry_files_def)

lemma entry_files_single: "Some e \<in> set fds \<Longrightarrow> set (entry_files [Some e]) \<subseteq> set (entry_files fds)"
  by (auto simp: entry_files_iff)

lemma shrinking_dup: "shrinking (fd_dup old mn)"
proof -
  have "set (entry_files (snd (fd_dup old mn fds))) \<subseteq> set (entry_files fds)" for fds
  proof (cases "fd_entry_at fds old")
    case (Some e)
    then show ?thesis
      using entry_files_update [of fds _ "Some (e\<lparr>fe_cloexec := False\<rparr>)"] entry_files_single [OF fd_entry_at_in [OF Some]]
      by (auto simp: fd_dup_def Let_def split: option.split)
  qed (simp add: fd_dup_def)
  then show ?thesis by (simp add: shrinking_def)
qed

lemma shrinking_dup3: "shrinking (fd_dup3 old new c)"
proof -
  have "set (entry_files (snd (fd_dup3 old new c fds))) \<subseteq> set (entry_files fds)" for fds
  proof (cases "fd_entry_at fds old")
    case (Some e)
    then show ?thesis
      using entry_files_update [of "fds @ replicate (at_least_zero new + 1 - length fds) None" "at_least_zero new" "Some (e\<lparr>fe_cloexec := c\<rparr>)"]
        entry_files_single [OF fd_entry_at_in [OF Some]]
      by (auto simp: fd_dup3_def Let_def)
  qed (simp add: fd_dup3_def)
  then show ?thesis by (simp add: shrinking_def)
qed

lemma shrinking_cloexec: "shrinking (fd_set_cloexec fd on)"
proof -
  have "set (entry_files (snd (fd_set_cloexec fd on fds))) \<subseteq> set (entry_files fds)" for fds
  proof (cases "fd_entry_at fds fd")
    case (Some e)
    then show ?thesis
      using entry_files_update [of fds "as_usize fd" "Some (e\<lparr>fe_cloexec := on\<rparr>)"] entry_files_single [OF fd_entry_at_in [OF Some]]
      by (auto simp: fd_set_cloexec_def)
  qed (simp add: fd_set_cloexec_def)
  then show ?thesis by (simp add: shrinking_def)
qed

lemma shrinking_close: "shrinking (fd_close fd)"
proof -
  have "set (entry_files (snd (fd_close fd fds))) \<subseteq> set (entry_files fds)" for fds
    using entry_files_update [of fds "as_usize fd" None] by (auto simp: fd_close_def split: option.splits)
  then show ?thesis by (simp add: shrinking_def)
qed

lemma drop_files_safe_alive [simp]: "alive (drop_files fs k) = alive k"
  by (simp add: alive_def cur_task_def)

lemma sys_dup_with_safe:
  assumes "shrinking f" "sys_dup_with f k = (r, k')"
  shows "safe_to k k'"
  unfolding safe_to_def
proof
  assume h: "kernel_typed k \<and> alive k"
  show "kernel_typed k' \<and> grows k k' \<and> alive k'"
  proof (cases "on_fds f k")
    case None
    then show ?thesis using h assms(2) by (auto simp: sys_dup_with_def split: option.splits)
  next
    case (Some x)
    obtain fd k1 where x: "x = (fd, k1)" by fastforce
    from on_fds_change [OF Some [unfolded x]] h obtain t where t: "cur_task k = Some t" "table_change (snd (f (t_fds t))) k k1" "alive k1" by blast
    have "k' = drop_files (entry_files (t_fds t)) k1" using assms(2) t(1) Some x by (simp add: sys_dup_with_def)
    then show ?thesis
      using table_shrinks [OF t(2,1), of "entry_files (t_fds t)"] assms(1) h t(3) by (auto simp: shrinking_def)
  qed
qed

lemma sys_dup3_safe: "sys_dup3 a b c k = (r, k') \<Longrightarrow> safe_to k k'"
  by (auto simp: sys_dup3_def intro: sys_dup_with_safe shrinking_dup3 split: if_splits)

lemma sys_fcntl_safe: "sys_fcntl a b c k = (r, k') \<Longrightarrow> safe_to k k'"
proof -
  have two: "safe_to k (snd (sys_dup_with (fd_set_cloexec x True) k1))" if "sys_dup_with (fd_dup y z) k = (q, k1)" for x y z q k1
    using safe_trans [OF sys_dup_with_safe [OF shrinking_dup that] sys_dup_with_safe [OF shrinking_cloexec]] by (metis prod.collapse)
  show "sys_fcntl a b c k = (r, k') \<Longrightarrow> safe_to k k'"
    by (auto simp: sys_fcntl_def Let_def two split: if_splits prod.splits
        intro: sys_dup_with_safe shrinking_dup shrinking_cloexec)
qed

lemma close_loses:
  assumes "f \<in> set (entry_files fds)" "f \<notin> set (entry_files (snd (fd_close fd fds)))"
  shows "fst (fd_close fd fds) \<and> fd_get fds fd = Some f"
proof -
  obtain j e where j: "j < length fds" "fds ! j = Some e" "fe_obj e = HFile f"
    using assms(1) by (metis entry_files_iff in_set_conv_nth)
  have c: "snd (fd_close fd fds) = (if fst (fd_close fd fds) then fds[as_usize fd := None] else fds)"
    by (simp add: fd_close_def split: option.split)
  then have ok: "fst (fd_close fd fds)" using assms by (metis snd_conv)
  have "j = as_usize fd"
  proof (rule ccontr)
    assume "j \<noteq> as_usize fd"
    then have "fds[as_usize fd := None] ! j = Some e" using j by simp
    then have "Some e \<in> set (fds[as_usize fd := None])" using j(1) by (metis length_list_update nth_mem)
    then show False using assms(2) c ok j(3) by (auto simp: entry_files_iff)
  qed
  then show ?thesis using ok j by (simp add: fd_get_def fd_entry_at_def)
qed

lemma cur_fd_in: "cur_task k = Some t \<Longrightarrow> cur_fd fd k = Some f \<Longrightarrow> f \<in> set (entry_files (t_fds t))"
  by (auto simp: cur_fd_def fd_get_def entry_files_iff split: option.splits handle_object.splits intro: fd_entry_at_in)

lemma closed_files_in:
  assumes "cur_task k = Some t"
  shows "set (if ok then (case cur_fd fd k of Some f \<Rightarrow> [f] | None \<Rightarrow> []) else []) \<subseteq> set (entry_files (t_fds t))"
proof (cases ok)
  case True
  show ?thesis
  proof (cases "cur_fd fd k")
    case (Some f)
    then have "f \<in> set (entry_files (t_fds t))" by (rule cur_fd_in [OF assms])
    then show ?thesis using True Some by simp
  qed (use True in simp)
qed simp

lemma sys_close_safe:
  assumes "sys_close fd k = Some (r, k')"
  shows "safe_to k k'"
  unfolding safe_to_def
proof
  assume h: "kernel_typed k \<and> alive k"
  show "kernel_typed k' \<and> grows k k' \<and> alive k'"
  proof (cases "on_fds (fd_close (ucast fd)) k")
    case None
    then show ?thesis using h assms by (auto simp: sys_close_def)
  next
    case (Some x)
    obtain ok k1 where x: "x = (ok, k1)" by fastforce
    from on_fds_change [OF Some [unfolded x]] h obtain t where
      t: "cur_task k = Some t" "ok = fst (fd_close (ucast fd) (t_fds t))" "table_change (snd (fd_close (ucast fd) (t_fds t))) k k1" "alive k1"
      by blast
    let ?fs = "if ok then (case cur_fd fd k of Some f \<Rightarrow> [f] | None \<Rightarrow> []) else []"
    have k': "k' = drop_files ?fs k1" using assms Some x by (cases ok) (auto simp: sys_close_def drop_files_def)
    let ?fds = "t_fds t"
    have sub: "set (entry_files (snd (fd_close (ucast fd) ?fds))) \<subseteq> set (entry_files ?fds)"
      using shrinking_close by (auto simp: shrinking_def)
    have fs: "set ?fs \<subseteq> set (entry_files ?fds)"
      by (rule closed_files_in [OF t(1)])
    have "set (entry_files ?fds) - set (entry_files (snd (fd_close (ucast fd) ?fds))) \<subseteq> set ?fs"
    proof
      fix f assume "f \<in> set (entry_files ?fds) - set (entry_files (snd (fd_close (ucast fd) ?fds)))"
      then have "ok \<and> fd_get ?fds (ucast fd) = Some f" using close_loses [of f ?fds "ucast fd"] t(2) by blast
      then show "f \<in> set ?fs" using t(1) by (simp add: cur_fd_def)
    qed
    note table_shrinks [OF t(3,1) sub h [THEN conjunct1] h [THEN conjunct2] this fs]
    then show ?thesis unfolding k' using t(4) by (simp only: drop_files_safe_alive)
  qed
qed

section \<open>Opening files and pipes\<close>

lemma view_ok_append:
  assumes "view_ok R K P" "\<not> is_end kd"
  shows "view_ok R (K @ [kd]) P"
  using assms unfolding view_ok_def by (auto simp: nth_append less_Suc_eq end_ok_def is_end_def split: kind.splits)

lemma new_file_kinds: "new_file obj k = (f, k1) \<Longrightarrow> f = length (kinds k) \<and> kinds k1 = kinds k @ [kind_of obj] \<and> k_tasks k1 = k_tasks k \<and> k_me k1 = k_me k \<and> k_pipes k1 = k_pipes k"
  by (auto simp: new_file_def kinds_def)

lemma new_file_safe:
  assumes "new_file obj k = (f, k1)" "\<not> is_end (kind_of obj)"
  shows "safe_to k k1"
  using new_file_kinds [OF assms(1)] view_ok_append [OF _ assms(2)]
  by (auto simp: safe_to_def kernel_typed_def refs_def grows_def alive_def cur_task_def)

lemma alloc_safe:
  assumes "on_fds (fd_alloc_flags f c) k = Some (r, k')" "f < length (kinds k)" "\<not> is_end (kinds k ! f)"
  shows "safe_to k k'"
  unfolding safe_to_def
proof
  assume h: "kernel_typed k \<and> alive k"
  from on_fds_change [OF assms(1)] h obtain t where
    t: "cur_task k = Some t" "table_change (snd (fd_alloc_flags f c (t_fds t))) k k'" "alive k'" by blast
  obtain fd fds' where a: "handle_alloc (HFile f) c (t_fds t) = (fd, fds')" by fastforce
  have "kernel_typed k' \<and> grows k k'"
    using table_gains [OF t(2,1)] h entry_files_alloc [OF a] entry_files_alloc_keeps [OF a] assms(2,3) by (auto simp: fd_alloc_flags_def a)
  then show "kernel_typed k' \<and> grows k k' \<and> alive k'" using t(3) by simp
qed

lemma fd_alloc_flags_False: "fd_alloc f = fd_alloc_flags f False"
  by (rule ext) (simp add: fd_alloc_def)

lemma open_resolved_access_safe:
  assumes "open_resolved_access path r w k = Some (x, k')"
  shows "safe_to k k'"
proof -
  have opened: "safe_to k k2" if "new_file obj k = (f, k1)" "on_fds (fd_alloc f) k1 = Some (fd, k2)" "\<not> is_end (kind_of obj)" for obj f k1 fd k2
    using safe_trans [OF new_file_safe [OF that(1,3)] alloc_safe] that new_file_kinds [OF that(1)] fd_alloc_flags_False [of f]
    by (metis length_append_singleton lessI nth_append_length)
  show ?thesis using assms
    by (auto simp: open_resolved_access_def Let_def is_end_def split: option.splits sum.splits bind_splits if_splits prod.splits intro: opened)
qed

lemma open_create_safe: "open_create path flags k = Some (r, k1) \<Longrightarrow> safe_to k k1 \<and> (case r of Inr k2 \<Rightarrow> k2 = k1 | Inl _ \<Rightarrow> True)"
  by (auto simp: open_create_def Let_def split: option.splits sum.splits bind_splits if_splits prod.splits intro: safe_rest)

lemma open_resolved_safe: "open_resolved path flags k = Some (x, k') \<Longrightarrow> safe_to k k'"
  by (auto simp: open_resolved_def Let_def split: option.splits sum.splits bind_splits if_splits prod.splits
      dest!: open_create_safe dest: open_resolved_access_safe intro: safe_trans)

lemma view_ok_pipe:
  assumes "view_ok R K P"
  shows "view_ok (insert (length K) (insert (Suc (length K)) R)) (K @ [KRead (length P), KWrite (length P)]) (P @ [pipe_new])"
proof -
  have old: "end_ok (insert (length K) (insert (Suc (length K)) R)) (P @ [pipe_new]) f (K ! f)" if "f < length K" for f
    using assms that by (cases "K ! f") (force simp: view_ok_def end_ok_def nth_append)+
  have fresh: "K ! f \<noteq> KRead (length P) \<and> K ! f \<noteq> KWrite (length P)" if "f < length K" for f
    using assms that by (cases "K ! f") (force simp: view_ok_def end_ok_def)+
  have "\<forall>f < length K + 2. end_ok (insert (length K) (insert (Suc (length K)) R)) (P @ [pipe_new]) f ((K @ [KRead (length P), KWrite (length P)]) ! f)"
    using old by (auto simp: nth_append less_Suc_eq numeral_2_eq_2) (auto simp: end_ok_def pipe_new_def)
  moreover have "f = g" if "f < length K + 2" "g < length K + 2" "is_end ((K @ [KRead (length P), KWrite (length P)]) ! f)"
    "(K @ [KRead (length P), KWrite (length P)]) ! f = (K @ [KRead (length P), KWrite (length P)]) ! g" for f g
  proof -
    have n: "(K @ [KRead (length P), KWrite (length P)]) ! h = (if h < length K then K ! h else if h = length K then KRead (length P) else KWrite (length P))"
      if "h < length K + 2" for h using that by (auto simp: nth_append less_Suc_eq numeral_2_eq_2)
    show ?thesis using that assms fresh [of f] fresh [of g] unfolding n [OF that(1)] n [OF that(2)] view_ok_def
      by (auto split: if_splits)
  qed
  moreover have "\<forall>p < Suc (length P). KRead p \<in> set (K @ [KRead (length P), KWrite (length P)]) \<and> KWrite p \<in> set (K @ [KRead (length P), KWrite (length P)])"
    using assms by (auto simp: view_ok_def less_Suc_eq)
  ultimately show ?thesis using assms unfolding view_ok_def by (auto simp: pipe_new_def)
qed

lemma sys_pipe_safe:
  assumes "sys_pipe ptr flags k = Some (r, k')"
  shows "safe_to k k'"
proof (cases "cur_task k")
  case None
  then show ?thesis using assms by (simp add: sys_pipe_def)
next
  case (Some t)
  define c where "c = (flags AND O_CLOEXEC \<noteq> 0)"
  let ?p = "length (k_pipes k)" and ?f = "length (kinds k)"
  define k2 where "k2 = k\<lparr>k_pipes := k_pipes k @ [pipe_new], k_files := k_files k @ [FPipeRead ?p, FPipeWrite ?p]\<rparr>"
  obtain rfd k3 wfd k4 k5 where st: "on_fds (fd_alloc_flags ?f c) k2 = Some (rfd, k3)" "on_fds (fd_alloc_flags (Suc ?f) c) k3 = Some (wfd, k4)"
    "store ptr (le_bytes 4 (unat rfd)) k4 = Some k5" "store (ptr + 4) (le_bytes 4 (unat wfd)) k5 = Some k'"
    using assms Some by (auto simp: sys_pipe_def new_file_def k2_def c_def kinds_def Let_def split: bind_splits)
  have "safe_to k k4" unfolding safe_to_def
  proof
    assume h: "kernel_typed k \<and> alive k"
    have k2: "alive k2" "cur_task k2 = Some t" "tasks_ok (k_tasks k2)" "refs k2 = refs k" "k_pipes k2 = k_pipes k @ [pipe_new]"
      "kinds k2 = kinds k @ [KRead ?p, KWrite ?p]"
      using h Some by (simp_all add: k2_def alive_def cur_task_def kernel_typed_def refs_def kinds_def)
    obtain fds1 fd1 where a1: "handle_alloc (HFile ?f) c (t_fds t) = (fd1, fds1)" by fastforce
    obtain fds2 fd2 where a2: "handle_alloc (HFile (Suc ?f)) c fds1 = (fd2, fds2)" by fastforce
    from on_fds_change [OF st(1) k2(1)] k2(2) a1 obtain t1 where
      1: "table_change fds1 k2 k3" "alive k3" "cur_task k3 = Some t1" "t_fds t1 = fds1" by (auto simp: fd_alloc_flags_def)
    from on_fds_change [OF st(2) 1(2)] 1(3,4) a2 have 2: "table_change fds2 k3 k4" "alive k4" by (auto simp: fd_alloc_flags_def)
    have c: "table_change fds2 k2 k4" by (rule table_change_trans [OF 1(1) 2(1) 1(2)])
    note T = table_change_rest [OF c k2(3,1)]
    have fds: "set (entry_files (t_fds t)) \<subseteq> set (entry_files fds2)" "set (entry_files fds2) \<subseteq> insert ?f (insert (Suc ?f) (set (entry_files (t_fds t))))"
      "?f \<in> set (entry_files fds2)" "Suc ?f \<in> set (entry_files fds2)"
      using entry_files_alloc [OF a1] entry_files_alloc [OF a2] entry_files_alloc_keeps [OF a1] entry_files_alloc_keeps [OF a2]
        entry_files_alloc_new [OF a1] entry_files_alloc_new [OF a2] by auto
    then have "refs k4 = insert ?f (insert (Suc ?f) (refs k))" using table_change_refs [OF c k2(2)] unfolding k2(4) by blast
    then have "kernel_typed k4" using view_ok_pipe h T unfolding kernel_typed_def k2(5,6) by simp
    then show "kernel_typed k4 \<and> grows k k4 \<and> alive k4" using T(2) 2(2) by (simp add: grows_def k2)
  qed
  then show ?thesis using st(3,4) by (blast intro: safe_trans store_safe)
qed

section \<open>The end of a task\<close>

definition keeps_types :: "kernel \<Rightarrow> kernel \<Rightarrow> bool" where
  "keeps_types k k' \<longleftrightarrow> (kernel_typed k \<and> alive k \<longrightarrow> kernel_typed k' \<and> grows k k')"

lemma safe_keeps: "safe_to k k' \<Longrightarrow> keeps_types k k'"
  by (simp add: safe_to_def keeps_types_def)

lemma exit_with_keeps: "keeps_types k (exit_with code k)"
proof (cases "cur_task k")
  case None
  then show ?thesis
    by (auto simp: exit_with_def keeps_types_def kernel_typed_def refs_def kinds_def grows_def split: option.splits)
next
  case (Some t)
  then obtain pid where p: "k_me k = Some pid" "map_of (tt_tasks (k_tasks k)) pid = Some t" using cur_task_map by blast
  let ?k1 = "k\<lparr>k_tasks := set_exit_status pid code (k_tasks k)\<rparr>"
  have c: "table_change [] k ?k1"
    using p by (auto simp: table_change_def set_exit_status_def with_task_def
        intro!: exI [of _ "t\<lparr>t_exit_status := Some code, t_fds := [], t_exited := True\<rparr>"])
  have e: "exit_with code k = (drop_files (entry_files (t_fds t)) ?k1)\<lparr>k_user_exits := k_user_exits k + 1\<rparr>"
    using p Some by (simp add: exit_with_def)
  show ?thesis unfolding keeps_types_def e
    using table_shrinks [OF c Some, of "entry_files (t_fds t)"]
    by (auto simp: kernel_typed_def refs_def kinds_def grows_def)
qed

lemma find_SomeD_set: "List.find P xs = Some x \<Longrightarrow> P x \<and> x \<in> set xs"
  by (auto simp: find_Some_iff)

lemma sys_wait4_safe:
  assumes "sys_wait4 pid ptr k = Some (r, k')"
  shows "safe_to k k'"
proof (cases "wait4_round (current_pid k) pid (k_tasks k)")
  case (Pair w tt)
  have reap: "safe_to k (k\<lparr>k_tasks := tt\<rparr>)" if w: "w = Reaped c st" for c st
    unfolding safe_to_def
  proof
    assume h: "kernel_typed k \<and> alive k"
    obtain t where t: "t \<in> set (map snd (tt_tasks (k_tasks k)))" "t_exited t" "c = t_pid t" "tt = (k_tasks k)\<lparr>tt_tasks := bt_remove (t_pid t) (tt_tasks (k_tasks k))\<rparr>"
      using Pair w by (auto simp: wait4_round_def split: option.splits if_splits dest!: find_SomeD_set)
    have m: "map_of (tt_tasks (k_tasks k)) (t_pid t) = Some t"
      using t(1) h by (auto simp: kernel_typed_def tasks_ok_def table_ok_def bt_sorted_def strict_sorted_iff map_of_eq_Some_iff)
    then have e: "entry_files (t_fds t) = []" using h t(2) by (auto simp: kernel_typed_def tasks_ok_def ran_def)
    let ?m = "map_of (tt_tasks (k_tasks k))"
    have "ran ?m = insert t (ran (?m(t_pid t := None)))" using ran_fun_upd [of ?m "t_pid t" t t] m by (simp add: map_upd_triv)
    then have "refs (k\<lparr>k_tasks := tt\<rparr>) = refs k" using e by (simp add: refs_def t(4))
    moreover have "tasks_ok tt" using h table_ok_wait4 [OF _ Pair] by (auto simp: kernel_typed_def tasks_ok_def t(4) ran_def split: if_splits)
    moreover have "alive (k\<lparr>k_tasks := tt\<rparr>)"
      using h by (cases "k_me k") (auto simp: alive_def cur_task_def t(4) split: option.splits)
    ultimately show "kernel_typed (k\<lparr>k_tasks := tt\<rparr>) \<and> grows k (k\<lparr>k_tasks := tt\<rparr>) \<and> alive (k\<lparr>k_tasks := tt\<rparr>)"
      using h by (simp add: kernel_typed_def kinds_def grows_def)
  qed
  show ?thesis using assms reap Pair
    by (auto simp: sys_wait4_def Let_def split: wait4_result.splits if_splits dest!: store_safe intro: safe_trans)
qed

section \<open>Every call\<close>

lemma sys_write_safe: "sys_write fd p len k = Some (r, k') \<Longrightarrow> safe_to k k'"
  by (auto simp: sys_write_def split: option.splits dest: file_write_safe)

lemma sys_read_safe: "sys_read fd p len k = Some (r, k') \<Longrightarrow> safe_to k k'"
  by (auto simp: sys_read_def split: option.splits prod.splits io.splits dest!: file_read_safe dest: store_safe intro: safe_trans)

lemma sys_writev_safe: "sys_writev fd iov n tot k = Some (r, k') \<Longrightarrow> safe_to k k'"
proof (induction n arbitrary: iov tot k)
  case (Suc n)
  then show ?case
    by (auto split: bind_splits outcome.splits if_splits dest!: sys_write_safe intro: safe_trans)
qed simp

lemma sys_poll_safe: "sys_poll p n ready k = Some (r, k') \<Longrightarrow> safe_to k k'"
proof (induction n arbitrary: p ready k)
  case (Suc n)
  then show ?case by (auto simp: Let_def split: bind_splits dest!: store_safe intro: safe_trans)
qed simp

lemma sendfile_loop_safe: "sendfile_loop src dst left tot k = Some (r, k') \<Longrightarrow> safe_to k k'"
proof (induction src dst left tot k arbitrary: r k' rule: sendfile_loop.induct)
  case (1 src dst left tot k)
  obtain x k1 where x: "file_read src (min left 4096) k = (x, k1)" by fastforce
  note k1 = file_read_safe [OF x]
  note eq = 1(2) [unfolded sendfile_loop.simps [of src dst left tot k] x]
  consider "left = 0" | b where "left \<noteq> 0" "x = Blocks b" | n xs where "left \<noteq> 0" "x = IO n xs" "n \<le> 0"
    | n xs where "left \<noteq> 0" "x = IO n xs" "\<not> n \<le> 0" by (cases x) fastforce+
  then show ?case
  proof cases
    case (4 n xs)
    then obtain y k2 where y: "file_write dst (Some xs) k1 = Some (y, k2)" using eq by (auto split: option.splits)
    note k2 = safe_trans [OF k1 file_write_safe [OF y]]
    have rec: "safe_to k2 k'" if "y = IO w ys" "\<not> w < 0" "\<not> w < n" "sendfile_loop src dst (left - nat w) (tot + w) k2 = Some (r, k')" for w ys
      using 1(1) [OF 4(1) x [symmetric] 4(2,3) y refl that(1-4)] .
    show ?thesis using eq 4 y k2 by (auto split: io.splits if_splits dest: rec intro: safe_trans)
  qed (use eq k1 in \<open>auto split: if_splits\<close>)
qed

lemma sys_sendfile_safe: "sys_sendfile a b c d k = Some (r, k') \<Longrightarrow> safe_to k k'"
  by (auto simp: sys_sendfile_def Let_def split: option.splits bind_splits if_splits prod.splits send_result.splits
      dest!: file_seek_safe sendfile_loop_safe store_safe intro: safe_trans)

lemma sys_open_safe: "sys_open p1 f1 k = Some (r, k') \<Longrightarrow> safe_to k k'"
  by (auto simp: sys_open_def split: bind_splits dest: open_resolved_safe)

lemma sys_unlink_safe: "sys_unlink p1 dir k = Some (r, k') \<Longrightarrow> safe_to k k'"
  by (auto simp: sys_unlink_def Let_def split: bind_splits sum.splits if_splits intro: safe_rest)

lemma sys_mkdir_safe: "sys_mkdir p1 k = Some (r, k') \<Longrightarrow> safe_to k k'"
  by (auto simp: sys_mkdir_def Let_def split: bind_splits option.splits sum.splits if_splits intro: safe_rest)

lemma sys_chmod_safe: "sys_chmod p1 m k = Some (r, k') \<Longrightarrow> safe_to k k'"
  by (auto simp: sys_chmod_def Let_def split: bind_splits option.splits sum.splits if_splits intro: safe_rest)

lemma sys_chown_safe: "sys_chown p1 u g k = Some (r, k') \<Longrightarrow> safe_to k k'"
  by (auto simp: sys_chown_def Let_def split: bind_splits option.splits sum.splits if_splits intro: safe_rest)

lemma sys_utimensat_safe: "sys_utimensat p1 k = Some (r, k') \<Longrightarrow> safe_to k k'"
  by (auto simp: sys_utimensat_def Let_def split: bind_splits option.splits sum.splits if_splits intro: safe_rest)

lemma sys_lseek_safe: "sys_lseek fd off w k = Some (r, k') \<Longrightarrow> safe_to k k'"
  by (auto simp: sys_lseek_def map_prod_def split: option.splits prod.splits dest: file_seek_safe)

lemma sys_time_safe: "sys_time p1 k = Some (r, k') \<Longrightarrow> safe_to k k'"
  by (auto simp: sys_time_def Let_def split: if_splits dest: store_safe)

lemma sys_getdents64_safe: "sys_getdents64 fd p1 n k = Some (r, k') \<Longrightarrow> safe_to k k'"
  by (auto simp: sys_getdents64_def split: option.splits bind_splits dest!: file_getdents64_safe store_safe intro: safe_trans)

lemma sys_fstat_safe: "sys_fstat fd p1 k = Some (r, k') \<Longrightarrow> safe_to k k'"
  by (auto simp: sys_fstat_def split: option.splits prod.splits dest: store_safe)

lemma sys_arch_prctl_safe: "sys_arch_prctl c p1 k = Some (r, k') \<Longrightarrow> safe_to k k'"
  by (auto simp: sys_arch_prctl_def split: if_splits dest: store_safe intro: safe_rest)

lemma sys_ioctl_safe: "sys_ioctl fd cmd p1 k = Some (r, k') \<Longrightarrow> safe_to k k'"
  by (auto simp: sys_ioctl_def split: if_splits dest: store_safe)

lemma store_zeros_safe: "store_zeros p1 n' k = Some (r, k') \<Longrightarrow> safe_to k k'"
  by (auto simp: store_zeros_def dest: store_safe)

lemma sys_getaffinity_safe: "sys_getaffinity sz p1 k = Some (r, k') \<Longrightarrow> safe_to k k'"
  by (auto simp: sys_getaffinity_def Let_def dest: store_safe)

lemma sys_getcwd_safe: "sys_getcwd p1 sz k = Some (r, k') \<Longrightarrow> safe_to k k'"
  by (auto simp: sys_getcwd_def Let_def split: if_splits dest: store_safe)

lemma sys_execve_safe: "sys_execve p1 p2 p3 k = Some (r, k') \<Longrightarrow> safe_to k k'"
  by (auto simp: sys_execve_def split: bind_splits option.splits sum.splits)

lemma sys_elevate_safe: "sys_elevate sha p1 p2 p3 k = Some (r, k') \<Longrightarrow> safe_to k k'"
  by (auto simp: sys_elevate_def split: bind_splits option.splits sum.splits if_splits)

lemma sys_newfstatat_safe: "sys_newfstatat a b c d k = Some (r, k') \<Longrightarrow> safe_to k k'"
  by (auto simp: sys_newfstatat_def split: bind_splits option.splits sum.splits if_splits dest: sys_fstat_safe store_safe)

lemma sys_getrandom_safe: "sys_getrandom p n k = Some (r, k') \<Longrightarrow> safe_to k k'"
proof -
  have "safe_to k (k\<lparr>k_rng := x\<rparr>)" for x by (rule safe_rest) simp_all
  then show "sys_getrandom p n k = Some (r, k') \<Longrightarrow> safe_to k k'"
    by (auto simp: sys_getrandom_def dest!: store_safe intro: safe_trans)
qed

lemma sys_chdir_safe: "sys_chdir p k = Some (r, k') \<Longrightarrow> safe_to k k'"
proof -
  have cwd: "safe_to k (upd_task (\<lambda>t. t\<lparr>t_cwd := path\<rparr>) k)" for path
    unfolding safe_to_def
  proof
    assume h: "kernel_typed k \<and> alive k"
    let ?k = "upd_task (\<lambda>t. t\<lparr>t_cwd := path\<rparr>) k"
    show "kernel_typed ?k \<and> grows k ?k \<and> alive ?k"
    proof (cases "cur_task k")
      case None
      then have "?k = k" by (auto simp: upd_task_def cur_task_def with_task_def split: option.splits)
      then show ?thesis using h by simp
    next
      case (Some t)
      then obtain pid where p: "k_me k = Some pid" "map_of (tt_tasks (k_tasks k)) pid = Some t" using cur_task_map by blast
      have "table_change (t_fds t) k ?k"
        using p by (auto simp: table_change_def upd_task_def with_task_def intro!: exI [of _ "t\<lparr>t_cwd := path\<rparr>"])
      then have "kernel_typed ?k" "grows k ?k" using table_gains [OF _ Some] h by blast+
      moreover have "alive ?k" using h p by (simp add: alive_def cur_task_def upd_task_def with_task_def)
      ultimately show ?thesis by simp
    qed
  qed
  show "sys_chdir p k = Some (r, k') \<Longrightarrow> safe_to k k'"
    by (auto simp: sys_chdir_def Let_def cwd split: bind_splits option.splits sum.splits if_splits)
qed

lemmas calls_safe = sys_write_safe sys_read_safe sys_writev_safe sys_open_safe sys_unlink_safe sys_mkdir_safe sys_chmod_safe
  sys_chown_safe sys_utimensat_safe sys_close_safe sys_lseek_safe sys_time_safe sys_sendfile_safe sys_getdents64_safe sys_fstat_safe
  sys_arch_prctl_safe sys_getrandom_safe sys_ioctl_safe sys_chdir_safe sys_pipe_safe store_zeros_safe sys_poll_safe sys_getaffinity_safe
  sys_getcwd_safe sys_newfstatat_safe sys_execve_safe sys_wait4_safe sys_elevate_safe

definition call_keeps :: "kernel \<Rightarrow> (outcome \<times> kernel) option \<Rightarrow> bool" where
  "call_keeps k x \<longleftrightarrow> (\<forall>r k'. x = Some (r, k') \<longrightarrow> keeps_types k k')"

lemma call_keeps_if: "call_keeps k x \<Longrightarrow> call_keeps k y \<Longrightarrow> call_keeps k (if b then x else y)"
  by simp

lemma call_keeps_pure: "call_keeps k (Some (r, k))"
  by (auto simp: call_keeps_def intro: safe_keeps)

lemma call_keepsI: "(\<And>r k'. x = Some (r, k') \<Longrightarrow> safe_to k k') \<Longrightarrow> call_keeps k x"
  by (auto simp: call_keeps_def intro: safe_keeps)

lemma call_keeps_value: "(\<And>r k'. x = (r, k') \<Longrightarrow> safe_to k k') \<Longrightarrow> call_keeps k (ret_value x)"
  by (cases x) (auto simp: call_keeps_def ret_value_def intro: safe_keeps)

lemma call_keeps_exit: "call_keeps k (Some (Gone, exit_with c k))" "call_keeps k (Some (sys_kill s k))"
  by (auto simp: call_keeps_def sys_kill_def exit_with_keeps intro: safe_keeps split: if_splits)

lemma dispatch_native_keeps: "call_keeps k (dispatch_native sha i nr a1 a2 a3 k)"
  unfolding dispatch_native_def
  by (intro call_keeps_if call_keeps_pure) (rule call_keepsI, erule calls_safe)

lemma sys_dups_safe:
  "sys_dup_with (fd_dup x y) k = (r, k') \<Longrightarrow> safe_to k k'" "sys_dup_with (fd_dup2 x y) k = (r, k') \<Longrightarrow> safe_to k k'"
proof -
  show "sys_dup_with (fd_dup x y) k = (r, k') \<Longrightarrow> safe_to k k'" by (rule sys_dup_with_safe [OF shrinking_dup])
  have "fd_dup2 x y = fd_dup3 x y False" by (rule ext) (simp add: fd_dup2_def)
  then show "sys_dup_with (fd_dup2 x y) k = (r, k') \<Longrightarrow> safe_to k k'" using sys_dup_with_safe [OF shrinking_dup3] by metis
qed

lemma dispatch_other_keeps: "call_keeps k (dispatch_other sha i nr a1 a2 a3 a4 k)"
  unfolding dispatch_other_def
  by (intro call_keeps_if call_keeps_pure call_keeps_exit dispatch_native_keeps)
    ((rule call_keepsI, erule calls_safe) | (rule call_keeps_value, erule sys_dups_safe sys_dup3_safe sys_fcntl_safe))+

lemma dispatch_keeps: "call_keeps k (thos_syscall_dispatch sha i nr a1 a2 a3 a4 k)"
  unfolding thos_syscall_dispatch_def
  by (intro call_keeps_if call_keeps_pure dispatch_other_keeps) (rule call_keepsI, erule calls_safe)+

section \<open>Tasks calling in turn\<close>

text \<open>
  The kernel under its programs: a live task makes a call, forks or replaces its program, the kernel
  spawns a program, and between calls programs run and keys arrive.  A new task takes the next process
  number, which is not in use (the counter has 64 bits).
\<close>

definition booted :: "kernel \<Rightarrow> bool" where
  "booted k \<longleftrightarrow> k_tasks k = task_boot \<and> k_files k = [] \<and> k_pipes k = []"

definition live_task :: "u64 \<Rightarrow> kernel \<Rightarrow> bool" where
  "live_task pid k \<longleftrightarrow> (case map_of (tt_tasks (k_tasks k)) pid of Some t \<Rightarrow> \<not> t_exited t | None \<Rightarrow> False)"

definition fresh_pid :: "kernel \<Rightarrow> bool" where
  "fresh_pid k \<longleftrightarrow> map_of (tt_tasks (k_tasks k)) (tt_next_pid (k_tasks k)) = None"

inductive sys_step :: "kernel \<Rightarrow> kernel \<Rightarrow> bool" where
  s_call: "live_task pid k \<Longrightarrow> thos_syscall_dispatch sha i nr a1 a2 a3 a4 (k\<lparr>k_me := Some pid\<rparr>) = Some (r, k') \<Longrightarrow> sys_step k k'"
| s_fork: "live_task pid k \<Longrightarrow> fresh_pid k \<Longrightarrow> fork_task space (k\<lparr>k_me := Some pid\<rparr>) = Some (c, k') \<Longrightarrow> sys_step k k'"
| s_exec: "live_task pid k \<Longrightarrow> exec_task space (k\<lparr>k_me := Some pid\<rparr>) = Some k' \<Longrightarrow> sys_step k k'"
| s_spawn: "fresh_pid k \<Longrightarrow> spawn_task space ppid uid gid k = (c, k') \<Longrightarrow> sys_step k k'"
| s_run: "sys_step k (k\<lparr>k_mem := m, k_console := con\<rparr>)"

lemma live_alive: "live_task pid k \<Longrightarrow> alive (k\<lparr>k_me := Some pid\<rparr>)"
  by (auto simp: live_task_def alive_def cur_task_def split: option.splits)

lemma typed_me [simp]: "kernel_typed (k\<lparr>k_me := me\<rparr>) = kernel_typed k" "grows (k\<lparr>k_me := me\<rparr>) k' = grows k k'" "refs (k\<lparr>k_me := me\<rparr>) = refs k" "kinds (k\<lparr>k_me := me\<rparr>) = kinds k"
  by (simp_all add: kernel_typed_def refs_def kinds_def grows_def)

lemma shrinking_close_on_exec: "set (entry_files (close_on_exec fds)) \<subseteq> set (entry_files fds)"
  by (fastforce simp: close_on_exec_def entry_files_iff split: option.splits if_splits)

lemma exec_task_keeps:
  assumes "exec_task space k = Some k'"
  shows "keeps_types k k'"
proof -
  obtain t where t: "cur_task k = Some t" using assms by (auto simp: exec_task_def)
  then obtain pid where p: "k_me k = Some pid" "map_of (tt_tasks (k_tasks k)) pid = Some t" using cur_task_map by blast
  let ?k = "upd_task (\<lambda>u. snd (swap_space space (u\<lparr>t_fds := close_on_exec (t_fds u)\<rparr>))) k"
  have c: "table_change (close_on_exec (t_fds t)) k ?k"
    using p by (auto simp: table_change_def upd_task_def with_task_def swap_space_def
        intro!: exI [of _ "t\<lparr>t_fds := close_on_exec (t_fds t), t_space := space\<rparr>"])
  have e: "k' = (drop_files (entry_files (t_fds t)) ?k)\<lparr>k_fsbase := 0\<rparr>" using assms t by (simp add: exec_task_def)
  show ?thesis unfolding keeps_types_def e
    using table_shrinks [OF c t shrinking_close_on_exec, of "entry_files (t_fds t)"]
    by (auto simp: kernel_typed_def refs_def kinds_def grows_def)
qed

text \<open>A new task whose table names known files, or files that are no ends of pipes.\<close>

lemma new_task_keeps:
  assumes ty: "kernel_typed k" and fresh: "fresh_pid k" and pid: "t_pid t = tt_next_pid (k_tasks k)" "\<not> t_exited t"
    and ks: "k_tasks k' = (k_tasks k)\<lparr>tt_next_pid := n, tt_tasks := bt_insert (t_pid t) t (tt_tasks (k_tasks k))\<rparr>"
      "kinds k' = kinds k @ [KKeyboard, KConsole True]" "k_pipes k' = k_pipes k"
    and fds: "\<forall>f \<in> set (entry_files (t_fds t)). f \<in> refs k \<or> f = length (kinds k) \<or> f = Suc (length (kinds k))"
  shows "kernel_typed k' \<and> grows k k'"
proof -
  let ?m = "map_of (tt_tasks (k_tasks k))"
  have "ran (?m(t_pid t \<mapsto> t)) = insert t (ran ?m)" using fresh pid(1) by (simp add: fresh_pid_def)
  then have r: "refs k' = refs k \<union> set (entry_files (t_fds t))" and ran: "ran (map_of (tt_tasks (k_tasks k'))) = insert t (ran ?m)"
    by (auto simp: refs_def ks)
  have "view_ok (refs k) (kinds k @ [KKeyboard] @ [KConsole True]) (k_pipes k)"
    using view_ok_append [OF view_ok_append] ty by (auto simp: kernel_typed_def is_end_def)
  moreover have "\<forall>f \<in> refs k' - refs k. f < length (kinds k @ [KKeyboard] @ [KConsole True]) \<and> \<not> is_end ((kinds k @ [KKeyboard] @ [KConsole True]) ! f)"
    using fds by (auto simp: r nth_append is_end_def)
  ultimately have "view_ok (refs k') (kinds k') (k_pipes k')"
    unfolding ks(2,3) using view_ok_add [of "refs k"] r by simp
  moreover have "tasks_ok (k_tasks k')"
    using ty pid ran by (auto simp: kernel_typed_def tasks_ok_def ks table_ok_def set_bt_insert_distinct)
  ultimately show ?thesis by (simp add: kernel_typed_def grows_def ks)
qed

lemma fork_task_keeps:
  assumes "fork_task space k = Some (c, k')" "fresh_pid k" "alive k" "kernel_typed k"
  shows "kernel_typed k' \<and> grows k k'"
proof -
  obtain par where par: "cur_task k = Some par" using assms(1) by (auto simp: fork_task_def)
  obtain stdin out k1 where k1: "seed_files k = (stdin, out, k1)" by (metis prod_cases3)
  obtain ch tt where ch: "task_new stdin out (t_pid par) space (k_tasks k1) = (ch, tt)" by fastforce
  let ?t = "thread_spawned (ch\<lparr>t_fds := t_fds par, t_cwd := t_cwd par\<rparr>)"
  have k': "k' = k1\<lparr>k_tasks := with_task (t_pid ch) (\<lambda>t. thread_spawned (t\<lparr>t_fds := t_fds par, t_cwd := t_cwd par\<rparr>)) tt\<rparr>"
    using assms(1) par k1 ch by (auto simp: fork_task_def)
  have seed: "k_tasks k1 = k_tasks k" "kinds k1 = kinds k @ [KKeyboard, KConsole True]" "k_pipes k1 = k_pipes k"
    using k1 by (auto simp: seed_files_def new_file_def kinds_def)
  have pid: "t_pid ?t = tt_next_pid (k_tasks k)" "\<not> t_exited ?t" "t_pid ch = tt_next_pid (k_tasks k)"
    using ch by (auto simp: task_new_def task_new_with_ids_def Let_def thread_spawned_def seed)
  have ks: "k_tasks k' = (k_tasks k)\<lparr>tt_next_pid := tt_next_pid (k_tasks k) + 1, tt_tasks := bt_insert (t_pid ?t) ?t (tt_tasks (k_tasks k))\<rparr>"
    using ch by (auto simp: k' task_new_def task_new_with_ids_def Let_def with_task_def thread_spawned_def seed bt_insert_twice)
  have "set (entry_files (t_fds ?t)) \<subseteq> refs k"
    using cur_task_map [OF par] by (auto simp: refs_def thread_spawned_def intro!: ranI)
  then show ?thesis using new_task_keeps [OF assms(4,2) pid(1,2) ks] seed by (auto simp: k' kinds_def)
qed

lemma spawn_task_keeps:
  assumes "spawn_task space ppid uid gid k = (c, k')" "fresh_pid k" "kernel_typed k"
  shows "kernel_typed k' \<and> grows k k'"
proof -
  obtain stdin out k1 where k1: "seed_files k = (stdin, out, k1)" by (metis prod_cases3)
  obtain t tt where t: "task_new_with_ids stdin out ppid space uid gid (k_tasks k1) = (t, tt)" by fastforce
  have k': "k' = k1\<lparr>k_tasks := with_task (t_pid t) thread_spawned tt\<rparr>" using assms(1) k1 t by (auto simp: spawn_task_def)
  have seed: "k_tasks k1 = k_tasks k" "kinds k1 = kinds k @ [KKeyboard, KConsole True]" "k_pipes k1 = k_pipes k"
    "stdin = length (kinds k)" "out = Suc (length (kinds k))"
    using k1 by (auto simp: seed_files_def new_file_def kinds_def)
  let ?t = "thread_spawned t"
  have pid: "t_pid ?t = tt_next_pid (k_tasks k)" "\<not> t_exited ?t" "t_pid t = tt_next_pid (k_tasks k)"
    using t by (auto simp: task_new_with_ids_def Let_def thread_spawned_def seed)
  have ks: "k_tasks k' = (k_tasks k)\<lparr>tt_next_pid := tt_next_pid (k_tasks k) + 1, tt_tasks := bt_insert (t_pid ?t) ?t (tt_tasks (k_tasks k))\<rparr>"
    using t by (auto simp: k' task_new_with_ids_def Let_def with_task_def thread_spawned_def seed bt_insert_twice)
  have "\<forall>f \<in> set (entry_files (t_fds ?t)). f = length (kinds k) \<or> f = Suc (length (kinds k))"
    using t by (auto simp: task_new_with_ids_def Let_def thread_spawned_def seed_fds_def entry_files_def seed)
  then show ?thesis using new_task_keeps [OF assms(3,2) pid(1,2) ks] seed by (auto simp: k' kinds_def)
qed

lemma sys_step_keeps:
  assumes "sys_step k k'" "kernel_typed k"
  shows "kernel_typed k' \<and> grows k k'"
  using assms
proof (induction rule: sys_step.induct)
  case (s_call pid k sha i nr a1 a2 a3 a4 r k')
  then have "keeps_types (k\<lparr>k_me := Some pid\<rparr>) k'" using dispatch_keeps by (auto simp: call_keeps_def)
  then show ?case using s_call live_alive by (simp add: keeps_types_def)
next
  case (s_fork pid k space c k')
  then show ?case using fork_task_keeps [OF s_fork(3)] live_alive by (simp add: fresh_pid_def)
next
  case (s_exec pid k space k')
  then show ?case using exec_task_keeps [OF s_exec(2)] live_alive by (simp add: keeps_types_def)
next
  case (s_spawn k space ppid uid gid c k')
  then show ?case using spawn_task_keeps by blast
next
  case (s_run k m con)
  then show ?case by (simp add: kernel_typed_def refs_def kinds_def grows_def)
qed

interpretation calls_sys: invariant_system booted sys_step kernel_typed
proof
  show "kernel_typed k" if "booted k" for k
    using that by (simp add: booted_def kernel_typed_def tasks_ok_def table_ok_boot view_ok_def refs_def kinds_def ran_def) (simp add: task_boot_def)
qed (use sys_step_keeps in blast)

section \<open>What typing gives\<close>

definition names_end :: "file_obj \<Rightarrow> kernel \<Rightarrow> bool" where
  "names_end e k \<longleftrightarrow>
     list_ex (\<lambda>(_, t). list_ex (\<lambda>g. k_files k ! g = e) (entry_files (t_fds t))) (tt_tasks (k_tasks k))"

lemma names_end_iff:
  assumes "tasks_ok (k_tasks k)"
  shows "names_end e k \<longleftrightarrow> (\<exists>g \<in> refs k. k_files k ! g = e)"
  using assms
  by (force simp: names_end_def list_ex_iff refs_def ran_def tasks_ok_def table_ok_def bt_sorted_def strict_sorted_iff map_of_eq_Some_iff)

lemma typed_counts:
  assumes ty: "kernel_typed k" and t: "map_of (tt_tasks (k_tasks k)) pid = Some t" "fd_get (t_fds t) fd = Some f"
  shows "f < length (k_files k)"
    "k_files k ! f = FPipeRead p \<Longrightarrow> p < length (k_pipes k) \<and> length (p_buf (k_pipes k ! p)) \<le> PIPE_CAP"
    "k_files k ! f = FPipeWrite p \<Longrightarrow> p < length (k_pipes k) \<and> length (p_buf (k_pipes k ! p)) \<le> PIPE_CAP"
proof -
  have "f \<in> set (entry_files (t_fds t))"
    using t(2) by (auto simp: fd_get_def entry_files_iff split: option.splits handle_object.splits intro: fd_entry_at_in)
  then have f: "f \<in> refs k" using t(1) by (auto simp: refs_def intro: ranI)
  have v: "view_ok (refs k) (kinds k) (k_pipes k)" using ty by (simp add: kernel_typed_def)
  then have l: "f < length (kinds k)" using f by (simp add: view_ok_def)
  then show "f < length (k_files k)" by (simp add: kinds_def)
  have e: "end_ok (refs k) (k_pipes k) f (kind_of (k_files k ! f))" using v l by (auto simp: view_ok_def kinds_def)
  show "k_files k ! f = FPipeRead p \<Longrightarrow> p < length (k_pipes k) \<and> length (p_buf (k_pipes k ! p)) \<le> PIPE_CAP"
    "k_files k ! f = FPipeWrite p \<Longrightarrow> p < length (k_pipes k) \<and> length (p_buf (k_pipes k ! p)) \<le> PIPE_CAP"
    using e v by (auto simp: end_ok_def view_ok_def)
qed

text \<open>The counts of a pipe say whether some task holds the end.\<close>

lemma typed_ends:
  assumes "kernel_typed k" "p < length (k_pipes k)"
  shows "p_readers (k_pipes k ! p) = (if names_end (FPipeRead p) k then 1 else 0)"
    "p_writers (k_pipes k ! p) = (if names_end (FPipeWrite p) k then 1 else 0)"
proof -
  have v: "view_ok (refs k) (kinds k) (k_pipes k)" and tk: "tasks_ok (k_tasks k)" using assms(1) by (simp_all add: kernel_typed_def)
  have kd: "kind_of e = KRead p \<longleftrightarrow> e = FPipeRead p" "kind_of e = KWrite p \<longleftrightarrow> e = FPipeWrite p" "KRead p = kind_of e \<longleftrightarrow> e = FPipeRead p" "KWrite p = kind_of e \<longleftrightarrow> e = FPipeWrite p" for e by (cases e; auto)+
  have one: "names_end e k \<longleftrightarrow> g \<in> refs k"
    if "g < length (k_files k)" "k_files k ! g = e" "is_end (kind_of e)" for e g
  proof -
    have "h = g" if "h < length (kinds k)" "k_files k ! h = e" for h
      using v \<open>g < length (k_files k)\<close> \<open>k_files k ! g = e\<close> \<open>is_end (kind_of e)\<close> that unfolding view_ok_def kinds_def by auto
    moreover have "h < length (kinds k)" if "h \<in> refs k" for h using v that by (simp add: view_ok_def)
    ultimately show ?thesis using that(2) by (auto simp: names_end_iff [OF tk])
  qed
  have "KRead p \<in> set (kinds k)" "KWrite p \<in> set (kinds k)" using v assms(2) by (simp_all add: view_ok_def)
  then obtain r w where rw: "r < length (k_files k)" "k_files k ! r = FPipeRead p" "w < length (k_files k)" "k_files k ! w = FPipeWrite p"
    by (auto simp: kinds_def in_set_conv_nth kd)
  have "end_ok (refs k) (k_pipes k) r (KRead p)" "end_ok (refs k) (k_pipes k) w (KWrite p)"
    using v rw unfolding view_ok_def kinds_def by force+
  then show "p_readers (k_pipes k ! p) = (if names_end (FPipeRead p) k then 1 else 0)"
    "p_writers (k_pipes k ! p) = (if names_end (FPipeWrite p) k then 1 else 0)"
    using one [OF rw(1,2)] one [OF rw(3,4)] by (simp_all add: end_ok_def is_end_def)
qed


lemma pipe_write_with_reader:
  "p_readers p \<noteq> 0 \<Longrightarrow> pipe_write_loop src don p = (IO r xs, p') \<Longrightarrow> 0 \<le> r"
proof (induction src don p rule: pipe_write_loop.induct)
  case (1 src don p)
  obtain w q where w: "pipe_write_round src don p = (w, q)" by fastforce
  have l: "pipe_write_loop src don p = (case w of PDone r \<Rightarrow> (IO r [], q) | PMore don' \<Rightarrow> pipe_write_loop src don' q | PWriteBlock \<Rightarrow> (Blocks don, q))"
    by (subst pipe_write_loop.simps) (simp add: w)
  show ?case
  proof (cases w)
    case (PMore d)
    then show ?thesis using 1(1) [OF w [symmetric] PMore] 1(2,3) w l by (auto simp: pipe_write_round_def Let_def split: if_splits)
  qed (use l 1(2,3) w in \<open>auto simp: pipe_write_round_def Let_def split: if_splits\<close>)
qed



section \<open>A run\<close>

text \<open>Boot, a program with uid 0, a pipe, and the close of its write end.\<close>

definition run0 :: kernel where
  "run0 = \<lparr>k_tasks = task_boot, k_me = None, k_files = [], k_pipes = [], k_disk = (\<lambda>_. 0), k_console = console_boot,
     k_mem = (\<lambda>_. Some 0), k_rng = 0, k_user_exits = 0, k_fsbase = 0, k_cpus = 1\<rparr>"

definition run_task :: "fds \<Rightarrow> task" where
  "run_task fds = \<lparr>t_pid = 1, t_ppid = 0, t_uid = 0, t_gid = 0, t_space = 0, t_exit_status = None, t_exited = False,
     t_fds = fds, t_cwd = ''/'', t_apcs = [], t_is_pe = False, t_active_threads = 1\<rparr>"

definition run_fd :: "nat \<Rightarrow> fd_entry option" where
  "run_fd f = Some \<lparr>fe_obj = HFile f, fe_cloexec = False\<rparr>"

definition run_state :: "fds \<Rightarrow> file_obj list \<Rightarrow> pipe list \<Rightarrow> u64 option \<Rightarrow> umem \<Rightarrow> kernel" where
  "run_state fds files pipes me m = run0\<lparr>k_tasks := task_boot\<lparr>tt_next_pid := 2, tt_tasks := [(1, run_task fds)]\<rparr>,
     k_me := me, k_files := files, k_pipes := pipes, k_mem := m\<rparr>"

lemma run_spawn: "sys_step run0 (run_state [run_fd 0, run_fd 1, run_fd 1] [FKeyboard, FConsole True] [] None (\<lambda>_. Some 0))"
  by (rule s_spawn [of _ 0 0 0 0])
    (simp_all add: fresh_pid_def run0_def task_boot_def spawn_task_def seed_files_def new_file_def task_new_with_ids_def Let_def
      with_task_def thread_spawned_def run_state_def run_task_def run_fd_def seed_fds_def)

lemma run_live: "live_task 1 (run_state fds files pipes me m)"
  by (simp add: live_task_def run_state_def run_task_def)

lemma run_pipe:
  "\<exists>m. sys_step (run_state [run_fd 0, run_fd 1, run_fd 1] [FKeyboard, FConsole True] [] None (\<lambda>_. Some 0))
     (run_state [run_fd 0, run_fd 1, run_fd 1, run_fd 2, run_fd 3] [FKeyboard, FConsole True, FPipeRead 0, FPipeWrite 0] [pipe_new] (Some 1) m)"
proof -
  have "\<exists>m. thos_syscall_dispatch id True 22 0x1000 0 0 0 ((run_state [run_fd 0, run_fd 1, run_fd 1] [FKeyboard, FConsole True] [] None (\<lambda>_. Some 0))\<lparr>k_me := Some 1\<rparr>) =
    Some (Ret 0, run_state [run_fd 0, run_fd 1, run_fd 1, run_fd 2, run_fd 3] [FKeyboard, FConsole True, FPipeRead 0, FPipeWrite 0] [pipe_new] (Some 1) m)"
    by (simp add: thos_syscall_dispatch_def dispatch_other_def sys_pipe_def cur_task_def run_state_def run_task_def run_fd_def run0_def task_boot_def
        new_file_def on_fds_def upd_task_def with_task_def fd_alloc_flags_def handle_alloc_def Let_def store_def store_bytes_def O_CLOEXEC_def
        as_i32_def list_all_iff)
  then show ?thesis using s_call [OF run_live] by blast
qed

lemma run_close:
  "sys_step (run_state [run_fd 0, run_fd 1, run_fd 1, run_fd 2, run_fd 3] [FKeyboard, FConsole True, FPipeRead 0, FPipeWrite 0] [pipe_new] (Some 1) m)
     (run_state [run_fd 0, run_fd 1, run_fd 1, run_fd 2, None] [FKeyboard, FConsole True, FPipeRead 0, FPipeWrite 0] [pipe_new\<lparr>p_writers := 0\<rparr>] (Some 1) m)"
  by (rule s_call [OF run_live, of id True 3 4 0 0 0 _ _ _ _ _ "Ret 0"])
    (simp add: thos_syscall_dispatch_def sys_close_def cur_fd_def cur_task_def run_state_def run_task_def run_fd_def run0_def task_boot_def
        on_fds_def upd_task_def with_task_def fd_close_def fd_entry_at_def fd_get_def as_usize_def drop_files_def drop_file_def referenced_def
        entry_files_def set_pipe_def drop_write_end_def pipe_new_def)



end
