(* ===== verification/Syscall_Access.thy ===== *)
theory Syscall_Access
  imports Syscall_Types Ext2_Props
begin

text \<open>
  Who may do what through the system calls: opening and creating files, changing modes and owners,
  the native elevation call, and the calls that do not look at the caller's identity.
\<close>

unbundle bit_operations_syntax

section \<open>Opening\<close>

text \<open>The inode of a path on the volume of a state, when it can be read.\<close>

definition inode_at :: "kernel \<Rightarrow> string \<Rightarrow> inode option" where
  "inode_at k path =
     (case ext2_open (k_disk k) of
        Inl _ \<Rightarrow> None
      | Inr fs \<Rightarrow>
          (case path_lookup fs (k_disk k) path of
             Some (Some ino) \<Rightarrow> read_inode fs (k_disk k) ino
           | _ \<Rightarrow> None))"

definition may :: "task \<Rightarrow> bool \<Rightarrow> bool \<Rightarrow> inode \<Rightarrow> bool" where
  "may t r w node \<longleftrightarrow> (r \<longrightarrow> access_ok node (t_uid t) (t_gid t) False) \<and> (w \<longrightarrow> access_ok node (t_uid t) (t_gid t) True)"

lemma cur_task_new_file: "new_file obj k = (f, k1) \<Longrightarrow> cur_task k1 = cur_task k \<and> k_disk k1 = k_disk k"
  by (auto simp: new_file_def cur_task_def)

lemma open_access_spec:
  assumes o: "open_resolved_access path r w k = Some (x, k')" and t: "cur_task k = Some t"
  shows "(x \<in> {EIO, ENOENT, EACCES} \<and> k' = k \<and> (x = EACCES \<longrightarrow> (\<exists>node. inode_at k path = Some node \<and> \<not> may t r w node))) \<or>
    (\<exists>node obj f k1 fd. inode_at k path = Some node \<and> may t r w node \<and> new_file obj k = (f, k1) \<and>
       on_fds (fd_alloc f) k1 = Some (fd, k') \<and> x = sint fd \<and>
       (i_mode node AND 0xF000 \<noteq> 0x4000 \<longrightarrow>
          (\<exists>fs dat. ext2_open (k_disk k) = Inr fs \<and> read_file fs (k_disk k) node = Some dat \<and> obj = FExt2 (ext2_file_new path dat))))"
proof (cases "ext2_open (k_disk k)")
  case (Inl e)
  then show ?thesis using o t by (simp add: open_resolved_access_def EIO_def EACCES_def)
next
  case (Inr fs)
  show ?thesis
  proof (cases "path_lookup fs (k_disk k) path")
    case (Some i)
    show ?thesis
    proof (cases i)
      case (Some ino)
      with \<open>path_lookup fs (k_disk k) path = Some i\<close> have l: "path_lookup fs (k_disk k) path = Some (Some ino)" by simp
      obtain node where n: "read_inode fs (k_disk k) ino = Some node"
        using o t Inr l by (cases "read_inode fs (k_disk k) ino") (simp_all add: open_resolved_access_def)
      have at: "inode_at k path = Some node" using Inr l n by (simp add: inode_at_def)
      show ?thesis
      proof (cases "may t r w node")
        case False
        then have "x = EACCES \<and> k' = k" using o t Inr l n by (auto simp: open_resolved_access_def may_def split: if_splits)
        then show ?thesis using at False by blast
      next
        case True
        let ?obj = "if i_mode node AND 0xF000 = 0x4000
          then map_option (\<lambda>es. FDir (dir_file_new (map (\<lambda>(i, ty, n). (unat i, ty, n)) es))) (read_dir fs (k_disk k) ino)
          else map_option (\<lambda>dat. FExt2 (ext2_file_new path dat)) (read_file fs (k_disk k) node)"
        have o': "Option.bind ?obj (\<lambda>obj. let (f, k1) = new_file obj k in map_option (\<lambda>(fd, k2). (sint fd, k2)) (on_fds (fd_alloc f) k1)) = Some (x, k')"
          using o t Inr l n True by (cases r; cases w) (simp_all add: open_resolved_access_def may_def del: if_split)
        then obtain obj where ob: "?obj = Some obj" by (cases ?obj) (auto simp del: if_split)
        obtain f k1 where nf: "new_file obj k = (f, k1)" by fastforce
        obtain fd where fd: "on_fds (fd_alloc f) k1 = Some (fd, k')" "x = sint fd" using o' unfolding ob by (auto simp: nf)
        have "i_mode node AND 0xF000 \<noteq> 0x4000 \<longrightarrow> (\<exists>fs dat. ext2_open (k_disk k) = Inr fs \<and> read_file fs (k_disk k) node = Some dat \<and> obj = FExt2 (ext2_file_new path dat))"
          using ob Inr by auto
        then show ?thesis using at True nf fd by blast
      qed
    qed (use o t Inr Some in \<open>simp add: open_resolved_access_def ENOENT_def EACCES_def\<close>)
  qed (use o t Inr in \<open>simp add: open_resolved_access_def\<close>)
qed

lemma ucast_sint_u64: "ucast (word_of_int (sint h) :: u64) = h" for h :: i32
  by transfer (simp add: take_bit_signed_take_bit)

text \<open>The descriptor an open returns names the object it made.\<close>

lemma opened_fd:
  assumes "new_file obj k = (f, k1)" "on_fds (fd_alloc f) k1 = Some (fd, k')" "cur_task k = Some t" "length (t_fds t) < 2147483648"
  shows "cur_fd (word_of_int (sint fd)) k' = Some (length (k_files k)) \<and> k_files k' = k_files k @ [obj] \<and> k_disk k' = k_disk k"
proof -
  have f: "f = length (k_files k)" "cur_task k1 = Some t" "k_files k1 = k_files k @ [obj]" "k_disk k1 = k_disk k"
    using assms(1,3) by (auto simp: new_file_def cur_task_def)
  obtain h fds' where a: "handle_alloc (HFile f) False (t_fds t) = (h, fds')" by fastforce
  note sl = handle_alloc_slot [OF assms(4) a]
  have k': "fd = h" "k' = upd_task (\<lambda>u. u\<lparr>t_fds := fds'\<rparr>) k1"
    using assms(2) f(2) a by (auto simp: on_fds_def fd_alloc_def fd_alloc_flags_def)
  have "cur_task k' = Some (t\<lparr>t_fds := fds'\<rparr>)"
    using f(2) k'(2) cur_task_map [OF f(2)] by (auto simp: upd_task_def with_task_def cur_task_def)
  moreover have "ucast (word_of_int (sint h) :: u64) = h" by (rule ucast_sint_u64)
  moreover have "k_files k' = k_files k1 \<and> k_disk k' = k_disk k1" by (simp add: k'(2) upd_task_def split: option.split)
  ultimately show ?thesis using sl f k' by (simp add: cur_fd_def fd_get_def fd_entry_at_slot)
qed

text \<open>The creating half of an open.\<close>

definition created :: "string \<Rightarrow> task \<Rightarrow> kernel \<Rightarrow> kernel \<Rightarrow> bool" where
  "created path t k k1 \<longleftrightarrow>
     (\<exists>fs d. ext2_open (k_disk k) = Inr fs \<and> path_lookup fs (k_disk k) path = Some None \<and>
        parent_denies fs (k_disk k) path t = Some False \<and>
        write_path_owned fs path [] (t_uid t) (t_gid t) (k_disk k) = Some (Inr (), d) \<and> k1 = k\<lparr>k_disk := d\<rparr>)"

lemma open_create_spec:
  assumes "open_create path flags k = Some (r, k1)" "cur_task k = Some t"
  shows "(\<exists>e < 0. r = Inl e) \<or> r = Inr k1 \<and> (k1 = k \<or> created path t k k1)"
  using assms
  by (auto simp: open_create_def created_def Let_def EIO_def EEXIST_def EACCES_def ENOENT_def
      split: option.splits sum.splits bind_splits if_splits prod.splits)

lemma open_create_existing:
  assumes "inode_at k path = Some node" "cur_task k = Some t"
  shows "open_create path flags k = Some (if flags AND O_EXCL \<noteq> 0 then Inl EEXIST else Inr k, k)"
  using assms by (auto simp: open_create_def inode_at_def split: sum.splits option.splits)

lemma open_access_denied:
  assumes "inode_at k path = Some node" "\<not> may t r w node" "cur_task k = Some t"
  shows "open_resolved_access path r w k = Some (EACCES, k)"
proof -
  obtain fs ino where "ext2_open (k_disk k) = Inr fs" "path_lookup fs (k_disk k) path = Some (Some ino)" "read_inode fs (k_disk k) ino = Some node"
    using assms(1) by (auto simp: inode_at_def split: sum.splits option.splits)
  then show ?thesis using assms(2,3) by (auto simp: open_resolved_access_def may_def)
qed


section \<open>Modes, owners and elevation\<close>

text \<open>C39. Only an owner or uid 0 changes a mode, only uid 0 changes an owner, and only the
  administrator with the right password starts a program with uid 0: otherwise the calls return an
  error and change nothing.\<close>

theorem privileged_calls_authorised:
  assumes t: "cur_task k = Some t"
  shows "(sys_chmod p mode k = Some (r, k') \<and> (r = Ret 0 \<or> k' \<noteq> k) \<longrightarrow>
      (\<exists>raw node. user_cstr p (k_mem k) = Some raw \<and> inode_at k (resolve raw k) = Some node \<and> (t_uid t = 0 \<or> t_uid t = i_uid node))) \<and>
    (sys_chown p u g k = Some (r, k') \<and> (r = Ret 0 \<or> k' \<noteq> k) \<longrightarrow> t_uid t = 0) \<and>
    (sys_elevate sha p av pw k = Some (Ask q, k') \<longrightarrow> k' = k \<and> t_uid t = ADMIN_UID \<and>
      (\<exists>fs stored c word prog args. ext2_open (k_disk k) = Inr fs \<and> read_path fs (k_disk k) CRED_PATH = Some stored \<and>
         cred_load stored = Some c \<and> user_cstr pw (k_mem k) = Some word \<and> cred_verify sha c (cr_name c) word \<and> q = RElevate prog args))"
proof (intro conjI impI)
  assume h: "sys_chmod p mode k = Some (r, k') \<and> (r = Ret 0 \<or> k' \<noteq> k)"
  then show "\<exists>raw node. user_cstr p (k_mem k) = Some raw \<and> inode_at k (resolve raw k) = Some node \<and> (t_uid t = 0 \<or> t_uid t = i_uid node)"
    using t by (auto simp: sys_chmod_def inode_at_def Let_def EIO_def ENOENT_def EPERM_def split: bind_splits sum.splits option.splits if_splits)
next
  assume "sys_chown p u g k = Some (r, k') \<and> (r = Ret 0 \<or> k' \<noteq> k)"
  then show "t_uid t = 0" using t by (auto simp: sys_chown_def Let_def EPERM_def split: bind_splits if_splits)
next
  assume e: "sys_elevate sha p av pw k = Some (Ask q, k')"
  then show "k' = k" "t_uid t = ADMIN_UID"
    using t by (auto simp: sys_elevate_def split: bind_splits sum.splits option.splits if_splits)
  show "\<exists>fs stored c word prog args. ext2_open (k_disk k) = Inr fs \<and> read_path fs (k_disk k) CRED_PATH = Some stored \<and>
         cred_load stored = Some c \<and> user_cstr pw (k_mem k) = Some word \<and> cred_verify sha c (cr_name c) word \<and> q = RElevate prog args"
    using e t by (auto simp: sys_elevate_def split: bind_splits sum.splits option.splits if_splits)
qed

section \<open>Calls that do not ask who is calling\<close>

definition with_ids :: "u32 \<Rightarrow> u32 \<Rightarrow> kernel \<Rightarrow> kernel" where
  "with_ids u g k = upd_task (\<lambda>t. t\<lparr>t_uid := u, t_gid := g\<rparr>) k"

lemma with_ids_same [simp]:
  "k_mem (with_ids u g k) = k_mem k" "k_disk (with_ids u g k) = k_disk k" "k_files (with_ids u g k) = k_files k"
  "k_pipes (with_ids u g k) = k_pipes k" "k_console (with_ids u g k) = k_console k"
  by (simp_all add: with_ids_def upd_task_def split: option.split)

lemma cur_task_with_ids: "cur_task (with_ids u g k) = map_option (\<lambda>t. t\<lparr>t_uid := u, t_gid := g\<rparr>) (cur_task k)"
  by (auto simp: with_ids_def upd_task_def with_task_def cur_task_def split: option.split)

lemma with_ids_cur [simp]: "cur_fd fd (with_ids u g k) = cur_fd fd k" "resolve s (with_ids u g k) = resolve s k"
  by (simp_all add: cur_fd_def resolve_def current_cwd_def cur_task_with_ids split: option.split)

lemma with_ids_upd [simp]:
  "(with_ids u g k)\<lparr>k_disk := d\<rparr> = with_ids u g (k\<lparr>k_disk := d\<rparr>)" "(with_ids u g k)\<lparr>k_console := c\<rparr> = with_ids u g (k\<lparr>k_console := c\<rparr>)"
  "(with_ids u g k)\<lparr>k_mem := m\<rparr> = with_ids u g (k\<lparr>k_mem := m\<rparr>)"
  "set_file f obj (with_ids u g k) = with_ids u g (set_file f obj k)" "set_pipe p x (with_ids u g k) = with_ids u g (set_pipe p x k)"
  by (simp_all add: with_ids_def upd_task_def set_file_def set_pipe_def split: option.split)

lemma file_write_with_ids: "file_write f src (with_ids u g k) = map_option (map_prod id (with_ids u g)) (file_write f src k)"
  by (cases "k_files k ! f"; cases src) (auto simp: file_write_def console_file_write_def Let_def option.map_comp comp_def split: prod.split option.split bind_splits)

text \<open>C40. Removing, writing and executing ask for no permission: what \<open>unlink\<close> and \<open>rmdir\<close>, a write to
  a descriptor however it was opened, \<open>execve\<close> and \<open>stat\<close> do is the same for every user and group of
  the caller.\<close>

theorem calls_ignore_user:
  "sys_unlink p dir (with_ids u g k) = map_option (map_prod id (with_ids u g)) (sys_unlink p dir k) \<and>
   sys_write fd p len (with_ids u g k) = map_option (map_prod id (with_ids u g)) (sys_write fd p len k) \<and>
   sys_execve p av ev (with_ids u g k) = map_option (map_prod id (with_ids u g)) (sys_execve p av ev k) \<and>
   sys_newfstatat dfd p buf flags (with_ids u g k) = map_option (map_prod id (with_ids u g)) (sys_newfstatat dfd p buf flags k)"
proof (intro conjI)
  show "sys_unlink p dir (with_ids u g k) = map_option (map_prod id (with_ids u g)) (sys_unlink p dir k)"
    by (auto simp: sys_unlink_def Let_def split: sum.split bind_splits)
  show "sys_write fd p len (with_ids u g k) = map_option (map_prod id (with_ids u g)) (sys_write fd p len k)"
    by (auto simp: sys_write_def file_write_with_ids option.map_comp split: option.split intro!: option.map_cong)
  show "sys_execve p av ev (with_ids u g k) = map_option (map_prod id (with_ids u g)) (sys_execve p av ev k)"
    by (auto simp: sys_execve_def split: sum.split bind_splits option.split)
  show "sys_newfstatat dfd p buf flags (with_ids u g k) = map_option (map_prod id (with_ids u g)) (sys_newfstatat dfd p buf flags k)"
    by (auto simp: sys_newfstatat_def sys_fstat_def file_stat_def store_def option.map_comp comp_def split: sum.split bind_splits option.split prod.split)
qed

section \<open>A volume with one file\<close>

text \<open>
  A volume of 1024-byte blocks whose root directory holds the file \<open>f\<close> of uid 0, mode 0444 and
  contents \<open>hi\<close>, and a task of user 1000 on it.
\<close>

definition small_volume :: disk where
  "small_volume a =
     (case map_of [(1080, 0x53), (1081, 0xEF), (1064, 16), (1044, 1), (1056, 0x00), (1057, 0x20), (1028, 0x10), (2056, 3),
                   (3200, 0xED), (3201, 0x41), (3204, 12), (3240, 5),
                   (4480, 0x24), (4481, 0x81), (4484, 2), (4520, 6),
                   (5120, 12), (5124, 12), (5126, 1), (5127, 1), (5128, 0x66), (6144, 0x68), (6145, 0x69)] a of
        Some b \<Rightarrow> b
      | None \<Rightarrow> 0)"

definition small_fs :: ext2 where
  "small_fs = \<lparr>block_size = 1024, inode_size = 128, inodes_per_group = 16, first_data_block = 1, blocks_per_group = 0x2000,
     block_count = 16, filetype = False, sparse_super = False\<rparr>"

definition small_file :: inode where
  "small_file = \<lparr>i_mode = 0x8124, i_size = 2, i_block = [6, 0, 0, 0, 0, 0, 0, 0, 0, 0, 0, 0, 0, 0, 0], i_uid = 0, i_gid = 0\<rparr>"

definition small_root :: inode where
  "small_root = \<lparr>i_mode = 0x41ED, i_size = 12, i_block = [5, 0, 0, 0, 0, 0, 0, 0, 0, 0, 0, 0, 0, 0, 0], i_uid = 0, i_gid = 0\<rparr>"

definition small_kernel :: kernel where
  "small_kernel = (run_state [run_fd 0, run_fd 1, run_fd 1] [FKeyboard, FConsole True] [] (Some 1) (\<lambda>_. Some 0))
     \<lparr>k_disk := small_volume, k_tasks := task_boot\<lparr>tt_next_pid := 2,
        tt_tasks := [(1, (run_task [run_fd 0, run_fd 1, run_fd 1])\<lparr>t_uid := 1000, t_gid := 1000\<rparr>)]\<rparr>\<rparr>"

lemma le_at_range:
  "i + 4 \<le> n \<Longrightarrow> le32_at (disk_range d off n) i = of_nat (le_val [d (off + i), d (off + i + 1), d (off + i + 2), d (off + i + 3)])"
  "i + 2 \<le> n \<Longrightarrow> le16_at (disk_range d off n) i = of_nat (le_val [d (off + i), d (off + i + 1)])"
proof -
  have r: "i + w \<le> n \<Longrightarrow> take w (drop i (disk_range d off n)) = map d [off + i..<off + i + w]" for w
    by (simp add: disk_range_flat drop_map take_map add.assoc)
  have u: "[m..<m + 4] = [m, m + 1, m + 2, m + 3]" "[m..<m + 2] = [m, m + 1]" for m :: nat
    by (simp_all add: upt_rec)
  show "i + 4 \<le> n \<Longrightarrow> le32_at (disk_range d off n) i = of_nat (le_val [d (off + i), d (off + i + 1), d (off + i + 2), d (off + i + 3)])"
    "i + 2 \<le> n \<Longrightarrow> le16_at (disk_range d off n) i = of_nat (le_val [d (off + i), d (off + i + 1)])"
    unfolding le32_at_def le16_at_def by (simp_all only: r u list.map)
qed

lemma small_open: "ext2_open small_volume = Inr small_fs"
  by (simp add: ext2_open_def le_at_range SB_OFFSET_def EXT2_MAGIC_def small_fs_def Let_def) (simp add: small_volume_def)

lemma small_off: "inode_off small_fs small_volume 2 = Some 3200" "inode_off small_fs small_volume 12 = Some 4480"
  by (simp_all add: inode_off_def read_bgd_def bgd_off_def small_fs_def bs_def le_at_range Let_def) (simp_all add: small_volume_def)

lemma small_sizes: "inode_size small_fs = 128" "bs small_fs = 1024"
  by (simp_all add: small_fs_def bs_def)

lemma small_inodes: "read_inode small_fs small_volume 2 = Some small_root" "read_inode small_fs small_volume 12 = Some small_file"
  by (simp_all add: read_inode_def small_off small_sizes decode_inode_def le_at_range upt_conv_Cons disk_range_flat [THEN arg_cong, of length])
    (simp_all add: small_volume_def small_root_def small_file_def)

lemma small_contents: "read_file small_fs small_volume small_root = Some [12, 0, 0, 0, 12, 0, 1, 1, 0x66, 0, 0, 0]"
  "read_file small_fs small_volume small_file = Some [0x68, 0x69]"
  by (simp_all add: read_file_def block_map_def small_sizes small_root_def small_file_def div_ceil_def Let_def read_runs.simps disk_range_flat
      take_map upt_conv_Cons) (simp_all add: small_volume_def)

lemma small_lookup: "path_lookup small_fs small_volume ''/f'' = Some (Some 12)"
  by (simp add: path_lookup_def ROOT_INO_def lookup_def small_inodes small_contents dir_find.simps le32_at_def le16_at_def as_bytes_def Let_def)

lemma small_inode_at: "inode_at small_kernel ''/f'' = Some small_file"
  by (simp add: inode_at_def small_kernel_def small_open small_lookup small_inodes)

lemma small_task: "cur_task small_kernel = Some ((run_task [run_fd 0, run_fd 1, run_fd 1])\<lparr>t_uid := 1000, t_gid := 1000\<rparr>)"
  by (simp add: small_kernel_def cur_task_def run_state_def)


text \<open>User 1000 changes neither the mode nor the owner of the root directory, which is of uid 0.\<close>

theorem privileged_calls_authorised_witness:
  "\<exists>r r'. sys_chown 0 5 5 small_kernel = Some (r, small_kernel) \<and> r \<noteq> Ret 0 \<and>
     sys_chmod 0 0x1FF small_kernel = Some (r', small_kernel) \<and> r' \<noteq> Ret 0"
proof -
  let ?t = "(run_task [run_fd 0, run_fd 1, run_fd 1])\<lparr>t_uid := 1000, t_gid := 1000\<rparr>"
  have m: "k_mem small_kernel = (\<lambda>_. Some 0)" by (simp add: small_kernel_def run_state_def)
  have "cstr_bytes 4096 0 (\<lambda>_. Some 0) = Some []" by (simp add: numeral_eq_Suc)
  then have u: "user_cstr 0 (k_mem small_kernel) = Some ''''" by (simp add: user_cstr_def m from_utf8_lossy_def utf8_lossy.simps)
  have cw: "resolve '''' small_kernel = ''/''"
    by (simp add: resolve_def current_cwd_def small_task run_task_def resolve_path_def path_comps_def slash_split_def push_comp_def)
  have l: "path_lookup small_fs small_volume ''/'' = Some (Some 2)" by (simp add: path_lookup_def ROOT_INO_def)
  then have n: "inode_at small_kernel ''/'' = Some small_root" by (simp add: inode_at_def small_kernel_def small_open small_inodes)
  have no: "t_uid ?t \<noteq> 0" "i_uid small_root = 0" by (simp_all add: small_root_def)
  obtain r k' where o: "sys_chown 0 5 5 small_kernel = Some (r, k')" by (simp add: sys_chown_def small_task u Let_def)
  have d: "k_disk small_kernel = small_volume" by (simp add: small_kernel_def)
  obtain r2 k2 where c: "sys_chmod 0 0x1FF small_kernel = Some (r2, k2)"
    using no by (simp add: sys_chmod_def small_task u cw d small_open l small_inodes Let_def)
  show ?thesis
    using privileged_calls_authorised [OF small_task, of 0 "0x1FF" r2 k2 5 5 id 0 0] privileged_calls_authorised [OF small_task, of 0 "0x1FF" r k' 5 5 id 0 0]
      o c u cw n no by auto
qed

end
