(* ===== verification/Spec2Isabelle.thy ===== *)
theory Spec2Isabelle
  imports Kernel_Prelude Sched_Props Wait_Atomic Handles Vfs Registry_Props Ext2_Dir Security
    Tasks Console Volumes Address_Space Program_Load Window Syscalls Syscall_Types Syscall_Access
begin

text \<open>
  A verification library for the THOS kernel of Tarno-OS (\<open>kernel/src\<close>), a kernel in Rust with a POSIX
  and an NT personality.

  \<^bold>\<open>Conventions.\<close>  A Rust struct is a \<open>record\<close>, an enum a \<open>datatype\<close>, a machine integer a word or, where it
  cannot wrap, a natural number; \<open>usize\<close> is 64 bits.  The kernel is built in release mode, so arithmetic
  wraps.  A \<open>Result\<close> is a sum with the error on the left.  Where an operation can panic or fault, an
  outer \<open>option\<close> has \<open>None\<close> for it, and a panic of the kernel halts the machine.  A \<open>BTreeMap\<close> is an
  association list sorted by key.  Locks are critical sections: an operation under a lock is one step,
  and where the code drops a lock or uses atomics the steps are separate rules of a step relation and
  the theorems hold for every interleaving.

  \<^bold>\<open>Prelude.\<close>  \<open>Kernel_Prelude\<close> has the machine types, results, sorted maps, checked slices and
  little-endian fields, and the locale \<open>invariant_system\<close> of an initial predicate, a step relation and an
  invariant, which the machines below interpret.  \<open>Rust_Text\<close> has what the code uses of Rust strings:
  UTF-8, splitting, trimming, hexadecimal.

  \<^bold>\<open>Threads and waiting.\<close>
  \<^item> \<open>Sched\<close>, \<open>Sched_Inv\<close>, \<open>Sched_Props\<close> (\<open>sched.rs\<close>): threads, the ready queue, per-CPU slots, the
    switch protocol from \<open>reschedule\<close> to \<open>finish_switch\<close>, wake-ups and reaping.  Any number of CPUs
    interleave.  No two CPUs share a kernel stack, no wake-up is lost, no runnable thread is dropped, a
    reaped thread is unreachable and an address space outlives its threads.
  \<^item> \<open>Timer\<close> (\<open>timer.rs\<close>): the wheel of deadlines.
  \<^item> \<open>Wait\<close>, \<open>Wait_Atomic\<close> (\<open>wait.rs\<close>, the multi-object wait of \<open>nt.rs\<close>): wait queues, events, semaphores,
    mutants.  All-or-nothing waits, lock order, conservation of units, mutual exclusion, no sleep on a
    signalled event, and the signal an automatic event loses in a multi-object wait.
  \<^item> \<open>Window\<close> (\<open>window.rs\<close>): window classes, message queues and \<open>GetMessageA\<close>.

  \<^bold>\<open>Objects and files.\<close>
  \<^item> \<open>Handles\<close> (\<open>object.rs\<close>), \<open>Vfs\<close> (\<open>vfs.rs\<close>): handle tables and the RAM file system.
  \<^item> \<open>Files\<close> (\<open>file.rs\<close>): ext2 and FAT files, directory streams, pipes.
  \<^item> \<open>Ext2\<close>, \<open>Ext2_Write\<close>, \<open>Ext2_Props\<close>, \<open>Ext2_Dir\<close> (\<open>ext2.rs\<close>): the file system over a disk of bytes, its
    reads, allocation, directory records and path operations.
  \<^item> \<open>Volumes\<close> (\<open>fat.rs\<close>, \<open>gpt.rs\<close>, \<open>device.rs\<close>): FAT volumes, partitions and device names.
  \<^item> \<open>Registry\<close>, \<open>Registry_Props\<close> (\<open>registry.rs\<close>): the key tree as a map of paths, watches, hive files.

  \<^bold>\<open>Security and console.\<close>  \<open>Security\<close> (\<open>cred.rs\<close>, \<open>login.rs\<close>, \<open>integrity.rs\<close>, \<open>execgate.rs\<close>): credentials,
  login, boot integrity and the execution gate, over an argument for the hash function.  \<open>Console\<close>
  (\<open>console.rs\<close>): the key map, the line discipline and the secure attention prompt.

  \<^bold>\<open>Memory and programs.\<close>
  \<^item> \<open>Paging\<close> (\<open>mm.rs\<close>, the walks of \<open>process.rs\<close>): the frame allocator threaded through free memory, the
    boot memory map, page-table walks.
  \<^item> \<open>Address_Space\<close> (\<open>process.rs\<close>, \<open>vmm.rs\<close>): break, anonymous mappings, stacks, protection, sections.
    The page-table crate is not part of the repository: it is an argument, the record \<open>mapper\<close>, with the
    laws \<open>mapper_laws\<close> (a mapped page is found, other pages keep their mapping, a mapped page is refused,
    a mapping takes at most three table frames).  \<open>map_mapper\<close> is a concrete mapper for the witnesses.
  \<^item> \<open>Program_Load\<close> (\<open>elf.rs\<close>, \<open>process.rs\<close>): the ELF loader and the initial stack.
  \<^item> \<open>Tasks\<close> (\<open>process.rs\<close>): tasks, descriptor tables, path resolution, \<open>wait4\<close>, APC queues.

  \<^bold>\<open>System calls.\<close>  \<open>Syscalls\<close> (\<open>syscall.rs\<close>, the remaining open files of \<open>file.rs\<close>) is the POSIX dispatcher
  over the state of all the above: every call number, user memory as the caller's page tables show
  it, and calls that sleep, end the caller or ask the process layer as outcomes.  \<open>Syscall_Types\<close> shows
  that every sequence of calls, forks, execs and spawns of any tasks keeps the state well typed and
  that the end of file of a pipe is exact.  \<open>Syscall_Access\<close> shows what \<open>open\<close>, \<open>chmod\<close>, \<open>chown\<close> and
  \<open>elevate\<close> check, and which calls check nothing.

  \<^bold>\<open>Bounds and fuel.\<close>  Loops are functions with a termination proof.  The unbounded loops of the source
  are \<open>partial_function (option)\<close>: the FAT chain read and the segment loop, whose results are proved to
  exist for the inputs the theorems name.  

  \<^bold>\<open>Not modelled.\<close>
  \<^item> Assembly and processor state: context-switch and entry code, \<open>gdt.rs\<close>, \<open>idt.rs\<close>, \<open>apic.rs\<close>, \<open>smp.rs\<close>,
    \<open>cpu.rs\<close>.  Their effect is the switch protocol of \<open>Sched\<close>.
  \<^item> Device drivers: \<open>ahci.rs\<close>, \<open>xhci.rs\<close>, \<open>pci.rs\<close>, \<open>serial.rs\<close>.  They are sequences of device register
    accesses; the disk is a function from byte addresses and output is a list of bytes.
  \<^item> The PE loader (\<open>pe.rs\<close>), the NT system calls (\<open>nt.rs\<close>, of which only the multi-object wait is
    modelled), exception and APC delivery (\<open>seh.rs\<close>, \<open>apc.rs\<close>), drawing (\<open>gdi.rs\<close>), ACPI tables (\<open>acpi.rs\<close>).
  \<^item> Boot milestones and self tests (\<open>main.rs\<close>), the boot loader (\<open>loaders/thos-boot\<close>), the build and
    test driver (\<open>xtask\<close>) and the test programs: programs of I/O around the code above.
  \<^item> The language model (\<open>ml/thos-lm\<close>): floating-point kernels and an interactive example.
\<close>

end
